(* ===== verification/Prelude.thy ===== *)
theory Prelude
  imports
    Main
    "HOL-Library.Word"
    "HOL-Library.List_Lexorder"
    "HOL-Library.Char_ord"
begin

text \<open>
  Shared vocabulary of the TitanCore development: the machine types of
  \<open>include/titancore/common/types.hpp\<close>, C++ exceptions as values, the
  exception monad in which every throwing function is written, and the generic
  lemmas on lists, words and maps that several components use.

  A fixed-size \<open>std::array<uint8_t, N>\<close> is a byte list whose length is stated
  where it matters (\<open>sized N\<close>), since a shallow embedding keeps values, not
  types; every operation that builds such an array is shown to build it with the
  right length.
\<close>

unbundle bit_operations_syntax

named_theorems exn_simps \<open>evaluation of the exception monad\<close>
named_theorems size_simps \<open>lengths of the fixed-size byte arrays\<close>

section \<open>Machine types\<close>

type_synonym byte = "8 word"
type_synonym bytes = "byte list"
type_synonym u16 = "16 word"
type_synonym u32 = "32 word"
type_synonym u64 = "64 word"

type_synonym hash32 = bytes
type_synonym address = bytes
type_synonym public_key = bytes
type_synonym private_key = bytes
type_synonym signature_bytes = bytes

definition sized :: "nat \<Rightarrow> bytes \<Rightarrow> bool" where
  "sized n bs \<longleftrightarrow> length bs = n"

lemma sizedD: "sized n bs \<Longrightarrow> length bs = n"
  by (simp add: sized_def)

lemma sizedI [intro]: "length bs = n \<Longrightarrow> sized n bs"
  by (simp add: sized_def)

section \<open>Exceptions as values\<close>

text \<open>
  One constructor per class of exception the sources throw or let escape.
  \<open>JsonParseError\<close> is \<open>nlohmann::json::parse_error\<close>, \<open>JsonError\<close> any other
  exception of that library; \<open>BadAccess\<close> marks an access the C++ standard leaves
  undefined (a null handle).
\<close>

datatype exn =
    RuntimeError string
  | InvalidArgument string
  | OutOfRange string
  | JsonParseError string
  | JsonError string
  | BadAccess string

type_synonym 'a result = "exn + 'a"

fun bind_e :: "'a result \<Rightarrow> ('a \<Rightarrow> 'b result) \<Rightarrow> 'b result" where
  "bind_e (Inl e) f = Inl e"
| "bind_e (Inr x) f = f x"

declare bind_e.simps [exn_simps]

lemma bind_e_Inr_iff: "bind_e m f = Inr y \<longleftrightarrow> (\<exists>x. m = Inr x \<and> f x = Inr y)"
  by (cases m) auto

lemma bind_e_InrE [elim!]:
  assumes "bind_e m f = Inr y"
  obtains x where "m = Inr x" and "f x = Inr y"
  using assms by (cases m) auto

lemma bind_e_cong [fundef_cong]:
  "m = m' \<Longrightarrow> (\<And>x. m' = Inr x \<Longrightarrow> f x = g x) \<Longrightarrow> bind_e m f = bind_e m' g"
  by (cases m') auto

definition of_option :: "exn \<Rightarrow> 'a option \<Rightarrow> 'a result" where
  "of_option e x = (case x of None \<Rightarrow> Inl e | Some y \<Rightarrow> Inr y)"

lemma of_option_simps [simp, exn_simps]:
  "of_option e None = Inl e" "of_option e (Some y) = Inr y"
  by (simp_all add: of_option_def)

lemma of_option_Inr_iff [simp]: "of_option e x = Inr y \<longleftrightarrow> x = Some y"
  by (cases x) auto

text \<open>A loop that converts every element and stops at the first exception.\<close>

fun map_e :: "('a \<Rightarrow> 'b result) \<Rightarrow> 'a list \<Rightarrow> 'b list result" where
  "map_e f [] = Inr []"
| "map_e f (x # xs) = bind_e (f x) (\<lambda>y. bind_e (map_e f xs) (\<lambda>ys. Inr (y # ys)))"

lemma map_e_cong [fundef_cong]:
  "xs = ys \<Longrightarrow> (\<And>x. x \<in> set ys \<Longrightarrow> f x = g x) \<Longrightarrow> map_e f xs = map_e g ys"
  by (induction ys arbitrary: xs) auto

lemma map_e_all_Inr: "(\<And>x. x \<in> set xs \<Longrightarrow> f x = Inr (g x)) \<Longrightarrow> map_e f xs = Inr (map g xs)"
  by (induction xs) auto

lemma map_e_Inr_length: "map_e f xs = Inr ys \<Longrightarrow> length ys = length xs"
  by (induction xs arbitrary: ys) auto

lemma map_e_Inr_set: "map_e f xs = Inr ys \<Longrightarrow> y \<in> set ys \<Longrightarrow> \<exists>x\<in>set xs. f x = Inr y"
  by (induction xs arbitrary: ys) auto

section \<open>Codecs\<close>

text \<open>
  The contract every encoder/decoder pair of the program promises: decoding what
  was encoded gives the value back, for the values in the domain. Injectivity of
  the encoder and the round trip of whole sequences follow once, here.
\<close>

locale codec =
  fixes enc :: "'a \<Rightarrow> 'b" and dec :: "'b \<Rightarrow> 'a result" and ok :: "'a \<Rightarrow> bool"
  assumes dec_enc: "ok x \<Longrightarrow> dec (enc x) = Inr x"
begin

lemma enc_inject: "ok x \<Longrightarrow> ok y \<Longrightarrow> enc x = enc y \<longleftrightarrow> x = y"
  using dec_enc by (metis sum.inject(2))

lemma enc_inj_on: "inj_on enc {x. ok x}"
  by (rule inj_onI) (simp add: enc_inject)

lemma map_e_dec_enc: "\<forall>x\<in>set xs. ok x \<Longrightarrow> map_e dec (map enc xs) = Inr xs"
  by (induction xs) (simp_all add: dec_enc)

lemma map_enc_inject:
  "\<forall>x\<in>set xs. ok x \<Longrightarrow> \<forall>y\<in>set ys. ok y \<Longrightarrow> map enc xs = map enc ys \<longleftrightarrow> xs = ys"
  by (metis map_e_dec_enc sum.inject(2))

end

section \<open>Strings and bytes\<close>

text \<open>\<open>reinterpret_cast\<close> between \<open>char\<close> and \<open>uint8_t\<close>.\<close>

definition byte_of_char :: "char \<Rightarrow> byte" where
  "byte_of_char c = word_of_nat (of_char c)"

definition char_of_byte :: "byte \<Rightarrow> char" where
  "char_of_byte b = char_of (unat b)"

lemma of_char_bound: "(of_char c :: nat) < 256"
  using of_char_mod_256 [of c, where ?'a = nat] mod_less_divisor [of 256 "of_char c"] by simp

lemma char_of_byte_of_char [simp]: "char_of_byte (byte_of_char c) = c"
  by (simp add: char_of_byte_def byte_of_char_def unat_of_nat of_char_bound)

lemma byte_of_char_of_byte [simp]: "byte_of_char (char_of_byte b) = b"
proof -
  have "unat b < 256"
    using unsigned_less [of b, where ?'a = nat] by simp
  then show ?thesis
    by (simp add: char_of_byte_def byte_of_char_def)
qed

definition string_bytes :: "string \<Rightarrow> bytes" where
  "string_bytes s = map byte_of_char s"

definition bytes_string :: "bytes \<Rightarrow> string" where
  "bytes_string bs = map char_of_byte bs"

lemma bytes_string_inverse [simp]: "bytes_string (string_bytes s) = s"
  by (simp add: string_bytes_def bytes_string_def o_def)

lemma string_bytes_inverse [simp]: "string_bytes (bytes_string bs) = bs"
  by (simp add: string_bytes_def bytes_string_def o_def)

lemma string_bytes_length [simp]: "length (string_bytes s) = length s"
  by (simp add: string_bytes_def)

lemma string_bytes_inject [simp]: "string_bytes s = string_bytes t \<longleftrightarrow> s = t"
  by (metis bytes_string_inverse)

interpretation text_bytes: codec string_bytes "\<lambda>b. Inr (bytes_string b)" "\<lambda>_. True"
  by unfold_locales simp

section \<open>Lists\<close>

lemma concat_sized_inject:
  assumes "\<forall>x\<in>set xs. length x = n" and "\<forall>y\<in>set ys. length y = n" and "0 < n"
    and "concat xs = concat ys"
  shows "xs = ys"
  using assms
proof (induction xs arbitrary: ys)
  case Nil
  then have "concat ys = []" by simp
  with Nil.prems(2,3) show ?case by (cases ys) force+
next
  case (Cons x xs)
  from Cons.prems have "ys \<noteq> []" by force
  then obtain y ys' where ys: "ys = y # ys'"
    by (cases ys) auto
  have "length x = length y"
    using Cons.prems(1,2) ys by simp
  moreover have "x @ concat xs = y @ concat ys'"
    using Cons.prems(4) ys by simp
  ultimately have eq: "x = y" "concat xs = concat ys'"
    by simp_all
  have "xs = ys'"
    by (rule Cons.IH) (use Cons.prems ys eq in simp_all)
  with eq ys show ?case by simp
qed

lemma nth_snoc_last [simp]: "(xs @ [x]) ! length xs = x"
  by simp

lemma last_nth_minus: "xs \<noteq> [] \<Longrightarrow> last xs = xs ! (length xs - 1)"
  by (rule last_conv_nth)

end
