(* ===== verification/Crypto_Api.thy ===== *)
theory Crypto_Api
  imports Prelude
begin

text \<open>
  OpenSSL and libsecp256k1 are not part of the repository: they are a parameter of the
  model, one record field per library call the sources make, an unsuccessful call being
  \<open>None\<close> or \<open>False\<close>. The opaque \<open>secp256k1_pubkey\<close> and
  \<open>secp256k1_ecdsa_signature\<close> structures are byte buffers, as in the library's header.
  \<open>crypto_ok\<close> collects what the two libraries document and the sources rely on; it is a
  hypothesis of the theorems that need it and is satisfied by \<open>demo_crypto\<close>, a concrete
  instance the witnesses compute with (it is no model of the real libraries).
\<close>

record crypto_api =
  evp_ctx_new :: bool
  evp_init :: bool
  evp_update :: "bytes \<Rightarrow> bool"
  evp_final :: "bytes \<Rightarrow> (bytes \<times> nat) option"
  rand_bytes :: "nat \<Rightarrow> bytes option"
  seckey_verify :: "bytes \<Rightarrow> bool"
  pubkey_create :: "bytes \<Rightarrow> bytes option"
  pubkey_serialize :: "bytes \<Rightarrow> bytes option"
  pubkey_parse :: "bytes \<Rightarrow> bytes option"
  ecdsa_sign :: "bytes \<Rightarrow> bytes \<Rightarrow> bytes option"
  sig_serialize :: "bytes \<Rightarrow> bytes"
  sig_parse :: "bytes \<Rightarrow> bytes option"
  ecdsa_verify :: "bytes \<Rightarrow> bytes \<Rightarrow> bytes \<Rightarrow> bool"

section \<open>Documented behaviour\<close>

definition evp_ok :: "crypto_api \<Rightarrow> bool" where
  "evp_ok C \<longleftrightarrow> evp_ctx_new C \<and> evp_init C \<and> (\<forall>d. evp_update C d) \<and>
     (\<forall>d. \<exists>h. evp_final C d = Some (h, 32) \<and> length h = 32)"

definition secp_ok :: "crypto_api \<Rightarrow> bool" where
  "secp_ok C \<longleftrightarrow>
     (\<forall>sk. seckey_verify C sk \<longrightarrow> pubkey_create C sk \<noteq> None) \<and>
     (\<forall>sk m. seckey_verify C sk \<longrightarrow> length m = 32 \<longrightarrow> ecdsa_sign C m sk \<noteq> None) \<and>
     (\<forall>sk pk. pubkey_create C sk = Some pk \<longrightarrow>
        (\<exists>ser. pubkey_serialize C pk = Some ser \<and> length ser = 33 \<and> pubkey_parse C ser = Some pk)) \<and>
     (\<forall>m sk sg. ecdsa_sign C m sk = Some sg \<longrightarrow>
        length (sig_serialize C sg) = 64 \<and> sig_parse C (sig_serialize C sg) = Some sg) \<and>
     (\<forall>m sk pk sg. ecdsa_sign C m sk = Some sg \<longrightarrow> pubkey_create C sk = Some pk \<longrightarrow>
        ecdsa_verify C sg m pk)"

definition crypto_ok :: "crypto_api \<Rightarrow> bool" where
  "crypto_ok C \<longleftrightarrow> evp_ok C \<and> secp_ok C"

lemma crypto_okD: "crypto_ok C \<Longrightarrow> evp_ok C" "crypto_ok C \<Longrightarrow> secp_ok C"
  by (simp_all add: crypto_ok_def)

section \<open>A concrete instance\<close>

definition demo_digest :: "bytes \<Rightarrow> bytes" where
  "demo_digest d =
     (let h = foldl (\<lambda>h b. (h * 257 + unat b + 1) mod 2 ^ 256) 0 d
      in map (\<lambda>i. word_of_nat (h div 256 ^ i mod 256)) [0..<32])"

definition demo_crypto :: crypto_api where
  "demo_crypto =
     \<lparr>evp_ctx_new = True, evp_init = True, evp_update = (\<lambda>_. True),
      evp_final = (\<lambda>d. Some (demo_digest d, 32)),
      rand_bytes = (\<lambda>k. Some (replicate 32 (word_of_nat k))),
      seckey_verify = (\<lambda>sk. length sk = 32 \<and> sk \<noteq> replicate 32 0),
      pubkey_create = (\<lambda>sk. if length sk = 32 \<and> sk \<noteq> replicate 32 0 then Some sk else None),
      pubkey_serialize = (\<lambda>pk. Some (2 # pk)),
      pubkey_parse = (\<lambda>s. if length s = 33 \<and> hd s = 2 then Some (tl s) else None),
      ecdsa_sign = (\<lambda>m sk. if length sk = 32 \<and> sk \<noteq> replicate 32 0 \<and> length m = 32
                          then Some (sk @ m) else None),
      sig_serialize = (\<lambda>sg. sg),
      sig_parse = (\<lambda>s. if length s = 64 then Some s else None),
      ecdsa_verify = (\<lambda>sg m pk. sg = pk @ m)\<rparr>"

lemma length_demo_digest [simp]: "length (demo_digest d) = 32"
  by (simp add: demo_digest_def Let_def)

lemma demo_crypto_ok: "crypto_ok demo_crypto"
  by (auto simp: crypto_ok_def evp_ok_def secp_ok_def demo_crypto_def split: if_splits)

end
