(* ===== verification/Strconv.thy ===== *)
theory Strconv
  imports Prelude
begin

text \<open>
  The number/text conversions of the C++ standard library that the sources call:
  \<open>std::to_string\<close> on unsigned integers, and \<open>std::stoul\<close> (base 16),
  \<open>std::stoull\<close> and \<open>std::stoi\<close> (base 10) with their real grammar: leading white
  space, an optional sign, an optional \<open>0x\<close> in base 16, the longest run of digits,
  and everything after it ignored. \<open>invalid_argument\<close> is thrown when there is no
  digit, \<open>out_of_range\<close> when the value does not fit.
\<close>

section \<open>Characters\<close>

definition code_of :: "char \<Rightarrow> nat" where
  "code_of c = of_char c"

lemma code_of_literal [simp]:
  "code_of (Char a b c d e f g h) = of_char (Char a b c d e f g h)"
  by (simp only: code_of_def)

definition is_space :: "char \<Rightarrow> bool" where
  "is_space c \<longleftrightarrow> code_of c = 32 \<or> (9 \<le> code_of c \<and> code_of c \<le> 13)"

definition ascii :: "string \<Rightarrow> bool" where
  "ascii s \<longleftrightarrow> list_all (\<lambda>c. code_of c < 128) s"

lemma ascii_simps [simp]:
  "ascii []"
  "ascii (c # s) \<longleftrightarrow> code_of c < 128 \<and> ascii s"
  "ascii (s @ t) \<longleftrightarrow> ascii s \<and> ascii t"
  by (simp_all add: ascii_def)

definition digit_char :: "nat \<Rightarrow> char" where
  "digit_char d = char_of (if d < 10 then 48 + d else 87 + d)"

definition digit_value :: "nat \<Rightarrow> char \<Rightarrow> nat option" where
  "digit_value base c =
     (let n = code_of c;
          v = (if 48 \<le> n \<and> n \<le> 57 then n - 48
               else if 97 \<le> n \<and> n \<le> 122 then n - 87
               else if 65 \<le> n \<and> n \<le> 90 then n - 55
               else 36)
      in if v < base then Some v else None)"

definition is_digit :: "nat \<Rightarrow> char \<Rightarrow> bool" where
  "is_digit base c \<longleftrightarrow> digit_value base c \<noteq> None"

lemma code_of_char_of [simp]: "n < 256 \<Longrightarrow> code_of (char_of n) = n"
  by (simp add: code_of_def)

lemma code_of_digit_char: "d < 36 \<Longrightarrow> code_of (digit_char d) = (if d < 10 then 48 + d else 87 + d)"
  by (simp add: digit_char_def)

lemma digit_value_digit_char [simp]:
  "d < base \<Longrightarrow> base \<le> 36 \<Longrightarrow> digit_value base (digit_char d) = Some d"
  by (simp add: digit_value_def code_of_digit_char Let_def)

lemma is_digit_digit_char [simp]: "d < base \<Longrightarrow> base \<le> 36 \<Longrightarrow> is_digit base (digit_char d)"
  by (simp add: is_digit_def)

lemma is_space_digit_char [simp]: "d < 36 \<Longrightarrow> \<not> is_space (digit_char d)"
  by (simp add: is_space_def code_of_digit_char)

lemma digit_char_neq:
  "d < 36 \<Longrightarrow> digit_char d \<noteq> CHR ''-''"
  "d < 36 \<Longrightarrow> digit_char d \<noteq> CHR ''+''"
  "d < 16 \<Longrightarrow> digit_char d \<noteq> CHR ''x''"
  "d < 16 \<Longrightarrow> digit_char d \<noteq> CHR ''X''"
  by (auto simp: code_of_def dest!: arg_cong [where f = code_of])
     (simp_all add: digit_char_def split: if_splits)

section \<open>Printing\<close>

fun to_string_nat :: "nat \<Rightarrow> string" where
  "to_string_nat n =
     (if n < 10 then [digit_char n] else to_string_nat (n div 10) @ [digit_char (n mod 10)])"

declare to_string_nat.simps [simp del]

definition to_string :: "u64 \<Rightarrow> string" where
  "to_string w = to_string_nat (unat w)"

section \<open>Parsing\<close>

definition digit_or_0 :: "nat \<Rightarrow> char \<Rightarrow> nat" where
  "digit_or_0 base c = (case digit_value base c of Some v \<Rightarrow> v | None \<Rightarrow> 0)"

definition digits_value :: "nat \<Rightarrow> string \<Rightarrow> nat" where
  "digits_value base ds = foldl (\<lambda>a c. a * base + digit_or_0 base c) 0 ds"

fun scan_sign :: "string \<Rightarrow> bool \<times> string" where
  "scan_sign [] = (False, [])"
| "scan_sign (c # s) =
     (if c = CHR ''-'' then (True, s) else if c = CHR ''+'' then (False, s) else (False, c # s))"

fun skip_0x :: "nat \<Rightarrow> string \<Rightarrow> string" where
  "skip_0x base (a # b # c # s) =
     (if base = 16 \<and> a = CHR ''0'' \<and> (b = CHR ''x'' \<or> b = CHR ''X'') \<and> is_digit 16 c
      then c # s else a # b # c # s)"
| "skip_0x base s = s"

text \<open>\<open>strtoul\<close>/\<open>strtoull\<close>/\<open>strtol\<close>: the sign and the magnitude, or no conversion.\<close>

definition strto :: "nat \<Rightarrow> string \<Rightarrow> (bool \<times> nat) option" where
  "strto base s =
     (let (neg, s1) = scan_sign (dropWhile is_space s);
          ds = takeWhile (is_digit base) (skip_0x base s1)
      in if ds = [] then None else Some (neg, digits_value base ds))"

definition to_unsigned :: "string \<Rightarrow> (bool \<times> nat) option \<Rightarrow> u64 result" where
  "to_unsigned fn r =
     (case r of None \<Rightarrow> Inl (InvalidArgument fn)
      | Some (neg, v) \<Rightarrow>
          if 2 ^ 64 \<le> v then Inl (OutOfRange fn)
          else Inr (if neg then - word_of_nat v else word_of_nat v))"

definition stoul16 :: "string \<Rightarrow> u64 result" where
  "stoul16 s = to_unsigned ''stoul'' (strto 16 s)"

definition stoull :: "string \<Rightarrow> u64 result" where
  "stoull s = to_unsigned ''stoull'' (strto 10 s)"

definition stoi :: "string \<Rightarrow> int result" where
  "stoi s =
     (case strto 10 s of None \<Rightarrow> Inl (InvalidArgument ''stoi'')
      | Some (neg, v) \<Rightarrow>
          let i = (if neg then - int v else int v)
          in if - (2 ^ 31) \<le> i \<and> i < 2 ^ 31 then Inr i else Inl (OutOfRange ''stoi''))"

section \<open>Round trip\<close>

lemma digits_value_Nil [simp]: "digits_value b [] = 0"
  by (simp add: digits_value_def)

lemma digits_value_snoc [simp]:
  "digits_value b (ds @ [c]) = digits_value b ds * b + digit_or_0 b c"
  by (simp add: digits_value_def)

lemma digit_or_0_digit_char [simp]:
  "d < base \<Longrightarrow> base \<le> 36 \<Longrightarrow> digit_or_0 base (digit_char d) = d"
  by (simp add: digit_or_0_def)

lemma to_string_nat_induct [case_names small step]:
  fixes n :: nat
  assumes "\<And>n. n < 10 \<Longrightarrow> P n" and "\<And>n. 10 \<le> n \<Longrightarrow> P (n div 10) \<Longrightarrow> P n"
  shows "P n"
proof (induction n rule: less_induct)
  case (less n)
  show ?case
    using assms less.IH [of "n div 10"] by (cases "n < 10") auto
qed

lemma to_string_nat_small [simp]: "n < 10 \<Longrightarrow> to_string_nat n = [digit_char n]"
  by (simp add: to_string_nat.simps)

lemma to_string_nat_step:
  "10 \<le> n \<Longrightarrow> to_string_nat n = to_string_nat (n div 10) @ [digit_char (n mod 10)]"
  by (subst to_string_nat.simps) simp

lemma to_string_nat_all_digits: "list_all (is_digit 10) (to_string_nat n)"
  by (induction n rule: to_string_nat_induct) (simp_all add: to_string_nat_step)

lemma to_string_nat_nonempty [simp]: "to_string_nat n \<noteq> []"
  by (subst to_string_nat.simps) simp

lemma digits_value_to_string_nat [simp]: "digits_value 10 (to_string_nat n) = n"
proof (induction n rule: to_string_nat_induct)
  case (small n)
  then show ?case using digits_value_snoc [of 10 "[]" "digit_char n"] by simp
next
  case (step n)
  then show ?case by (simp add: to_string_nat_step)
qed

lemma to_string_nat_inject [simp]: "to_string_nat m = to_string_nat n \<longleftrightarrow> m = n"
  by (metis digits_value_to_string_nat)

lemma is_digit_not_space: "is_digit b c \<Longrightarrow> b \<le> 36 \<Longrightarrow> \<not> is_space c"
  by (auto simp: is_digit_def is_space_def digit_value_def Let_def split: if_splits)

lemma is_digit_not_sign:
  "is_digit b c \<Longrightarrow> b \<le> 36 \<Longrightarrow> c \<noteq> CHR ''-'' \<and> c \<noteq> CHR ''+''"
  by (auto simp: is_digit_def digit_value_def code_of_def)

lemma skip_0x_other [simp]: "base \<noteq> 16 \<Longrightarrow> skip_0x base s = s"
  by (induction base s rule: skip_0x.induct) auto

lemma strto_digits:
  assumes "ds \<noteq> []" and "list_all (is_digit 10) ds" and "rest = [] \<or> \<not> is_digit 10 (hd rest)"
  shows "strto 10 (ds @ rest) = Some (False, digits_value 10 ds)"
proof -
  obtain c cs where ds: "ds = c # cs"
    using assms(1) by (cases ds) auto
  then have c: "is_digit 10 c"
    using assms(2) by simp
  have "takeWhile (is_digit 10) (ds @ rest) = ds"
    using assms(2,3) by (cases rest) (auto simp: takeWhile_append list_all_iff)
  then show ?thesis
    using c assms(1) is_digit_not_space [OF c] is_digit_not_sign [OF c]
    by (simp add: strto_def ds)
qed

lemma strto_to_string_nat [simp]:
  "rest = [] \<or> \<not> is_digit 10 (hd rest) \<Longrightarrow> strto 10 (to_string_nat n @ rest) = Some (False, n)"
  by (subst strto_digits) (simp_all add: to_string_nat_all_digits)

lemma strto_to_string_nat_Nil [simp]: "strto 10 (to_string_nat n) = Some (False, n)"
  using strto_to_string_nat [of "[]" n] by simp

lemma stoull_to_string: "stoull (to_string w) = Inr w"
proof -
  have "unat w < 2 ^ 64"
    using unsigned_less [of w, where ?'a = nat] by simp
  then show ?thesis
    by (simp add: stoull_def to_unsigned_def to_string_def)
qed

interpretation decimal: codec to_string stoull "\<lambda>_. True"
  by unfold_locales (rule stoull_to_string)

lemma to_string_inject [simp]: "to_string v = to_string w \<longleftrightarrow> v = w"
  by (rule decimal.enc_inject) simp_all

lemma to_string_nonempty [simp]: "to_string w \<noteq> []"
  by (simp add: to_string_def)

lemma is_digit_ascii: "is_digit b c \<Longrightarrow> b \<le> 36 \<Longrightarrow> code_of c < 128"
  by (auto simp: is_digit_def digit_value_def Let_def split: if_splits)

lemma ascii_digits: "list_all (is_digit 10) s \<Longrightarrow> ascii s"
  by (induction s) (auto dest: is_digit_ascii)

lemma ascii_to_string [simp]: "ascii (to_string w)"
  by (simp add: to_string_def ascii_digits to_string_nat_all_digits)

text \<open>The number of digits grows with the value.\<close>

lemma to_string_nat_length_bound: "n < 10 ^ k \<Longrightarrow> 0 < k \<Longrightarrow> length (to_string_nat n) \<le> k"
proof (induction n arbitrary: k rule: to_string_nat_induct)
  case (small n)
  then show ?case by simp
next
  case (step n)
  obtain k' where k: "k = Suc k'"
    using step.prems by (cases k) auto
  then have "n div 10 < 10 ^ k'"
    using step.prems by (auto simp: less_mult_imp_div_less mult.commute)
  moreover have "0 < k'"
    using step.hyps step.prems k by (cases k') auto
  ultimately have "length (to_string_nat (n div 10)) \<le> k'"
    by (rule step.IH)
  then show ?case
    using step.hyps k by (simp add: to_string_nat_step)
qed

end
