(* ===== verification/Hashing.thy ===== *)
theory Hashing
  imports Crypto_Api Strconv
begin

text \<open>
  \<open>crypto/hash.hpp\<close> and \<open>crypto/hash.cpp\<close>: SHA-256 over the EVP calls, and the
  hexadecimal codec. \<open>sha256\<close> keeps every failure branch of the EVP pipeline. The
  components above use \<open>digest\<close>, the value \<open>sha256\<close> returns; that it returns one, which is so when
  OpenSSL succeeds (\<open>sha256_succeeds\<close>), is an assumption of the theorems about them (\<open>evp_ok\<close>, part
  of \<open>crypto_ok\<close>): like an allocation failure, an exception of the EVP calls is not carried further
  than this theory.
\<close>

section \<open>SHA-256\<close>

definition sha256 :: "crypto_api \<Rightarrow> bytes \<Rightarrow> hash32 result" where
  "sha256 C d =
     (if \<not> evp_ctx_new C then Inl (RuntimeError ''Failed to create EVP_MD_CTX'')
      else if \<not> evp_init C then Inl (RuntimeError ''EVP_DigestInit_ex failed'')
      else if \<not> evp_update C d then Inl (RuntimeError ''EVP_DigestUpdate failed'')
      else case evp_final C d of
             None \<Rightarrow> Inl (RuntimeError ''EVP_DigestFinal_ex failed'')
           | Some (h, len) \<Rightarrow>
               if len \<noteq> 32 then Inl (RuntimeError ''SHA-256 produced unexpected length'')
               else Inr h)"

definition sha256_string :: "crypto_api \<Rightarrow> string \<Rightarrow> hash32 result" where
  "sha256_string C s = sha256 C (string_bytes s)"

definition doubleSha256 :: "crypto_api \<Rightarrow> bytes \<Rightarrow> hash32 result" where
  "doubleSha256 C d = bind_e (sha256 C d) (\<lambda>h. sha256 C h)"

text \<open>The value, where there is one.\<close>

definition digest :: "crypto_api \<Rightarrow> bytes \<Rightarrow> hash32" where
  "digest C d = (case sha256 C d of Inl _ \<Rightarrow> [] | Inr h \<Rightarrow> h)"

definition digest_string :: "crypto_api \<Rightarrow> string \<Rightarrow> hash32" where
  "digest_string C s = digest C (string_bytes s)"

lemma evp_okE:
  assumes "evp_ok C"
  obtains h where "evp_final C d = Some (h, 32)" and "length h = 32"
  using assms unfolding evp_ok_def by blast

lemma sha256_succeeds: "evp_ok C \<Longrightarrow> sha256 C d = Inr (digest C d)"
  by (rule evp_okE [of C d]) (simp_all add: sha256_def digest_def evp_ok_def)

lemma sha256_string_succeeds: "evp_ok C \<Longrightarrow> sha256_string C s = Inr (digest_string C s)"
  by (simp add: sha256_string_def digest_string_def sha256_succeeds)

lemma doubleSha256_succeeds: "evp_ok C \<Longrightarrow> doubleSha256 C d = Inr (digest C (digest C d))"
  by (simp add: doubleSha256_def sha256_succeeds)

lemma sha256_length: "evp_ok C \<Longrightarrow> sha256 C d = Inr h \<Longrightarrow> length h = 32"
  by (rule evp_okE [of C d]) (auto simp: sha256_def split: if_splits)

lemma length_digest [size_simps]: "evp_ok C \<Longrightarrow> length (digest C d) = 32"
  using sha256_length [of C d] by (simp add: sha256_succeeds)

lemma length_digest_string [size_simps]: "evp_ok C \<Longrightarrow> length (digest_string C s) = 32"
  by (simp add: digest_string_def size_simps)

section \<open>Hexadecimal text\<close>

definition hexChars :: string where
  "hexChars = ''0123456789abcdef''"

definition hex_byte :: "byte \<Rightarrow> string" where
  "hex_byte b = [hexChars ! unat (drop_bit 4 b AND 0x0F), hexChars ! unat (b AND 0x0F)]"

definition toHex :: "bytes \<Rightarrow> string" where
  "toHex d = concat (map hex_byte d)"

text \<open>The template over \<open>std::array<uint8_t, N>\<close> runs the same loop over its \<open>N\<close> bytes.\<close>

definition toHex_array :: "bytes \<Rightarrow> string" where
  "toHex_array d = concat (map hex_byte d)"

text \<open>
  The loop of \<open>fromHex\<close>: two characters at a time through \<open>std::stoul(.., 16)\<close>; an
  exception of \<open>stoul\<close> leaves the loop with \<open>None\<close>, which the caller turns into the
  empty vector.
\<close>

fun fromHex_loop :: "string \<Rightarrow> bytes option" where
  "fromHex_loop [] = Some []"
| "fromHex_loop [a] =
     (case stoul16 [a] of Inl e \<Rightarrow> None | Inr w \<Rightarrow> Some [ucast w])"
| "fromHex_loop (a # b # s) =
     (case stoul16 [a, b] of Inl e \<Rightarrow> None
      | Inr w \<Rightarrow> (case fromHex_loop s of None \<Rightarrow> None | Some bs \<Rightarrow> Some (ucast w # bs)))"

definition fromHex :: "string \<Rightarrow> bytes" where
  "fromHex hex =
     (if length hex mod 2 \<noteq> 0 then []
      else case fromHex_loop hex of None \<Rightarrow> [] | Some bs \<Rightarrow> bs)"

definition fromHexFixed :: "nat \<Rightarrow> string \<Rightarrow> bytes result" where
  "fromHexFixed n hex =
     (let bs = fromHex hex
      in if length bs \<noteq> n
         then Inl (InvalidArgument (''fromHexFixed: expected '' @ to_string_nat n @
                    '' bytes, got '' @ to_string_nat (length bs)))
         else Inr bs)"

section \<open>Facts about the codec\<close>

lemma nibbles:
  fixes b :: byte
  shows "unat (drop_bit 4 b AND 0x0F) = unat b div 16" "unat (b AND 0x0F) = unat b mod 16"
proof -
  have mask: "x AND 0x0F = take_bit 4 x" for x :: byte
    by (simp add: take_bit_eq_mask mask_eq_exp_minus_1)
  have bound: "unat b div 16 < 16"
    using unsigned_less [of b, where ?'a = nat] by simp
  have low: "unat (x AND 0x0F) = unat x mod 16" for x :: byte
  proof -
    have "unat (x AND 0x0F) = take_bit 4 (unat x)"
      by (simp only: mask unsigned_take_bit_eq)
    then show ?thesis by (simp add: take_bit_eq_mod)
  qed
  show "unat (b AND 0x0F) = unat b mod 16"
    by (rule low)
  have "unat (drop_bit 4 b) = unat b div 16"
    by (simp add: drop_bit_eq_div unat_div_distrib)
  with bound show "unat (drop_bit 4 b AND 0x0F) = unat b div 16"
    by (simp only: low) simp
qed

lemma hexChars_nth: "n < 16 \<Longrightarrow> hexChars ! n = digit_char n"
proof -
  have "\<forall>n\<in>set [0..<16]. hexChars ! n = digit_char n"
    by (simp add: hexChars_def digit_char_def upt_rec char_of_def bit_iff_odd)
  then show "n < 16 \<Longrightarrow> hexChars ! n = digit_char n" by simp
qed

lemma hex_byte_cases:
  obtains h l where "h < 16" and "l < 16" and "unat b = h * 16 + l"
    and "hex_byte b = [digit_char h, digit_char l]"
proof
  show "unat b div 16 < 16"
    using unsigned_less [of b, where ?'a = nat] by simp
  then show "hex_byte b = [digit_char (unat b div 16), digit_char (unat b mod 16)]"
    by (simp only: hex_byte_def nibbles(1)) (simp only: nibbles(2), simp add: hexChars_nth)
qed simp_all

lemma stoul16_digits:
  assumes "h < 16" and "l < 16"
  shows "stoul16 [digit_char h, digit_char l] = Inr (word_of_nat (h * 16 + l))"
proof -
  have "is_digit 16 (digit_char h)" "is_digit 16 (digit_char l)"
    using assms by simp_all
  moreover have "digits_value 16 [digit_char h, digit_char l] = h * 16 + l"
    using assms by (simp add: digits_value_def)
  ultimately show ?thesis
    using assms by (simp add: stoul16_def strto_def to_unsigned_def digit_char_neq)
qed

lemma fromHex_loop_toHex: "fromHex_loop (toHex bs) = Some bs"
proof (induction bs)
  case Nil
  then show ?case by (simp add: toHex_def)
next
  case (Cons b bs)
  obtain h l where hl: "h < 16" "l < 16" "unat b = h * 16 + l"
      "hex_byte b = [digit_char h, digit_char l]"
    by (rule hex_byte_cases)
  have "ucast (word_of_nat (unat b) :: u64) = b"
    by (simp add: ucast_up_ucast_id is_up)
  then have "ucast (word_of_nat (h * 16 + l) :: u64) = b"
    by (simp only: hl(3))
  with Cons hl show ?case
    by (simp add: toHex_def stoul16_digits)
qed

lemma toHex_array_eq [simp]: "toHex_array = toHex"
  by (simp add: fun_eq_iff toHex_array_def toHex_def)

lemma toHex_length [simp]: "length (toHex bs) = 2 * length bs"
  by (induction bs) (simp_all add: toHex_def hex_byte_def)

lemma fromHex_toHex [simp]: "fromHex (toHex bs) = bs"
  by (simp add: fromHex_def fromHex_loop_toHex)

interpretation hex: codec toHex "\<lambda>s. Inr (fromHex s)" "\<lambda>_. True"
  by unfold_locales simp

lemma toHex_inject [simp]: "toHex a = toHex b \<longleftrightarrow> a = b"
  by (rule hex.enc_inject) simp_all

lemma fromHexFixed_toHex [simp]: "length bs = n \<Longrightarrow> fromHexFixed n (toHex bs) = Inr bs"
  by (simp add: fromHexFixed_def)

lemma fromHexFixed_length: "fromHexFixed n s = Inr bs \<Longrightarrow> length bs = n"
  by (auto simp: fromHexFixed_def Let_def split: if_splits)

lemma ascii_toHex [simp]: "ascii (toHex bs)"
proof (induction bs)
  case (Cons b bs)
  obtain h l where "h < 16" "l < 16" "hex_byte b = [digit_char h, digit_char l]"
    by (rule hex_byte_cases)
  with Cons show ?case
    by (simp add: toHex_def code_of_digit_char)
qed (simp add: toHex_def)

lemma fromHex_loop_length: "fromHex_loop s = Some bs \<Longrightarrow> length s \<le> 2 * length bs \<and> 2 * length bs \<le> Suc (length s)"
  by (induction s arbitrary: bs rule: fromHex_loop.induct) (auto split: sum.splits option.splits)

lemma fromHex_length: "fromHex s = [] \<or> 2 * length (fromHex s) = length s"
  by (auto simp: fromHex_def split: option.splits dest!: fromHex_loop_length)

lemma toHex_digits: "c \<in> set (toHex bs) \<Longrightarrow> \<exists>d<16. c = digit_char d"
proof (induction bs)
  case (Cons b bs)
  obtain h l where "h < 16" "l < 16" "hex_byte b = [digit_char h, digit_char l]"
    by (rule hex_byte_cases)
  with Cons show ?case by (auto simp: toHex_def)
qed (simp add: toHex_def)

lemma toHex_printable:
  assumes "c \<in> set (toHex bs)"
  shows "c \<noteq> CHR ''\<newline>'' \<and> \<not> is_space c"
proof -
  obtain d where "d < 16" "c = digit_char d" using toHex_digits [OF assms] by blast
  then have "\<not> is_space c" by simp
  then show ?thesis by (auto simp: is_space_def)
qed

text \<open>What \<open>stoul\<close> skips or stops at is accepted: a blank, a sign, a wrong second digit.\<close>

lemma fromHex_lenient: "fromHex ''1g'' = [1]" "fromHex '' a'' = [10]" "fromHex ''+f'' = [15]"
  by (simp_all add: fromHex_def stoul16_def strto_def to_unsigned_def is_space_def is_digit_def
      digit_value_def code_of_def digits_value_def digit_or_0_def)

end
