(* ===== verification/Keys.thy ===== *)
theory Keys
  imports Hashing
begin

text \<open>
  \<open>crypto/keys.hpp\<close>, \<open>crypto/keys.cpp\<close> and \<open>crypto/key_io.cpp\<close>: key pairs, address
  derivation, ECDSA signing and verification over the libsecp256k1 calls, and the text of
  a key file. \<open>generateKeyPair\<close> draws from \<open>RAND_bytes\<close> (call number \<open>k\<close> returns
  \<open>rand_bytes C k\<close>) until the key is valid; the loop may run for ever, so it is an option.
\<close>

record key_pair =
  privateKey :: private_key
  publicKey :: public_key

section \<open>Derivation\<close>

definition derivePublicKey :: "crypto_api \<Rightarrow> private_key \<Rightarrow> public_key result" where
  "derivePublicKey C sk =
     (case pubkey_create C sk of
        None \<Rightarrow> Inl (RuntimeError ''Failed to derive public key (invalid private key?)'')
      | Some pk \<Rightarrow>
          (case pubkey_serialize C pk of
             None \<Rightarrow> Inl (RuntimeError ''Failed to serialize public key'')
           | Some r \<Rightarrow> Inr r))"

definition deriveAddress :: "crypto_api \<Rightarrow> public_key \<Rightarrow> address" where
  "deriveAddress C pk = drop 12 (digest C pk)"

section \<open>Generation\<close>

partial_function (option) regenerate ::
  "crypto_api \<Rightarrow> nat \<Rightarrow> private_key \<Rightarrow> private_key result option" where
  "regenerate C k sk =
     (if seckey_verify C sk then Some (Inr sk)
      else case rand_bytes C k of
             None \<Rightarrow> Some (Inl (RuntimeError ''RAND_bytes failed during key regeneration''))
           | Some sk' \<Rightarrow> regenerate C (Suc k) sk')"

definition generateKeyPair :: "crypto_api \<Rightarrow> nat \<Rightarrow> key_pair result option" where
  "generateKeyPair C k =
     (case rand_bytes C k of
        None \<Rightarrow> Some (Inl (RuntimeError ''RAND_bytes failed to generate random bytes''))
      | Some sk0 \<Rightarrow>
          (case regenerate C (Suc k) sk0 of
             None \<Rightarrow> None
           | Some r \<Rightarrow> Some (bind_e r (\<lambda>sk. bind_e (derivePublicKey C sk)
                        (\<lambda>pk. Inr \<lparr>privateKey = sk, publicKey = pk\<rparr>)))))"

section \<open>Signatures\<close>

definition sign :: "crypto_api \<Rightarrow> hash32 \<Rightarrow> private_key \<Rightarrow> signature_bytes result" where
  "sign C messageHash sk =
     (case ecdsa_sign C messageHash sk of
        None \<Rightarrow> Inl (RuntimeError ''ECDSA signing failed'')
      | Some sg \<Rightarrow> Inr (sig_serialize C sg))"

definition verify :: "crypto_api \<Rightarrow> hash32 \<Rightarrow> signature_bytes \<Rightarrow> public_key \<Rightarrow> bool" where
  "verify C messageHash signature pk =
     (if length signature \<noteq> 64 then False
      else case sig_parse C signature of
             None \<Rightarrow> False
           | Some sg \<Rightarrow>
               (case pubkey_parse C pk of
                  None \<Rightarrow> False
                | Some p \<Rightarrow> ecdsa_verify C sg messageHash p))"

section \<open>Key files\<close>

text \<open>
  The text \<open>savePrivateKey\<close> writes, and what \<open>loadPrivateKey\<close> makes of a file's content
  (\<open>None\<close> when the file cannot be opened): the first line, without white space.
\<close>

definition savePrivateKey_text :: "private_key \<Rightarrow> string" where
  "savePrivateKey_text key = toHex_array key @ ''\<newline>''"

definition getline :: "string \<Rightarrow> string" where
  "getline s = takeWhile (\<lambda>c. c \<noteq> CHR ''\<newline>'') s"

definition loadPrivateKey :: "string option \<Rightarrow> string \<Rightarrow> private_key result" where
  "loadPrivateKey file path =
     (case file of
        None \<Rightarrow> Inl (RuntimeError (''Failed to open key file: '' @ path))
      | Some content \<Rightarrow>
          let hexLine = filter (\<lambda>c. \<not> is_space c) (getline content)
          in if hexLine = [] then Inl (RuntimeError (''Key file is empty: '' @ path))
             else fromHexFixed 32 hexLine)"

section \<open>Facts\<close>

text \<open>A key pair whose public half is the one the code derives from the private half.\<close>

definition key_pair_ok :: "crypto_api \<Rightarrow> key_pair \<Rightarrow> bool" where
  "key_pair_ok C kp \<longleftrightarrow>
     seckey_verify C (privateKey kp) \<and> derivePublicKey C (privateKey kp) = Inr (publicKey kp)"

lemma length_deriveAddress [size_simps]: "evp_ok C \<Longrightarrow> length (deriveAddress C pk) = 20"
  by (simp add: deriveAddress_def size_simps)

lemma derivePublicKey_Inr:
  assumes "secp_ok C" and "derivePublicKey C sk = Inr pk"
  obtains p where "pubkey_create C sk = Some p" and "pubkey_serialize C p = Some pk"
    and "pubkey_parse C pk = Some p" and "length pk = 33"
proof -
  obtain p where p: "pubkey_create C sk = Some p" "pubkey_serialize C p = Some pk"
    using assms(2) by (auto simp: derivePublicKey_def split: option.splits)
  then obtain ser where "pubkey_serialize C p = Some ser" "length ser = 33" "pubkey_parse C ser = Some p"
    using assms(1) unfolding secp_ok_def by blast
  with p show ?thesis by (intro that) auto
qed

lemma length_publicKey: "secp_ok C \<Longrightarrow> key_pair_ok C kp \<Longrightarrow> length (publicKey kp) = 33"
  by (auto simp: key_pair_ok_def elim: derivePublicKey_Inr)

lemma sign_Inr:
  assumes "secp_ok C" and "sign C m sk = Inr s"
  obtains sg where "ecdsa_sign C m sk = Some sg" and "sig_parse C s = Some sg" and "length s = 64"
  using assms unfolding sign_def secp_ok_def by (auto split: option.splits)

lemma sign_total: "secp_ok C \<Longrightarrow> seckey_verify C sk \<Longrightarrow> length m = 32 \<Longrightarrow> \<exists>s. sign C m sk = Inr s"
  by (auto simp: sign_def secp_ok_def split: option.splits)

lemma verify_sign:
  assumes "secp_ok C" and "derivePublicKey C sk = Inr pk" and "sign C m sk = Inr s"
  shows "verify C m s pk"
proof -
  obtain p where p: "pubkey_create C sk = Some p" "pubkey_parse C pk = Some p"
    using assms(1,2) by (rule derivePublicKey_Inr)
  obtain sg where sg: "ecdsa_sign C m sk = Some sg" "sig_parse C s = Some sg" "length s = 64"
    using assms(1,3) by (rule sign_Inr)
  have "ecdsa_verify C sg m p"
    using assms(1) p sg unfolding secp_ok_def by blast
  with p sg show ?thesis by (simp add: verify_def)
qed

lemma verify_length: "verify C m s pk \<Longrightarrow> length s = 64"
  by (auto simp: verify_def split: if_splits)

text \<open>The generation loop stops as soon as one of the draws is a valid key.\<close>

lemma regenerate_valid [simp]: "seckey_verify C sk \<Longrightarrow> regenerate C k sk = Some (Inr sk)"
  by (subst regenerate.simps) simp

lemma regenerate_step:
  "\<not> seckey_verify C sk \<Longrightarrow> rand_bytes C k = Some sk' \<Longrightarrow> regenerate C k sk = regenerate C (Suc k) sk'"
  by (subst regenerate.simps) simp

lemma regenerate_stops:
  assumes "\<forall>i<n. \<exists>s. rand_bytes C (k + i) = Some s"
    and "n = 0 \<longrightarrow> seckey_verify C sk"
    and "0 < n \<longrightarrow> (\<exists>s. rand_bytes C (k + (n - 1)) = Some s \<and> seckey_verify C s)"
  shows "\<exists>s. regenerate C k sk = Some (Inr s) \<and> seckey_verify C s"
  using assms
proof (induction n arbitrary: k sk)
  case 0
  then show ?case by auto
next
  case (Suc n)
  show ?case
  proof (cases "seckey_verify C sk")
    case False
    obtain s where s: "rand_bytes C k = Some s"
      using Suc.prems(1) by force
    have "\<exists>s'. regenerate C (Suc k) s = Some (Inr s') \<and> seckey_verify C s'"
    proof (rule Suc.IH)
      show "\<forall>i<n. \<exists>s. rand_bytes C (Suc k + i) = Some s"
        using Suc.prems(1) by force
      show "n = 0 \<longrightarrow> seckey_verify C s"
        using Suc.prems(3) s by auto
      show "0 < n \<longrightarrow> (\<exists>s. rand_bytes C (Suc k + (n - 1)) = Some s \<and> seckey_verify C s)"
        using Suc.prems(3) by auto
    qed
    with False s show ?thesis by (simp add: regenerate_step)
  qed auto
qed

lemma regenerate_result:
  assumes "regenerate C k sk = Some (Inr s)"
  shows "seckey_verify C s"
proof -
  have "\<forall>t. r = Inr t \<longrightarrow> seckey_verify C t" if "regenerate C k sk = Some r" for r
    by (rule regenerate.raw_induct [OF _ that]) (fastforce split: if_splits option.splits)
  with assms show ?thesis by blast
qed

lemma loadPrivateKey_saved:
  assumes "length key = 32"
  shows "loadPrivateKey (Some (savePrivateKey_text key)) path = Inr key"
proof -
  have digits: "c \<in> set (toHex key) \<Longrightarrow> c \<noteq> CHR ''\<newline>'' \<and> \<not> is_space c" for c
    using toHex_printable by blast
  have line: "takeWhile (\<lambda>c. c \<noteq> CHR ''\<newline>'') (toHex key @ ''\<newline>'') = toHex key"
    using digits by (subst takeWhile_append2) auto
  have "filter (\<lambda>c. \<not> is_space c) (toHex key) = toHex key"
    using digits by (simp add: filter_id_conv)
  moreover have "toHex key \<noteq> []" using assms toHex_length [of key] by force
  ultimately show ?thesis
    using assms line
    by (simp add: loadPrivateKey_def savePrivateKey_text_def getline_def Let_def toHex_array_eq)
qed

end
