(* ===== verification/Json_Api.thy ===== *)
theory Json_Api
  imports Strconv
begin

text \<open>
  \<open>nlohmann::json\<close> is a third-party library: its value type is a type variable
  \<open>'j\<close> and its operations are the fields of a record the definitions take as an argument.
  \<open>j_text\<close> is the text \<open>dump()\<close> produces; \<open>dump()\<close> throws when a string is not
  valid UTF-8 (\<open>j_dump\<close>). \<open>json_ok\<close> collects the documented behaviour the sources
  rely on: accessors undo constructors, and \<open>parse\<close> undoes \<open>dump\<close> on values built from
  null, unsigned and negative numbers, booleans, ASCII strings, arrays and objects with
  distinct keys (\<open>json_plain\<close>). \<open>j_read\<close> is the stream extraction \<open>file >> j\<close>, which stops after
  the first value; it undoes the indented dump.
\<close>

record 'j json_api =
  j_null :: 'j
  j_uint :: "u64 \<Rightarrow> 'j"
  j_int :: "int \<Rightarrow> 'j"
  j_bool :: "bool \<Rightarrow> 'j"
  j_string :: "string \<Rightarrow> 'j"
  j_array :: "'j list \<Rightarrow> 'j"
  j_object :: "(string \<times> 'j) list \<Rightarrow> 'j"
  j_is_null :: "'j \<Rightarrow> bool"
  j_is_string :: "'j \<Rightarrow> bool"
  j_is_object :: "'j \<Rightarrow> bool"
  j_is_uint :: "'j \<Rightarrow> bool"
  j_contains :: "'j \<Rightarrow> string \<Rightarrow> bool"
  j_at :: "'j \<Rightarrow> string \<Rightarrow> 'j result"
  j_index :: "'j \<Rightarrow> string \<Rightarrow> 'j result"
  j_value :: "'j \<Rightarrow> string \<Rightarrow> 'j \<Rightarrow> 'j result"
  j_get_uint :: "'j \<Rightarrow> u64 result"
  j_get_int :: "'j \<Rightarrow> int result"
  j_get_string :: "'j \<Rightarrow> string result"
  j_elems :: "'j \<Rightarrow> 'j list"
  j_utf8 :: "'j \<Rightarrow> bool"
  j_text :: "'j \<Rightarrow> string"
  j_text_indent :: "nat \<Rightarrow> 'j \<Rightarrow> string"
  j_parse :: "string \<Rightarrow> 'j result"
  j_read :: "string \<Rightarrow> 'j result"

definition j_dump :: "'j json_api \<Rightarrow> 'j \<Rightarrow> string result" where
  "j_dump J j = (if j_utf8 J j then Inr (j_text J j) else Inl (JsonError ''type_error.316''))"

text \<open>\<open>j.at(key).get<uint64_t>()\<close> and \<open>j.at(key).get<std::string>()\<close>.\<close>

definition at_uint :: "'j json_api \<Rightarrow> 'j \<Rightarrow> string \<Rightarrow> u64 result" where
  "at_uint J j k = bind_e (j_at J j k) (j_get_uint J)"

definition at_string :: "'j json_api \<Rightarrow> 'j \<Rightarrow> string \<Rightarrow> string result" where
  "at_string J j k = bind_e (j_at J j k) (j_get_string J)"

section \<open>Documented behaviour\<close>

inductive json_plain :: "'j json_api \<Rightarrow> 'j \<Rightarrow> bool" for J where
  plain_null: "json_plain J (j_null J)"
| plain_uint: "json_plain J (j_uint J n)"
| plain_int: "- (2 ^ 31) \<le> i \<Longrightarrow> i < 0 \<Longrightarrow> json_plain J (j_int J i)"
| plain_bool: "json_plain J (j_bool J b)"
| plain_string: "ascii s \<Longrightarrow> json_plain J (j_string J s)"
| plain_array: "(\<And>j. j \<in> set js \<Longrightarrow> json_plain J j) \<Longrightarrow> json_plain J (j_array J js)"
| plain_object: "distinct (map fst kvs) \<Longrightarrow> (\<And>k. k \<in> fst ` set kvs \<Longrightarrow> ascii k) \<Longrightarrow>
    (\<And>j. j \<in> snd ` set kvs \<Longrightarrow> json_plain J j) \<Longrightarrow> json_plain J (j_object J kvs)"

definition json_object_ok :: "'j json_api \<Rightarrow> bool" where
  "json_object_ok J \<longleftrightarrow>
     (\<forall>kvs k. distinct (map fst kvs) \<longrightarrow>
        (\<forall>v. map_of kvs k = Some v \<longrightarrow> j_at J (j_object J kvs) k = Inr v) \<and>
        (map_of kvs k = None \<longrightarrow> (\<exists>m. j_at J (j_object J kvs) k = Inl (JsonError m))) \<and>
        j_index J (j_object J kvs) k = Inr (case map_of kvs k of Some v \<Rightarrow> v | None \<Rightarrow> j_null J) \<and>
        (\<forall>d. j_value J (j_object J kvs) k d = Inr (case map_of kvs k of Some v \<Rightarrow> v | None \<Rightarrow> d)) \<and>
        (j_contains J (j_object J kvs) k \<longleftrightarrow> k \<in> fst ` set kvs))"

definition json_leaf_ok :: "'j json_api \<Rightarrow> bool" where
  "json_leaf_ok J \<longleftrightarrow>
     (\<forall>n. j_get_uint J (j_uint J n) = Inr n \<and> j_is_uint J (j_uint J n)) \<and>
     (\<forall>i. - (2 ^ 31) \<le> i \<and> i < 2 ^ 31 \<longrightarrow> j_get_int J (j_int J i) = Inr i) \<and>
     (\<forall>s. j_get_string J (j_string J s) = Inr s \<and> j_is_string J (j_string J s)) \<and>
     (\<forall>js. j_elems J (j_array J js) = js) \<and>
     j_is_null J (j_null J) \<and>
     (\<forall>kvs. j_is_object J (j_object J kvs) \<and> \<not> j_is_null J (j_object J kvs))"

definition json_parse_ok :: "'j json_api \<Rightarrow> bool" where
  "json_parse_ok J \<longleftrightarrow>
     (\<forall>j. json_plain J j \<longrightarrow> j_utf8 J j \<and> j_parse J (j_text J j) = Inr j \<and>
        (\<forall>n rest. j_is_object J j \<longrightarrow> j_read J (j_text_indent J n j @ rest) = Inr j))"

definition json_ok :: "'j json_api \<Rightarrow> bool" where
  "json_ok J \<longleftrightarrow> json_object_ok J \<and> json_leaf_ok J \<and> json_parse_ok J"

lemma json_at:
  "json_ok J \<Longrightarrow> distinct (map fst kvs) \<Longrightarrow> map_of kvs k = Some v \<Longrightarrow> j_at J (j_object J kvs) k = Inr v"
  by (simp add: json_ok_def json_object_ok_def)

lemma json_index:
  "json_ok J \<Longrightarrow> distinct (map fst kvs) \<Longrightarrow> map_of kvs k = Some v \<Longrightarrow> j_index J (j_object J kvs) k = Inr v"
  by (simp add: json_ok_def json_object_ok_def)

lemma json_value:
  "json_ok J \<Longrightarrow> distinct (map fst kvs) \<Longrightarrow> map_of kvs k = Some v \<Longrightarrow> j_value J (j_object J kvs) k d = Inr v"
  by (simp add: json_ok_def json_object_ok_def)

lemma json_value_missing:
  "json_ok J \<Longrightarrow> distinct (map fst kvs) \<Longrightarrow> map_of kvs k = None \<Longrightarrow> j_value J (j_object J kvs) k d = Inr d"
  by (simp add: json_ok_def json_object_ok_def)

lemma json_contains:
  "json_ok J \<Longrightarrow> distinct (map fst kvs) \<Longrightarrow> j_contains J (j_object J kvs) k \<longleftrightarrow> k \<in> fst ` set kvs"
  by (simp add: json_ok_def json_object_ok_def)

lemma json_leaf:
  assumes "json_ok J"
  shows "j_get_uint J (j_uint J n) = Inr n" "j_is_uint J (j_uint J n)"
    "j_get_string J (j_string J s) = Inr s" "j_is_string J (j_string J s)"
    "j_elems J (j_array J js) = js" "j_is_null J (j_null J)"
    "j_is_object J (j_object J kvs)" "\<not> j_is_null J (j_object J kvs)"
  using assms by (simp_all add: json_ok_def json_leaf_ok_def)

lemma json_int:
  "json_ok J \<Longrightarrow> - (2 ^ 31) \<le> i \<Longrightarrow> i < 2 ^ 31 \<Longrightarrow> j_get_int J (j_int J i) = Inr i"
  by (simp add: json_ok_def json_leaf_ok_def)

lemma json_parse_text: "json_ok J \<Longrightarrow> json_plain J j \<Longrightarrow> j_parse J (j_text J j) = Inr j"
  by (simp add: json_ok_def json_parse_ok_def)

lemma json_read_text:
  "json_ok J \<Longrightarrow> json_plain J (j_object J kvs) \<Longrightarrow> j_read J (j_text_indent J n (j_object J kvs) @ rest) = Inr (j_object J kvs)"
  by (simp add: json_ok_def json_parse_ok_def json_leaf_ok_def)

lemma json_plain_dump: "json_ok J \<Longrightarrow> json_plain J j \<Longrightarrow> j_dump J j = Inr (j_text J j)"
  by (simp add: json_ok_def json_parse_ok_def j_dump_def)

lemma json_text_inject:
  "json_ok J \<Longrightarrow> json_plain J a \<Longrightarrow> json_plain J b \<Longrightarrow> j_text J a = j_text J b \<longleftrightarrow> a = b"
  by (metis json_parse_text sum.inject(2))

lemma at_uint_object:
  "json_ok J \<Longrightarrow> distinct (map fst kvs) \<Longrightarrow> map_of kvs k = Some (j_uint J n) \<Longrightarrow>
    at_uint J (j_object J kvs) k = Inr n"
  by (simp add: at_uint_def json_at json_leaf)

lemma at_string_object:
  "json_ok J \<Longrightarrow> distinct (map fst kvs) \<Longrightarrow> map_of kvs k = Some (j_string J s) \<Longrightarrow>
    at_string J (j_object J kvs) k = Inr s"
  by (simp add: at_string_def json_at json_leaf)

lemmas json_object_access =
  json_at json_index json_value json_value_missing at_uint_object at_string_object

lemma json_object_inject:
  assumes "json_ok J" and "distinct (map fst kvs)" and "distinct (map fst kvs')"
    and "j_object J kvs = j_object J kvs'" and "map_of kvs k = Some v" and "map_of kvs' k = Some v'"
  shows "v = v'"
  by (metis assms json_at sum.inject(2))

lemma json_string_inject: "json_ok J \<Longrightarrow> j_string J s = j_string J t \<longleftrightarrow> s = t"
  by (metis json_leaf(3) sum.inject(2))

lemma json_uint_inject: "json_ok J \<Longrightarrow> j_uint J m = j_uint J n \<longleftrightarrow> m = n"
  by (metis json_leaf(1) sum.inject(2))

lemma json_array_inject: "json_ok J \<Longrightarrow> j_array J xs = j_array J ys \<longleftrightarrow> xs = ys"
  by (metis json_leaf(5))

end
