(* ===== verification/Json_Demo.thy ===== *)
theory Json_Demo
  imports Json_Api
begin

text \<open>
  A concrete instance of the JSON parameter, with a self-delimiting text form and its
  decoder. It shows that \<open>json_ok\<close> can hold, and the witnesses compute with it. It is not
  a model of the JSON library.
\<close>

datatype jval =
    JNull
  | JUint u64
  | JInt int
  | JBool bool
  | JStr string
  | JArr "jval list"
  | JObj "(string \<times> jval) list"

definition enc_string :: "string \<Rightarrow> string" where
  "enc_string s = to_string_nat (length s) @ '':'' @ s"

fun enc :: "jval \<Rightarrow> string" where
  "enc JNull = ''n''"
| "enc (JUint w) = ''u'' @ to_string w @ '';''"
| "enc (JInt i) = (if i < 0 then ''-'' else ''i'') @ to_string_nat (nat \<bar>i\<bar>) @ '';''"
| "enc (JBool b) = (if b then ''t'' else ''f'')"
| "enc (JStr s) = ''s'' @ enc_string s"
| "enc (JArr js) = ''['' @ concat (map enc js) @ '']''"
| "enc (JObj kvs) = ''{'' @ concat (map (\<lambda>(k, j). ''k'' @ enc_string k @ enc j) kvs) @ ''}''"

definition dec_num :: "string \<Rightarrow> (nat \<times> string) option" where
  "dec_num s =
     (let ds = takeWhile (is_digit 10) s
      in if ds = [] then None
         else case dropWhile (is_digit 10) s of
                [] \<Rightarrow> None
              | _ # r \<Rightarrow> Some (digits_value 10 ds, r))"

definition dec_string :: "string \<Rightarrow> (string \<times> string) option" where
  "dec_string s =
     (case dec_num s of None \<Rightarrow> None
      | Some (n, r) \<Rightarrow> if length r < n then None else Some (take n r, drop n r))"

fun dec :: "nat \<Rightarrow> string \<Rightarrow> (jval \<times> string) option"
and dec_list :: "nat \<Rightarrow> string \<Rightarrow> (jval list \<times> string) option"
and dec_obj :: "nat \<Rightarrow> string \<Rightarrow> ((string \<times> jval) list \<times> string) option" where
  "dec (Suc f) (c # s) =
     (if c = CHR ''n'' then Some (JNull, s)
      else if c = CHR ''t'' then Some (JBool True, s)
      else if c = CHR ''f'' then Some (JBool False, s)
      else if c = CHR ''u'' then map_option (\<lambda>(n, r). (JUint (word_of_nat n), r)) (dec_num s)
      else if c = CHR ''i'' then map_option (\<lambda>(n, r). (JInt (int n), r)) (dec_num s)
      else if c = CHR ''-'' then map_option (\<lambda>(n, r). (JInt (- int n), r)) (dec_num s)
      else if c = CHR ''s'' then map_option (\<lambda>(t, r). (JStr t, r)) (dec_string s)
      else if c = CHR ''['' then map_option (\<lambda>(js, r). (JArr js, r)) (dec_list f s)
      else if c = CHR ''{'' then map_option (\<lambda>(kvs, r). (JObj kvs, r)) (dec_obj f s)
      else None)"
| "dec _ _ = None"
| "dec_list (Suc f) (c # s) =
     (if c = CHR '']'' then Some ([], s)
      else case dec f (c # s) of None \<Rightarrow> None
           | Some (j, r) \<Rightarrow> map_option (\<lambda>(js, r'). (j # js, r')) (dec_list f r))"
| "dec_list _ _ = None"
| "dec_obj (Suc f) (c # s) =
     (if c = CHR ''}'' then Some ([], s)
      else if c = CHR ''k'' then
        (case dec_string s of None \<Rightarrow> None
         | Some (k, r) \<Rightarrow>
             (case dec f r of None \<Rightarrow> None
              | Some (j, r') \<Rightarrow> map_option (\<lambda>(kvs, r''). ((k, j) # kvs, r'')) (dec_obj f r')))
      else None)"
| "dec_obj _ _ = None"

lemma dec_num_enc: "dec_num (to_string_nat n @ CHR '';'' # r) = Some (n, r)"
  "dec_num (to_string_nat n @ CHR '':'' # r) = Some (n, r)"
proof -
  have "dec_num (to_string_nat n @ c # r) = Some (n, r)" if "\<not> is_digit 10 c" for c
    using to_string_nat_all_digits [of n] that
    by (simp add: dec_num_def list_all_iff takeWhile_append dropWhile_append)
  then show "dec_num (to_string_nat n @ CHR '';'' # r) = Some (n, r)"
    "dec_num (to_string_nat n @ CHR '':'' # r) = Some (n, r)"
    by (simp_all add: is_digit_def digit_value_def code_of_def)
qed

lemma dec_string_enc: "dec_string (enc_string s @ r) = Some (s, r)"
  by (simp add: dec_string_def enc_string_def dec_num_enc)

lemma enc_nonempty: "0 < length (enc j)"
  by (cases j) auto

lemma enc_hd: "enc j = c # s \<Longrightarrow> c \<noteq> CHR '']''"
  by (cases j) (auto split: if_splits)

definition decodes :: "jval \<Rightarrow> bool" where
  "decodes j \<longleftrightarrow> (\<forall>f r. length (enc j) < f \<longrightarrow> dec f (enc j @ r) = Some (j, r))"

lemma decodesD: "decodes j \<Longrightarrow> length (enc j) < f \<Longrightarrow> dec f (enc j @ r) = Some (j, r)"
  by (simp add: decodes_def)

lemma dec_list_enc:
  assumes "\<forall>j\<in>set js. decodes j" and "length (concat (map enc js)) + 1 < f"
  shows "dec_list f (concat (map enc js) @ '']'' @ r) = Some (js, r)"
  using assms
proof (induction js arbitrary: f)
  case Nil
  then show ?case by (cases f) auto
next
  case (Cons j js)
  obtain f' where f: "f = Suc f'"
    using Cons.prems(2) by (cases f) auto
  obtain c s where c: "enc j = c # s"
    using enc_nonempty [of j] by (cases "enc j") auto
  let ?rest = "concat (map enc js) @ '']'' @ r"
  have "dec f' (enc j @ ?rest) = Some (j, ?rest)"
    by (rule decodesD) (use Cons.prems f in simp_all)
  moreover have "dec_list f' ?rest = Some (js, r)"
    by (rule Cons.IH) (use Cons.prems f c in simp_all)
  ultimately show ?case
    using enc_hd [OF c] by (simp add: f c)
qed

lemma length_enc_string: "0 < length (enc_string s)"
  by (simp add: enc_string_def)

lemma dec_obj_enc:
  assumes "\<forall>j\<in>snd ` set kvs. decodes j"
    and "length (concat (map (\<lambda>(k, j). ''k'' @ enc_string k @ enc j) kvs)) + 1 < f"
  shows "dec_obj f (concat (map (\<lambda>(k, j). ''k'' @ enc_string k @ enc j) kvs) @ ''}'' @ r) = Some (kvs, r)"
  using assms
proof (induction kvs arbitrary: f)
  case Nil
  then show ?case by (cases f) auto
next
  case (Cons kv kvs)
  obtain f' where f: "f = Suc f'"
    using Cons.prems(2) by (cases f) auto
  obtain k j where kv: "kv = (k, j)" by (cases kv)
  let ?rest = "concat (map (\<lambda>(k, j). ''k'' @ enc_string k @ enc j) kvs) @ ''}'' @ r"
  have "dec f' (enc j @ ?rest) = Some (j, ?rest)"
    by (rule decodesD) (use Cons.prems f kv in simp_all)
  moreover have "dec_obj f' ?rest = Some (kvs, r)"
    by (rule Cons.IH) (use Cons.prems f kv length_enc_string [of k] in simp_all)
  moreover have "dec_string (enc_string k @ enc j @ ?rest) = Some (k, enc j @ ?rest)"
    by (rule dec_string_enc)
  ultimately show ?case by (simp add: f kv)
qed

lemma decodes_all: "decodes j"
proof (induction j)
  case (JArr js)
  show ?case
    unfolding decodes_def
  proof (intro allI impI)
    fix f r
    assume "length (enc (JArr js)) < f"
    moreover from this obtain f' where f: "f = Suc f'" by (cases f) auto
    ultimately have "dec_list f' (concat (map enc js) @ '']'' @ r) = Some (js, r)"
      by (intro dec_list_enc) (use JArr in simp_all)
    then show "dec f (enc (JArr js) @ r) = Some (JArr js, r)"
      by (simp add: f)
  qed
next
  case (JObj kvs)
  show ?case
    unfolding decodes_def
  proof (intro allI impI)
    fix f r
    assume "length (enc (JObj kvs)) < f"
    moreover from this obtain f' where f: "f = Suc f'" by (cases f) auto
    moreover have "\<forall>j\<in>snd ` set kvs. decodes j"
      using JObj by force
    ultimately have "dec_obj f' (concat (map (\<lambda>(k, j). ''k'' @ enc_string k @ enc j) kvs) @ ''}'' @ r) = Some (kvs, r)"
      by (intro dec_obj_enc) simp_all
    then show "dec f (enc (JObj kvs) @ r) = Some (JObj kvs, r)"
      by (simp add: f)
  qed
next
  case (JUint w)
  have "dec (Suc f) (enc (JUint w) @ r) = Some (JUint w, r)" for f r
    by (simp add: to_string_def dec_num_enc)
  then show ?case unfolding decodes_def by (metis less_nat_zero_code not0_implies_Suc)
next
  case (JInt i)
  have "dec (Suc f) (enc (JInt i) @ r) = Some (JInt i, r)" for f r
    by (simp add: dec_num_enc)
  then show ?case unfolding decodes_def by (metis less_nat_zero_code not0_implies_Suc)
next
  case (JStr s)
  have "dec (Suc f) (enc (JStr s) @ r) = Some (JStr s, r)" for f r
    by (simp add: dec_string_enc)
  then show ?case unfolding decodes_def by (metis less_nat_zero_code not0_implies_Suc)
next
  case JNull
  have "dec (Suc f) (enc JNull @ r) = Some (JNull, r)" for f r
    by simp
  then show ?case unfolding decodes_def by (metis less_nat_zero_code not0_implies_Suc)
next
  case (JBool b)
  have "dec (Suc f) (enc (JBool b) @ r) = Some (JBool b, r)" for f r
    by simp
  then show ?case unfolding decodes_def by (metis less_nat_zero_code not0_implies_Suc)
qed

definition demo_parse :: "string \<Rightarrow> jval result" where
  "demo_parse s =
     (case dec (Suc (length s)) s of
        Some (j, []) \<Rightarrow> Inr j
      | _ \<Rightarrow> Inl (JsonParseError ''parse error''))"

definition demo_read :: "string \<Rightarrow> jval result" where
  "demo_read s =
     (case dec (Suc (length s)) s of
        Some (j, _) \<Rightarrow> Inr j
      | None \<Rightarrow> Inl (JsonParseError ''parse error''))"

lemma demo_read_enc: "demo_read (enc j @ rest) = Inr j"
  using decodesD [OF decodes_all, of j "Suc (length (enc j @ rest))" rest] by (simp add: demo_read_def)

lemma demo_parse_enc: "demo_parse (enc j) = Inr j"
  using decodesD [OF decodes_all, of j "Suc (length (enc j))" "[]"] by (simp add: demo_parse_def)

fun jascii :: "jval \<Rightarrow> bool" where
  "jascii (JStr s) = ascii s"
| "jascii (JArr js) = list_all jascii js"
| "jascii (JObj kvs) = list_all (\<lambda>(k, j). ascii k \<and> jascii j) kvs"
| "jascii _ = True"

fun jfields :: "jval \<Rightarrow> (string \<times> jval) list" where
  "jfields (JObj kvs) = kvs"
| "jfields _ = []"

fun jelems :: "jval \<Rightarrow> jval list" where
  "jelems (JArr js) = js"
| "jelems (JObj kvs) = map snd kvs"
| "jelems JNull = []"
| "jelems j = [j]"

definition is_obj :: "jval \<Rightarrow> bool" where
  "is_obj j = (case j of JObj _ \<Rightarrow> True | _ \<Rightarrow> False)"

definition demo_json :: "jval json_api" where
  "demo_json =
     \<lparr>j_null = JNull, j_uint = JUint, j_int = JInt, j_bool = JBool, j_string = JStr,
      j_array = JArr, j_object = JObj,
      j_is_null = (\<lambda>j. j = JNull),
      j_is_string = (\<lambda>j. case j of JStr _ \<Rightarrow> True | _ \<Rightarrow> False),
      j_is_object = is_obj,
      j_is_uint = (\<lambda>j. case j of JUint _ \<Rightarrow> True | _ \<Rightarrow> False),
      j_contains = (\<lambda>j k. map_of (jfields j) k \<noteq> None),
      j_at = (\<lambda>j k. of_option (JsonError k) (map_of (jfields j) k)),
      j_index = (\<lambda>j k. if is_obj j \<or> j = JNull
                        then Inr (case map_of (jfields j) k of Some v \<Rightarrow> v | None \<Rightarrow> JNull)
                        else Inl (JsonError k)),
      j_value = (\<lambda>j k d. if is_obj j
                        then Inr (case map_of (jfields j) k of Some v \<Rightarrow> v | None \<Rightarrow> d)
                        else Inl (JsonError k)),
      j_get_uint = (\<lambda>j. case j of JUint n \<Rightarrow> Inr n | _ \<Rightarrow> Inl (JsonError ''type'')),
      j_get_int = (\<lambda>j. case j of JInt n \<Rightarrow> Inr n | _ \<Rightarrow> Inl (JsonError ''type'')),
      j_get_string = (\<lambda>j. case j of JStr s \<Rightarrow> Inr s | _ \<Rightarrow> Inl (JsonError ''type'')),
      j_elems = jelems,
      j_utf8 = jascii,
      j_text = enc,
      j_text_indent = (\<lambda>_. enc),
      j_parse = demo_parse,
      j_read = demo_read\<rparr>"

lemma demo_json_simps [simp]:
  "j_null demo_json = JNull" "j_uint demo_json = JUint" "j_int demo_json = JInt"
  "j_bool demo_json = JBool" "j_string demo_json = JStr" "j_array demo_json = JArr"
  "j_object demo_json = JObj" "j_is_null demo_json j \<longleftrightarrow> j = JNull"
  "j_is_string demo_json (JStr s)" "j_is_object demo_json = is_obj" "j_is_uint demo_json (JUint n)"
  "j_contains demo_json j key \<longleftrightarrow> map_of (jfields j) key \<noteq> None"
  "j_at demo_json j key = of_option (JsonError key) (map_of (jfields j) key)"
  "j_get_uint demo_json (JUint n) = Inr n" "j_get_int demo_json (JInt i) = Inr i"
  "j_get_string demo_json (JStr s) = Inr s"
  "j_elems demo_json = jelems" "j_utf8 demo_json = jascii" "j_text demo_json = enc"
  "j_parse demo_json = demo_parse" "j_read demo_json = demo_read" "j_text_indent demo_json k = enc"
  by (simp_all add: demo_json_def)

lemma is_obj_JObj [simp]: "is_obj (JObj kvs)" "is_obj (JArr js) = False"
  by (simp_all add: is_obj_def)

lemma demo_json_object [simp]:
  "j_index demo_json (JObj kvs) k = Inr (case map_of kvs k of Some v \<Rightarrow> v | None \<Rightarrow> JNull)"
  "j_value demo_json (JObj kvs) k d = Inr (case map_of kvs k of Some v \<Rightarrow> v | None \<Rightarrow> d)"
  by (simp_all add: demo_json_def)

lemma demo_json_plain_ascii: "json_plain demo_json j \<Longrightarrow> jascii j"
  by (induction rule: json_plain.induct) (force simp: list_all_iff)+

lemma demo_json_ok: "json_ok demo_json"
  unfolding json_ok_def
proof (intro conjI)
  show "json_object_ok demo_json"
    by (auto simp: json_object_ok_def dom_map_of_conv_image_fst [symmetric] dom_def split: option.splits)
  show "json_leaf_ok demo_json"
    by (simp add: json_leaf_ok_def)
  show "json_parse_ok demo_json"
    by (simp add: json_parse_ok_def demo_json_plain_ascii demo_parse_enc demo_read_enc)
qed

end
