(* ===== verification/Transaction.thy ===== *)
theory Transaction
  imports Keys Json_Demo
begin

text \<open>
  \<open>core/transaction.hpp\<close> and \<open>core/transaction.cpp\<close>: the transaction record, its JSON
  forms, hashing, signing, creation and verification. The lemmas show that a created
  transaction verifies, that the JSON form decodes to the transaction it encodes, and that
  the hash commits to the signable fields unless two different serialisations collide.
\<close>

record transaction =
  tx_sender :: address
  tx_recipient :: address
  tx_amount :: u64
  tx_nonce :: u64
  tx_timestamp :: u64
  tx_senderPublicKey :: public_key
  tx_signature :: signature_bytes
  tx_hash :: hash32

definition wf_transaction :: "transaction \<Rightarrow> bool" where
  "wf_transaction tx \<longleftrightarrow>
     sized 20 (tx_sender tx) \<and> sized 20 (tx_recipient tx) \<and>
     sized 33 (tx_senderPublicKey tx) \<and> sized 32 (tx_hash tx)"

section \<open>JSON\<close>

definition signableFields :: "'j json_api \<Rightarrow> transaction \<Rightarrow> (string \<times> 'j) list" where
  "signableFields J tx =
     [(''sender'', j_string J (toHex_array (tx_sender tx))),
      (''recipient'', j_string J (toHex_array (tx_recipient tx))),
      (''amount'', j_uint J (tx_amount tx)),
      (''nonce'', j_uint J (tx_nonce tx)),
      (''timestamp'', j_uint J (tx_timestamp tx)),
      (''senderPublicKey'', j_string J (toHex_array (tx_senderPublicKey tx)))]"

definition signableJson :: "'j json_api \<Rightarrow> transaction \<Rightarrow> 'j" where
  "signableJson J tx = j_object J (signableFields J tx)"

definition transactionToJson :: "'j json_api \<Rightarrow> transaction \<Rightarrow> 'j" where
  "transactionToJson J tx =
     j_object J (signableFields J tx @
       [(''signature'', j_string J (toHex (tx_signature tx))),
        (''hash'', j_string J (toHex_array (tx_hash tx)))])"

definition hexToArray :: "nat \<Rightarrow> string \<Rightarrow> bytes result" where
  "hexToArray n hex =
     (let bs = fromHex hex
      in if length bs \<noteq> n
         then Inl (RuntimeError (''Invalid hex length: expected '' @ to_string_nat (n * 2) @
                    '' chars, got '' @ to_string_nat (length hex)))
         else Inr bs)"

definition transactionFromJson :: "'j json_api \<Rightarrow> 'j \<Rightarrow> transaction result" where
  "transactionFromJson J j =
     bind_e (bind_e (at_string J j ''sender'') (hexToArray 20)) (\<lambda>sender.
     bind_e (bind_e (at_string J j ''recipient'') (hexToArray 20)) (\<lambda>recipient.
     bind_e (bind_e (at_string J j ''senderPublicKey'') (hexToArray 33)) (\<lambda>pk.
     bind_e (at_uint J j ''amount'') (\<lambda>amount.
     bind_e (at_uint J j ''nonce'') (\<lambda>nonce.
     bind_e (at_uint J j ''timestamp'') (\<lambda>timestamp.
     bind_e (at_string J j ''signature'') (\<lambda>sigHex.
     bind_e (at_string J j ''hash'') (\<lambda>hashHex.
       let hashBytes = fromHex hashHex
       in if length hashBytes \<noteq> 32 then Inl (RuntimeError ''Invalid hash length in JSON'')
          else Inr \<lparr>tx_sender = sender, tx_recipient = recipient, tx_amount = amount,
                 tx_nonce = nonce, tx_timestamp = timestamp, tx_senderPublicKey = pk,
                 tx_signature = fromHex sigHex, tx_hash = hashBytes\<rparr>))))))))"

section \<open>Hash, signature, creation, verification\<close>

definition computeTransactionHash :: "crypto_api \<Rightarrow> 'j json_api \<Rightarrow> transaction \<Rightarrow> hash32" where
  "computeTransactionHash C J tx = digest_string C (j_text J (signableJson J tx))"

definition signTransaction ::
  "crypto_api \<Rightarrow> 'j json_api \<Rightarrow> transaction \<Rightarrow> private_key \<Rightarrow> transaction result" where
  "signTransaction C J tx sk =
     (let tx1 = tx\<lparr>tx_hash := computeTransactionHash C J tx\<rparr>
      in bind_e (sign C (tx_hash tx1) sk) (\<lambda>s. Inr (tx1\<lparr>tx_signature := s\<rparr>)))"

text \<open>\<open>now\<close> is the reading of \<open>system_clock\<close> in seconds.\<close>

definition createTransaction ::
  "crypto_api \<Rightarrow> 'j json_api \<Rightarrow> u64 \<Rightarrow> key_pair \<Rightarrow> address \<Rightarrow> u64 \<Rightarrow> u64 \<Rightarrow> transaction result" where
  "createTransaction C J now kp recipient amount nonce =
     signTransaction C J
       \<lparr>tx_sender = deriveAddress C (publicKey kp), tx_recipient = recipient,
        tx_amount = amount, tx_nonce = nonce, tx_timestamp = now,
        tx_senderPublicKey = publicKey kp, tx_signature = [], tx_hash = []\<rparr>
       (privateKey kp)"

definition verifyTransaction :: "crypto_api \<Rightarrow> 'j json_api \<Rightarrow> transaction \<Rightarrow> bool" where
  "verifyTransaction C J tx =
     (if deriveAddress C (tx_senderPublicKey tx) \<noteq> tx_sender tx then False
      else if computeTransactionHash C J tx \<noteq> tx_hash tx then False
      else verify C (tx_hash tx) (tx_signature tx) (tx_senderPublicKey tx))"

section \<open>Facts\<close>

text \<open>What the hash covers: everything but the hash and the signature.\<close>

definition signable :: "transaction \<Rightarrow> address \<times> address \<times> u64 \<times> u64 \<times> u64 \<times> public_key" where
  "signable tx =
     (tx_sender tx, tx_recipient tx, tx_amount tx, tx_nonce tx, tx_timestamp tx, tx_senderPublicKey tx)"

lemma hexToArray_toHex [simp]: "length bs = n \<Longrightarrow> hexToArray n (toHex bs) = Inr bs"
  by (simp add: hexToArray_def)

lemma hexToArray_length: "hexToArray n s = Inr bs \<Longrightarrow> length bs = n"
  by (auto simp: hexToArray_def Let_def split: if_splits)

lemma signableFields_keys [simp]:
  "map fst (signableFields J tx) =
     [''sender'', ''recipient'', ''amount'', ''nonce'', ''timestamp'', ''senderPublicKey'']"
  by (simp add: signableFields_def)

lemma signableJson_plain: "json_plain J (signableJson J tx)"
  unfolding signableJson_def signableFields_def
  by (rule plain_object) (auto intro: plain_uint plain_string)

lemma transactionToJson_plain: "json_plain J (transactionToJson J tx)"
  unfolding transactionToJson_def signableFields_def
  by (rule plain_object) (auto intro: plain_uint plain_string)

lemma computeTransactionHash_cong:
  "signable a = signable b \<Longrightarrow> computeTransactionHash C J a = computeTransactionHash C J b"
  by (simp add: computeTransactionHash_def signableJson_def signableFields_def signable_def)

lemma computeTransactionHash_update [simp]:
  "computeTransactionHash C J (tx\<lparr>tx_hash := h\<rparr>) = computeTransactionHash C J tx"
  "computeTransactionHash C J (tx\<lparr>tx_signature := s\<rparr>) = computeTransactionHash C J tx"
  by (rule computeTransactionHash_cong, simp add: signable_def)+

lemma length_computeTransactionHash [size_simps]:
  "evp_ok C \<Longrightarrow> length (computeTransactionHash C J tx) = 32"
  by (simp add: computeTransactionHash_def size_simps)

lemma signableJson_inject:
  assumes "json_ok J"
  shows "signableJson J a = signableJson J b \<longleftrightarrow> signable a = signable b"
proof
  assume eq: "signableJson J a = signableJson J b"
  note inj = json_object_inject [OF assms, of "signableFields J a" "signableFields J b",
      OF _ _ eq [unfolded signableJson_def]]
  have "j_string J (toHex (tx_sender a)) = j_string J (toHex (tx_sender b))"
    by (rule inj [of "''sender''"]) (simp_all add: signableFields_def)
  moreover have "j_string J (toHex (tx_recipient a)) = j_string J (toHex (tx_recipient b))"
    by (rule inj [of "''recipient''"]) (simp_all add: signableFields_def)
  moreover have "j_uint J (tx_amount a) = j_uint J (tx_amount b)"
    by (rule inj [of "''amount''"]) (simp_all add: signableFields_def)
  moreover have "j_uint J (tx_nonce a) = j_uint J (tx_nonce b)"
    by (rule inj [of "''nonce''"]) (simp_all add: signableFields_def)
  moreover have "j_uint J (tx_timestamp a) = j_uint J (tx_timestamp b)"
    by (rule inj [of "''timestamp''"]) (simp_all add: signableFields_def)
  moreover have "j_string J (toHex (tx_senderPublicKey a)) = j_string J (toHex (tx_senderPublicKey b))"
    by (rule inj [of "''senderPublicKey''"]) (simp_all add: signableFields_def)
  ultimately show "signable a = signable b"
    using assms by (simp add: signable_def json_string_inject json_uint_inject)
qed (simp add: signableJson_def signableFields_def signable_def)

lemma verifyTransaction_iff:
  "verifyTransaction C J tx \<longleftrightarrow>
     tx_sender tx = deriveAddress C (tx_senderPublicKey tx) \<and>
     tx_hash tx = computeTransactionHash C J tx \<and>
     verify C (tx_hash tx) (tx_signature tx) (tx_senderPublicKey tx)"
  by (auto simp: verifyTransaction_def)

lemma createTransaction_Inr:
  assumes "createTransaction C J now kp rcp amt n = Inr tx"
  shows "signable tx = (deriveAddress C (publicKey kp), rcp, amt, n, now, publicKey kp)"
    and "tx_hash tx = computeTransactionHash C J tx"
    and "sign C (tx_hash tx) (privateKey kp) = Inr (tx_signature tx)"
  using assms
  by (auto simp: createTransaction_def signTransaction_def Let_def signable_def
      intro!: computeTransactionHash_cong)

lemma createTransaction_verifies:
  assumes "crypto_ok C" and "key_pair_ok C kp"
    and "createTransaction C J now kp rcp amt n = Inr tx"
  shows "verifyTransaction C J tx"
proof -
  note tx = createTransaction_Inr [OF assms(3)]
  have "verify C (tx_hash tx) (tx_signature tx) (publicKey kp)"
    using assms(1,2) tx(3) by (intro verify_sign) (auto simp: crypto_okD key_pair_ok_def)
  with tx(1,2) show ?thesis
    by (simp add: verifyTransaction_iff signable_def)
qed

lemma createTransaction_total:
  assumes "crypto_ok C" and "key_pair_ok C kp"
  obtains tx where "createTransaction C J now kp rcp amt n = Inr tx"
proof -
  have "\<exists>s. sign C (computeTransactionHash C J tx) (privateKey kp) = Inr s" for tx
    using assms by (intro sign_total) (auto simp: crypto_okD key_pair_ok_def size_simps)
  then have "\<exists>tx. createTransaction C J now kp rcp amt n = Inr tx"
    unfolding createTransaction_def signTransaction_def Let_def
    by (metis bind_e.simps(2) computeTransactionHash_update(1) transaction.select_convs(8)
        transaction.update_convs(8))
  then show ?thesis using that by blast
qed

lemma createTransaction_wf:
  assumes "crypto_ok C" and "key_pair_ok C kp" and "sized 20 rcp"
    and "createTransaction C J now kp rcp amt n = Inr tx"
  shows "wf_transaction tx"
proof -
  note tx = createTransaction_Inr [OF assms(4)]
  have "length (publicKey kp) = 33"
    using assms(1,2) by (intro length_publicKey [of C]) (simp_all add: crypto_okD)
  then show ?thesis
    using assms(1,3) tx(1,2) by (simp add: wf_transaction_def signable_def sized_def size_simps crypto_okD)
qed

lemma transactionFromJson_toJson:
  assumes "json_ok J" and "wf_transaction tx"
  shows "transactionFromJson J (transactionToJson J tx) = Inr tx"
proof -
  note access = at_string_object [OF assms(1)] at_uint_object [OF assms(1)]
  show ?thesis
    using assms(2)
    by (simp add: transactionFromJson_def transactionToJson_def access wf_transaction_def sized_def
        signableFields_def Let_def)
qed

lemma transaction_codec:
  "json_ok J \<Longrightarrow> codec (transactionToJson J) (transactionFromJson J) wf_transaction"
  by unfold_locales (rule transactionFromJson_toJson)

lemma transactionFromJson_wf: "transactionFromJson J j = Inr tx \<Longrightarrow> wf_transaction tx"
  by (auto simp: transactionFromJson_def wf_transaction_def sized_def Let_def
      dest!: hexToArray_length split: if_splits)

lemma verifyTransaction_wf:
  assumes "evp_ok C" and "verifyTransaction C J tx"
  shows "length (tx_sender tx) = 20" and "length (tx_hash tx) = 32"
  using assms by (auto simp: verifyTransaction_iff size_simps)

end
