(* ===== verification/Block.thy ===== *)
theory Block
  imports Transaction
begin

text \<open>
  \<open>core/block.hpp\<close> and \<open>core/block.cpp\<close>: the block record, the transaction root hash, the
  header hash, signing, the genesis block, block creation, verification and the JSON form.
  The lemmas give the round trip of the JSON form, that created blocks verify, and what
  equal hashes say about two blocks.
\<close>

record block =
  blk_index :: u64
  blk_timestamp :: u64
  blk_previousHash :: hash32
  blk_validator :: address
  blk_validatorPublicKey :: public_key
  blk_transactions :: "transaction list"
  blk_signature :: signature_bytes
  blk_hash :: hash32

definition wf_block :: "block \<Rightarrow> bool" where
  "wf_block b \<longleftrightarrow>
     sized 32 (blk_previousHash b) \<and> sized 20 (blk_validator b) \<and>
     sized 33 (blk_validatorPublicKey b) \<and> sized 32 (blk_hash b) \<and>
     list_all wf_transaction (blk_transactions b)"

section \<open>Hashes\<close>

definition computeTransactionRootHash :: "crypto_api \<Rightarrow> transaction list \<Rightarrow> hash32" where
  "computeTransactionRootHash C txs = digest C (concat (map tx_hash txs))"

definition headerJson :: "crypto_api \<Rightarrow> 'j json_api \<Rightarrow> block \<Rightarrow> 'j" where
  "headerJson C J b =
     j_object J
       [(''index'', j_uint J (blk_index b)),
        (''timestamp'', j_uint J (blk_timestamp b)),
        (''previousHash'', j_string J (toHex_array (blk_previousHash b))),
        (''validator'', j_string J (toHex_array (blk_validator b))),
        (''validatorPublicKey'', j_string J (toHex_array (blk_validatorPublicKey b))),
        (''transactionRootHash'',
           j_string J (toHex_array (computeTransactionRootHash C (blk_transactions b))))]"

definition computeBlockHash :: "crypto_api \<Rightarrow> 'j json_api \<Rightarrow> block \<Rightarrow> hash32" where
  "computeBlockHash C J b = digest_string C (j_text J (headerJson C J b))"

section \<open>Signing and creation\<close>

definition signBlock :: "crypto_api \<Rightarrow> 'j json_api \<Rightarrow> block \<Rightarrow> private_key \<Rightarrow> block result" where
  "signBlock C J b sk =
     (let b1 = b\<lparr>blk_hash := computeBlockHash C J b\<rparr>
      in bind_e (sign C (blk_hash b1) sk) (\<lambda>s. Inr (b1\<lparr>blk_signature := s\<rparr>)))"

definition zeroHash :: hash32 where
  "zeroHash = replicate 32 0"

definition createGenesisBlock :: "crypto_api \<Rightarrow> 'j json_api \<Rightarrow> key_pair \<Rightarrow> block result" where
  "createGenesisBlock C J kp =
     signBlock C J
       \<lparr>blk_index = 0, blk_timestamp = 0, blk_previousHash = zeroHash,
        blk_validator = deriveAddress C (publicKey kp), blk_validatorPublicKey = publicKey kp,
        blk_transactions = [], blk_signature = [], blk_hash = []\<rparr>
       (privateKey kp)"

definition createBlock ::
  "crypto_api \<Rightarrow> 'j json_api \<Rightarrow> u64 \<Rightarrow> key_pair \<Rightarrow> block \<Rightarrow> transaction list \<Rightarrow> block result" where
  "createBlock C J now kp previousBlock transactions =
     signBlock C J
       \<lparr>blk_index = blk_index previousBlock + 1, blk_timestamp = now,
        blk_previousHash = blk_hash previousBlock,
        blk_validator = deriveAddress C (publicKey kp), blk_validatorPublicKey = publicKey kp,
        blk_transactions = transactions, blk_signature = [], blk_hash = []\<rparr>
       (privateKey kp)"

section \<open>Verification\<close>

definition verifyBlock :: "crypto_api \<Rightarrow> 'j json_api \<Rightarrow> block \<Rightarrow> bool" where
  "verifyBlock C J b =
     (if deriveAddress C (blk_validatorPublicKey b) \<noteq> blk_validator b then False
      else if computeBlockHash C J b \<noteq> blk_hash b then False
      else if \<not> verify C (blk_hash b) (blk_signature b) (blk_validatorPublicKey b) then False
      else list_all (verifyTransaction C J) (blk_transactions b))"

section \<open>JSON\<close>

definition blockToJson :: "'j json_api \<Rightarrow> block \<Rightarrow> 'j" where
  "blockToJson J b =
     j_object J
       [(''index'', j_uint J (blk_index b)),
        (''timestamp'', j_uint J (blk_timestamp b)),
        (''previousHash'', j_string J (toHex_array (blk_previousHash b))),
        (''validator'', j_string J (toHex_array (blk_validator b))),
        (''validatorPublicKey'', j_string J (toHex_array (blk_validatorPublicKey b))),
        (''signature'', j_string J (toHex (blk_signature b))),
        (''hash'', j_string J (toHex_array (blk_hash b))),
        (''transactions'', j_array J (map (transactionToJson J) (blk_transactions b)))]"

definition blockFromJson :: "'j json_api \<Rightarrow> 'j \<Rightarrow> block result" where
  "blockFromJson J j =
     bind_e (at_uint J j ''index'') (\<lambda>index.
     bind_e (at_uint J j ''timestamp'') (\<lambda>timestamp.
     bind_e (bind_e (at_string J j ''previousHash'') (hexToArray 32)) (\<lambda>previousHash.
     bind_e (bind_e (at_string J j ''validator'') (hexToArray 20)) (\<lambda>validator.
     bind_e (bind_e (at_string J j ''validatorPublicKey'') (hexToArray 33)) (\<lambda>pk.
     bind_e (at_string J j ''signature'') (\<lambda>sigHex.
     bind_e (at_string J j ''hash'') (\<lambda>hashHex.
       let hashBytes = fromHex hashHex
       in if length hashBytes \<noteq> 32 then Inl (RuntimeError ''Invalid block hash length in JSON'')
          else bind_e (j_at J j ''transactions'') (\<lambda>txArray.
               bind_e (map_e (transactionFromJson J) (j_elems J txArray)) (\<lambda>txs.
                 Inr \<lparr>blk_index = index, blk_timestamp = timestamp,
                   blk_previousHash = previousHash, blk_validator = validator,
                   blk_validatorPublicKey = pk, blk_transactions = txs,
                   blk_signature = fromHex sigHex, blk_hash = hashBytes\<rparr>)))))))))"

section \<open>Facts\<close>

text \<open>What the block hash covers: the header, with the transactions through their hashes.\<close>

definition header :: "block \<Rightarrow> u64 \<times> u64 \<times> hash32 \<times> address \<times> public_key \<times> hash32 list" where
  "header b =
     (blk_index b, blk_timestamp b, blk_previousHash b, blk_validator b, blk_validatorPublicKey b,
      map tx_hash (blk_transactions b))"

lemma length_zeroHash [simp]: "length zeroHash = 32"
  by (simp add: zeroHash_def)

lemma headerJson_plain: "json_plain J (headerJson C J b)"
  unfolding headerJson_def by (rule plain_object) (auto intro: plain_uint plain_string)

lemma blockToJson_plain: "json_plain J (blockToJson J b)"
proof -
  have "json_plain J (j_array J (map (transactionToJson J) (blk_transactions b)))"
    by (rule plain_array) (auto intro: transactionToJson_plain)
  then show ?thesis
    unfolding blockToJson_def by (intro plain_object) (auto intro: plain_uint plain_string)
qed

lemma headerJson_cong: "header a = header b \<Longrightarrow> headerJson C J a = headerJson C J b"
  by (simp add: headerJson_def header_def computeTransactionRootHash_def)

lemma computeBlockHash_cong: "header a = header b \<Longrightarrow> computeBlockHash C J a = computeBlockHash C J b"
  using headerJson_cong [of a b C J] by (simp add: computeBlockHash_def)

lemma computeBlockHash_update [simp]:
  "computeBlockHash C J (b\<lparr>blk_hash := h\<rparr>) = computeBlockHash C J b"
  "computeBlockHash C J (b\<lparr>blk_signature := s\<rparr>) = computeBlockHash C J b"
  by (rule computeBlockHash_cong, simp add: header_def)+

lemma length_computeBlockHash [size_simps]: "evp_ok C \<Longrightarrow> length (computeBlockHash C J b) = 32"
  by (simp add: computeBlockHash_def size_simps)

lemma headerJson_inject:
  assumes "json_ok J" and "headerJson C J a = headerJson C J b"
  shows "blk_index a = blk_index b" and "blk_timestamp a = blk_timestamp b"
    and "blk_previousHash a = blk_previousHash b" and "blk_validator a = blk_validator b"
    and "blk_validatorPublicKey a = blk_validatorPublicKey b"
    and "computeTransactionRootHash C (blk_transactions a) = computeTransactionRootHash C (blk_transactions b)"
proof -
  note inj = json_object_inject [OF assms(1) _ _ assms(2) [unfolded headerJson_def]]
  have "j_uint J (blk_index a) = j_uint J (blk_index b)"
    by (rule inj [of "''index''"]) simp_all
  then show "blk_index a = blk_index b"
    using assms(1) by (simp add: json_uint_inject)
  have "j_uint J (blk_timestamp a) = j_uint J (blk_timestamp b)"
    by (rule inj [of "''timestamp''"]) simp_all
  then show "blk_timestamp a = blk_timestamp b"
    using assms(1) by (simp add: json_uint_inject)
  have "j_string J (toHex (blk_previousHash a)) = j_string J (toHex (blk_previousHash b))"
    by (rule inj [of "''previousHash''"]) simp_all
  then show "blk_previousHash a = blk_previousHash b"
    using assms(1) by (simp add: json_string_inject)
  have "j_string J (toHex (blk_validator a)) = j_string J (toHex (blk_validator b))"
    by (rule inj [of "''validator''"]) simp_all
  then show "blk_validator a = blk_validator b"
    using assms(1) by (simp add: json_string_inject)
  have "j_string J (toHex (blk_validatorPublicKey a)) = j_string J (toHex (blk_validatorPublicKey b))"
    by (rule inj [of "''validatorPublicKey''"]) simp_all
  then show "blk_validatorPublicKey a = blk_validatorPublicKey b"
    using assms(1) by (simp add: json_string_inject)
  have "j_string J (toHex (computeTransactionRootHash C (blk_transactions a))) =
      j_string J (toHex (computeTransactionRootHash C (blk_transactions b)))"
    by (rule inj [of "''transactionRootHash''"]) simp_all
  then show "computeTransactionRootHash C (blk_transactions a) = computeTransactionRootHash C (blk_transactions b)"
    using assms(1) by (simp add: json_string_inject)
qed

text \<open>
  Two strings, or two byte buffers, that collide. The binding theorems say: equal hashes
  mean equal contents, or here is a collision.
\<close>

definition collision :: "crypto_api \<Rightarrow> bytes \<Rightarrow> bytes \<Rightarrow> bool" where
  "collision C x y \<longleftrightarrow> x \<noteq> y \<and> digest C x = digest C y"

lemma equal_digest: "digest C x = digest C y \<Longrightarrow> \<not> collision C x y \<Longrightarrow> x = y"
  by (auto simp: collision_def)

definition header_bytes :: "crypto_api \<Rightarrow> 'j json_api \<Rightarrow> block \<Rightarrow> bytes" where
  "header_bytes C J b = string_bytes (j_text J (headerJson C J b))"

definition root_bytes :: "block \<Rightarrow> bytes" where
  "root_bytes b = concat (map tx_hash (blk_transactions b))"

lemma computeBlockHash_header_bytes: "computeBlockHash C J b = digest C (header_bytes C J b)"
  by (simp add: computeBlockHash_def header_bytes_def digest_string_def)

lemma computeTransactionRootHash_root_bytes:
  "computeTransactionRootHash C (blk_transactions b) = digest C (root_bytes b)"
  by (simp add: computeTransactionRootHash_def root_bytes_def)

lemma computeBlockHash_binds:
  assumes J: "json_ok J" and eq: "computeBlockHash C J a = computeBlockHash C J b"
    and "\<not> collision C (header_bytes C J a) (header_bytes C J b)"
    and "\<not> collision C (root_bytes a) (root_bytes b)"
    and "list_all (\<lambda>tx. length (tx_hash tx) = 32) (blk_transactions a)"
    and "list_all (\<lambda>tx. length (tx_hash tx) = 32) (blk_transactions b)"
  shows "header a = header b"
proof -
  have "header_bytes C J a = header_bytes C J b"
    using eq assms(3) by (simp add: computeBlockHash_header_bytes equal_digest)
  then have "headerJson C J a = headerJson C J b"
    using J by (simp add: header_bytes_def json_text_inject headerJson_plain)
  note same = headerJson_inject [OF J this]
  have "root_bytes a = root_bytes b"
    using same(6) assms(4) by (simp add: computeTransactionRootHash_root_bytes equal_digest)
  then have "map tx_hash (blk_transactions a) = map tx_hash (blk_transactions b)"
    unfolding root_bytes_def
    by (rule concat_sized_inject [of _ 32, rotated -1]) (use assms(5,6) in \<open>auto simp: list_all_iff\<close>)
  with same show ?thesis by (simp add: header_def)
qed

lemma verifyBlock_iff:
  "verifyBlock C J b \<longleftrightarrow>
     blk_validator b = deriveAddress C (blk_validatorPublicKey b) \<and>
     blk_hash b = computeBlockHash C J b \<and>
     verify C (blk_hash b) (blk_signature b) (blk_validatorPublicKey b) \<and>
     list_all (verifyTransaction C J) (blk_transactions b)"
  by (auto simp: verifyBlock_def)

lemma signBlock_Inr:
  assumes "signBlock C J b0 sk = Inr b"
  shows "header b = header b0" and "blk_transactions b = blk_transactions b0"
    and "blk_hash b = computeBlockHash C J b" and "sign C (blk_hash b) sk = Inr (blk_signature b)"
  using assms by (auto simp: signBlock_def Let_def header_def intro!: computeBlockHash_cong)

lemma signBlock_total:
  assumes "crypto_ok C" and "seckey_verify C sk"
  obtains b where "signBlock C J b0 sk = Inr b"
proof -
  have "\<exists>s. sign C (computeBlockHash C J b0) sk = Inr s"
    using assms by (intro sign_total) (auto simp: crypto_okD size_simps)
  then show ?thesis
    using that by (auto simp: signBlock_def Let_def)
qed

lemma signBlock_verifies:
  assumes "crypto_ok C" and "key_pair_ok C kp" and "signBlock C J b0 (privateKey kp) = Inr b"
    and "blk_validator b0 = deriveAddress C (publicKey kp)" and "blk_validatorPublicKey b0 = publicKey kp"
    and "list_all (verifyTransaction C J) (blk_transactions b0)"
  shows "verifyBlock C J b"
proof -
  note b = signBlock_Inr [OF assms(3)]
  have "verify C (blk_hash b) (blk_signature b) (publicKey kp)"
    using assms(1,2) b(4) by (intro verify_sign) (auto simp: crypto_okD key_pair_ok_def)
  with b assms(4-6) show ?thesis
    by (simp add: verifyBlock_iff header_def)
qed

lemma createBlock_Inr:
  assumes "createBlock C J now kp prev txs = Inr b"
  shows "blk_index b = blk_index prev + 1" and "blk_previousHash b = blk_hash prev"
    and "blk_validator b = deriveAddress C (publicKey kp)" and "blk_transactions b = txs"
    and "blk_validatorPublicKey b = publicKey kp" and "blk_timestamp b = now"
    and "blk_hash b = computeBlockHash C J b"
  using signBlock_Inr [OF assms [unfolded createBlock_def]] by (simp_all add: header_def)

lemma createBlock_verifies:
  assumes "crypto_ok C" and "key_pair_ok C kp" and "createBlock C J now kp prev txs = Inr b"
    and "list_all (verifyTransaction C J) txs"
  shows "verifyBlock C J b"
  using assms by (intro signBlock_verifies [OF assms(1,2) assms(3) [unfolded createBlock_def]]) simp_all

lemma createBlock_total:
  assumes "crypto_ok C" and "key_pair_ok C kp"
  obtains b where "createBlock C J now kp prev txs = Inr b"
  using assms signBlock_total unfolding createBlock_def key_pair_ok_def by metis

lemma createGenesisBlock_Inr:
  assumes "createGenesisBlock C J kp = Inr b"
  shows "blk_index b = 0" and "blk_previousHash b = zeroHash" and "blk_timestamp b = 0"
    and "blk_validator b = deriveAddress C (publicKey kp)" and "blk_transactions b = []"
    and "blk_validatorPublicKey b = publicKey kp" and "blk_hash b = computeBlockHash C J b"
  using signBlock_Inr [OF assms [unfolded createGenesisBlock_def]] by (simp_all add: header_def)

lemma createGenesisBlock_verifies:
  assumes "crypto_ok C" and "key_pair_ok C kp" and "createGenesisBlock C J kp = Inr b"
  shows "verifyBlock C J b"
  by (rule signBlock_verifies [OF assms(1,2) assms(3) [unfolded createGenesisBlock_def]]) simp_all

lemma createGenesisBlock_total:
  assumes "crypto_ok C" and "key_pair_ok C kp"
  obtains b where "createGenesisBlock C J kp = Inr b"
  using assms signBlock_total unfolding createGenesisBlock_def key_pair_ok_def by metis

lemma verifyBlock_hash_length:
  assumes "evp_ok C" and "verifyBlock C J b"
  shows "length (blk_hash b) = 32" and "list_all (\<lambda>tx. length (tx_hash tx) = 32) (blk_transactions b)"
  using assms by (auto simp: verifyBlock_iff size_simps list_all_iff dest: verifyTransaction_wf)

lemma blockFromJson_toJson:
  assumes "json_ok J" and "wf_block b"
  shows "blockFromJson J (blockToJson J b) = Inr b"
proof -
  note access = at_string_object [OF assms(1)] at_uint_object [OF assms(1)] json_at [OF assms(1)]
  have "map_e (transactionFromJson J) (map (transactionToJson J) (blk_transactions b)) = Inr (blk_transactions b)"
    using assms(2)
    by (intro codec.map_e_dec_enc [OF transaction_codec [OF assms(1)]]) (simp add: wf_block_def list_all_iff)
  then show ?thesis
    using assms
    by (simp add: blockFromJson_def blockToJson_def access wf_block_def sized_def Let_def json_leaf)
qed

lemma blockFromJson_wf: "blockFromJson J j = Inr b \<Longrightarrow> wf_block b"
  by (auto simp: blockFromJson_def wf_block_def sized_def Let_def list_all_iff
      dest!: hexToArray_length map_e_Inr_set transactionFromJson_wf split: if_splits)

lemma createBlock_wf:
  assumes "crypto_ok C" and "key_pair_ok C kp" and "createBlock C J now kp prev txs = Inr b"
    and "sized 32 (blk_hash prev)" and "list_all wf_transaction txs"
  shows "wf_block b"
proof -
  have "length (publicKey kp) = 33"
    using assms(1,2) by (intro length_publicKey [of C]) (simp_all add: crypto_okD)
  then show ?thesis
    using assms(1,4,5) createBlock_Inr [OF assms(3)]
    by (simp add: wf_block_def sized_def size_simps crypto_okD)
qed

lemma block_codec: "json_ok J \<Longrightarrow> codec (blockToJson J) (blockFromJson J) wf_block"
  by unfold_locales (rule blockFromJson_toJson)

lemma createGenesisBlock_wf:
  assumes "crypto_ok C" and "key_pair_ok C kp" and "createGenesisBlock C J kp = Inr b"
  shows "wf_block b"
proof -
  have "length (publicKey kp) = 33"
    using assms(1,2) by (intro length_publicKey [of C]) (simp_all add: crypto_okD)
  then show ?thesis
    using assms(1) createGenesisBlock_Inr [OF assms(3)]
    by (simp add: wf_block_def sized_def size_simps crypto_okD)
qed

end
