(* ===== verification/Consensus.thy ===== *)
theory Consensus
  imports Block
begin

text \<open>
  \<open>core/consensus.hpp\<close> and \<open>core/consensus.cpp\<close>: the proof-of-authority schedule. The
  constructor refuses an empty authority set, so \<open>poa_ok\<close> holds of every object and
  \<open>blockIndex % authorities_.size()\<close> is always in range.
\<close>

record poa_consensus =
  poa_authorities :: "address list"
  poa_lastError :: string

definition newPoAConsensus :: "address list \<Rightarrow> poa_consensus result" where
  "newPoAConsensus authorities =
     (if authorities = []
      then Inl (InvalidArgument (''PoA authority set cannot be empty '' @ [CHR 0xE2, CHR 0x80, CHR 0x94] @
                '' at least one authority is required to produce blocks''))
      else Inr \<lparr>poa_authorities = authorities, poa_lastError = ''''\<rparr>)"

definition getProducer :: "poa_consensus \<Rightarrow> u64 \<Rightarrow> address" where
  "getProducer p blockIndex = poa_authorities p ! (unat blockIndex mod length (poa_authorities p))"

definition isAuthority :: "poa_consensus \<Rightarrow> address \<Rightarrow> bool" where
  "isAuthority p addr \<longleftrightarrow> addr \<in> set (poa_authorities p)"

definition validateBlock :: "poa_consensus \<Rightarrow> block \<Rightarrow> bool \<times> poa_consensus" where
  "validateBlock p b =
     (let expected = getProducer p (blk_index b)
      in if blk_validator b \<noteq> expected
         then (False, p\<lparr>poa_lastError :=
                 ''Wrong block producer for index '' @ to_string (blk_index b) @
                 '': expected '' @ toHex_array expected @ '', got '' @ toHex_array (blk_validator b)\<rparr>)
         else (True, p\<lparr>poa_lastError := ''''\<rparr>))"

definition authorityCount :: "poa_consensus \<Rightarrow> nat" where
  "authorityCount p = length (poa_authorities p)"

definition getAuthorities :: "poa_consensus \<Rightarrow> address list" where
  "getAuthorities p = poa_authorities p"

definition poa_ok :: "poa_consensus \<Rightarrow> bool" where
  "poa_ok p \<longleftrightarrow> poa_authorities p \<noteq> []"

section \<open>Facts\<close>

lemma newPoAConsensus_ok: "newPoAConsensus auths = Inr p \<Longrightarrow> poa_ok p \<and> poa_authorities p = auths"
  by (auto simp: newPoAConsensus_def poa_ok_def split: if_splits)

lemma newPoAConsensus_total: "auths \<noteq> [] \<Longrightarrow> \<exists>p. newPoAConsensus auths = Inr p"
  by (simp add: newPoAConsensus_def)

lemma validateBlock_fst: "fst (validateBlock p b) \<longleftrightarrow> blk_validator b = getProducer p (blk_index b)"
  by (simp add: validateBlock_def Let_def)

lemma validateBlock_authorities [simp]:
  "poa_authorities (snd (validateBlock p b)) = poa_authorities p"
  by (simp add: validateBlock_def Let_def)

lemma getProducer_cong: "poa_authorities p = poa_authorities q \<Longrightarrow> getProducer p i = getProducer q i"
  by (simp add: getProducer_def)

lemma getProducer_isAuthority: "poa_ok p \<Longrightarrow> isAuthority p (getProducer p i)"
  by (simp add: getProducer_def isAuthority_def poa_ok_def)

lemma getProducer_nat:
  "n < 2 ^ 64 \<Longrightarrow> getProducer p (word_of_nat n) = poa_authorities p ! (n mod length (poa_authorities p))"
  by (simp add: getProducer_def unat_of_nat)

text \<open>
  Every window of as many consecutive indices as there are authorities gives each authority
  exactly one turn.
\<close>

lemma window_is_rotation:
  assumes "xs \<noteq> []"
  shows "map (\<lambda>i. xs ! (i mod length xs)) [s..<s + length xs] = rotate s xs"
proof (rule nth_equalityI)
  fix i assume "i < length (map (\<lambda>i. xs ! (i mod length xs)) [s..<s + length xs])"
  then have "i < length xs" by simp
  then show "map (\<lambda>i. xs ! (i mod length xs)) [s..<s + length xs] ! i = rotate s xs ! i"
    by (simp add: nth_rotate)
qed simp

end
