(* ===== verification/Blockchain.thy ===== *)
theory Blockchain
  imports Consensus
begin

text \<open>
  \<open>core/blockchain.hpp\<close> and \<open>core/blockchain.cpp\<close>: the chain manager. The optional
  \<open>PoAConsensus\<close> pointer is an optional value of the record: the node and the chain share
  the object, and only the chain reads or writes its mutable part (the last error). Heights
  and indices are \<open>uint64_t\<close>, so a chain position is compared as a 64-bit word.
\<close>

record blockchain =
  bc_chain :: "block list"
  bc_lastError :: string
  bc_consensus :: "poa_consensus option"

section \<open>Construction\<close>

definition newBlockchain ::
  "crypto_api \<Rightarrow> 'j json_api \<Rightarrow> key_pair \<Rightarrow> blockchain result" where
  "newBlockchain C J genesisValidator =
     bind_e (createGenesisBlock C J genesisValidator) (\<lambda>genesis.
       Inr \<lparr>bc_chain = [genesis], bc_lastError = '''', bc_consensus = None\<rparr>)"

definition newBlockchainPoA ::
  "crypto_api \<Rightarrow> 'j json_api \<Rightarrow> key_pair \<Rightarrow> poa_consensus \<Rightarrow> blockchain result" where
  "newBlockchainPoA C J genesisValidator consensus =
     bind_e (createGenesisBlock C J genesisValidator) (\<lambda>genesis.
       Inr \<lparr>bc_chain = [genesis], bc_lastError = '''', bc_consensus = Some consensus\<rparr>)"

section \<open>Queries\<close>

definition getLatestBlock :: "blockchain \<Rightarrow> block" where
  "getLatestBlock c = last (bc_chain c)"

definition getHeight :: "blockchain \<Rightarrow> u64" where
  "getHeight c = word_of_nat (length (bc_chain c))"

definition getBlock :: "blockchain \<Rightarrow> u64 \<Rightarrow> block result" where
  "getBlock c index =
     (if length (bc_chain c) \<le> unat index
      then Inl (OutOfRange (''Block index '' @ to_string index @ '' out of range (chain height: '' @
                 to_string_nat (length (bc_chain c)) @ '')''))
      else Inr (bc_chain c ! unat index))"

definition findBlockByHash :: "blockchain \<Rightarrow> hash32 \<Rightarrow> block option" where
  "findBlockByHash c h = List.find (\<lambda>b. blk_hash b = h) (bc_chain c)"

fun findTransaction_in :: "block list \<Rightarrow> hash32 \<Rightarrow> transaction option" where
  "findTransaction_in [] h = None"
| "findTransaction_in (b # bs) h =
     (case List.find (\<lambda>tx. tx_hash tx = h) (blk_transactions b) of
        Some tx \<Rightarrow> Some tx
      | None \<Rightarrow> findTransaction_in bs h)"

definition findTransaction :: "blockchain \<Rightarrow> hash32 \<Rightarrow> transaction option" where
  "findTransaction c h = findTransaction_in (bc_chain c) h"

section \<open>Adding a block\<close>

definition addBlock ::
  "crypto_api \<Rightarrow> 'j json_api \<Rightarrow> blockchain \<Rightarrow> block \<Rightarrow> bool \<times> blockchain" where
  "addBlock C J c b =
     (let expectedIndex = getHeight c;
          latestHash = blk_hash (getLatestBlock c)
      in if blk_index b \<noteq> expectedIndex
         then (False, c\<lparr>bc_lastError :=
                 ''Wrong index: expected '' @ to_string expectedIndex @ '', got '' @ to_string (blk_index b)\<rparr>)
         else if blk_previousHash b \<noteq> latestHash
         then (False, c\<lparr>bc_lastError :=
                 ''Previous hash mismatch: expected '' @ toHex_array latestHash @
                 '', got '' @ toHex_array (blk_previousHash b)\<rparr>)
         else if \<not> verifyBlock C J b
         then (False, c\<lparr>bc_lastError := ''Block failed integrity verification (verifyBlock)''\<rparr>)
         else case bc_consensus c of
                None \<Rightarrow> (True, c\<lparr>bc_chain := bc_chain c @ [b], bc_lastError := ''''\<rparr>)
              | Some p \<Rightarrow>
                  let (ok, p') = validateBlock p b
                  in if \<not> ok
                     then (False, c\<lparr>bc_consensus := Some p',
                             bc_lastError := ''PoA violation: '' @ poa_lastError p'\<rparr>)
                     else (True, c\<lparr>bc_consensus := Some p',
                             bc_chain := bc_chain c @ [b], bc_lastError := ''''\<rparr>))"

section \<open>Validating the whole chain\<close>

fun validateLinks :: "crypto_api \<Rightarrow> 'j json_api \<Rightarrow> nat \<Rightarrow> block \<Rightarrow> block list \<Rightarrow> bool" where
  "validateLinks C J i previous [] = True"
| "validateLinks C J i previous (current # rest) =
     (if blk_index current \<noteq> word_of_nat i then False
      else if blk_previousHash current \<noteq> blk_hash previous then False
      else if \<not> verifyBlock C J current then False
      else validateLinks C J (Suc i) current rest)"

definition validateChain :: "crypto_api \<Rightarrow> 'j json_api \<Rightarrow> blockchain \<Rightarrow> bool" where
  "validateChain C J c =
     (case bc_chain c of
        [] \<Rightarrow> False
      | genesis # rest \<Rightarrow>
          (if blk_index genesis \<noteq> 0 then False
           else if blk_previousHash genesis \<noteq> zeroHash then False
           else if \<not> verifyBlock C J genesis then False
           else validateLinks C J 1 genesis rest))"

section \<open>Facts about one step\<close>

definition accepts :: "crypto_api \<Rightarrow> 'j json_api \<Rightarrow> blockchain \<Rightarrow> block \<Rightarrow> bool" where
  "accepts C J c b \<longleftrightarrow>
     blk_index b = getHeight c \<and> blk_previousHash b = blk_hash (getLatestBlock c) \<and>
     verifyBlock C J b \<and>
     (\<forall>p. bc_consensus c = Some p \<longrightarrow> blk_validator b = getProducer p (blk_index b))"

lemma addBlock_fst: "fst (addBlock C J c b) \<longleftrightarrow> accepts C J c b"
proof (cases "bc_consensus c")
  case None
  then show ?thesis by (simp add: addBlock_def accepts_def Let_def)
next
  case (Some p)
  obtain ok p' where v: "validateBlock p b = (ok, p')" by (cases "validateBlock p b")
  then have "ok \<longleftrightarrow> blk_validator b = getProducer p (blk_index b)"
    using validateBlock_fst [of p b] by simp
  with Some v show ?thesis by (simp add: addBlock_def accepts_def Let_def)
qed

lemma addBlock_chain:
  "bc_chain (snd (addBlock C J c b)) = (if accepts C J c b then bc_chain c @ [b] else bc_chain c)"
proof (cases "accepts C J c b")
  case True
  with addBlock_fst have "fst (addBlock C J c b)" by blast
  with True show ?thesis
    by (auto simp: addBlock_def Let_def split: option.splits prod.splits if_splits)
next
  case False
  with addBlock_fst have "\<not> fst (addBlock C J c b)" by blast
  with False show ?thesis
    by (auto simp: addBlock_def Let_def split: option.splits prod.splits if_splits)
qed

lemma addBlock_error:
  "bc_lastError (snd (addBlock C J c b)) = '''' \<longleftrightarrow> accepts C J c b"
  by (auto simp: addBlock_fst [symmetric] addBlock_def Let_def split: option.splits prod.splits if_splits)

lemma addBlock_authorities:
  "map_option poa_authorities (bc_consensus (snd (addBlock C J c b))) =
   map_option poa_authorities (bc_consensus c)"
proof (cases "bc_consensus c")
  case None
  then show ?thesis by (simp add: addBlock_def Let_def)
next
  case (Some p)
  obtain ok p' where v: "validateBlock p b = (ok, p')" by (cases "validateBlock p b")
  then have "poa_authorities p' = poa_authorities p"
    using validateBlock_authorities [of p b] by simp
  with Some v show ?thesis by (simp add: addBlock_def Let_def)
qed

lemma addBlock_True: "accepts C J c b \<Longrightarrow> addBlock C J c b = (True, snd (addBlock C J c b))"
  using addBlock_fst [of C J c b] by (metis prod.collapse)

section \<open>Chains of valid blocks\<close>

text \<open>\<open>validateChain\<close> as a predicate on the list of blocks alone.\<close>

definition valid_blocks :: "crypto_api \<Rightarrow> 'j json_api \<Rightarrow> block list \<Rightarrow> bool" where
  "valid_blocks C J bs =
     validateChain C J \<lparr>bc_chain = bs, bc_lastError = '''', bc_consensus = None\<rparr>"

lemma validateChain_valid_blocks: "validateChain C J c = valid_blocks C J (bc_chain c)"
  by (simp add: valid_blocks_def validateChain_def)

lemma valid_blocks_simps [simp]:
  "valid_blocks C J [] = False"
  "valid_blocks C J (g # bs) \<longleftrightarrow>
     blk_index g = 0 \<and> blk_previousHash g = zeroHash \<and> verifyBlock C J g \<and> validateLinks C J 1 g bs"
  by (simp_all add: valid_blocks_def validateChain_def)

lemma validateLinks_snoc:
  "validateLinks C J i p (bs @ [b]) \<longleftrightarrow>
     validateLinks C J i p bs \<and> blk_index b = word_of_nat (i + length bs) \<and>
     blk_previousHash b = blk_hash (last (p # bs)) \<and> verifyBlock C J b"
  by (induction bs arbitrary: i p) auto

lemma valid_blocks_snoc:
  assumes "bs \<noteq> []"
  shows "valid_blocks C J (bs @ [b]) \<longleftrightarrow>
     valid_blocks C J bs \<and> blk_index b = word_of_nat (length bs) \<and>
     blk_previousHash b = blk_hash (last bs) \<and> verifyBlock C J b"
  using assms by (cases bs) (auto simp: validateLinks_snoc)

lemma valid_blocks_nonempty: "valid_blocks C J bs \<Longrightarrow> bs \<noteq> []"
  by (cases bs) simp_all

lemma valid_blocks_verify: "valid_blocks C J bs \<Longrightarrow> b \<in> set bs \<Longrightarrow> verifyBlock C J b"
proof (induction bs rule: rev_induct)
  case (snoc x bs)
  then show ?case by (cases "bs = []") (auto simp: valid_blocks_snoc)
qed simp

lemma valid_blocks_index:
  "valid_blocks C J bs \<Longrightarrow> i < length bs \<Longrightarrow> blk_index (bs ! i) = word_of_nat i"
proof (induction bs rule: rev_induct)
  case (snoc x bs)
  then show ?case
    by (cases "bs = []") (auto simp: valid_blocks_snoc nth_append less_Suc_eq)
qed simp

lemma valid_blocks_link:
  "valid_blocks C J bs \<Longrightarrow> Suc i < length bs \<Longrightarrow> blk_previousHash (bs ! Suc i) = blk_hash (bs ! i)"
proof (induction bs rule: rev_induct)
  case (snoc x bs)
  then have "bs \<noteq> []" by auto
  with snoc show ?case
    by (auto simp: valid_blocks_snoc nth_append last_nth_minus less_Suc_eq dest: sym)
qed simp

lemma valid_blocks_take: "valid_blocks C J (xs @ ys) \<Longrightarrow> xs \<noteq> [] \<Longrightarrow> valid_blocks C J xs"
proof (induction ys rule: rev_induct)
  case (snoc y ys)
  then show ?case by (simp add: valid_blocks_snoc flip: append_assoc)
qed simp

lemma addBlock_valid_blocks:
  assumes "valid_blocks C J (bc_chain c)"
  shows "valid_blocks C J (bc_chain (snd (addBlock C J c b)))"
  using assms valid_blocks_nonempty [OF assms]
  by (simp add: addBlock_chain accepts_def valid_blocks_snoc getHeight_def getLatestBlock_def)

section \<open>Reachable chains\<close>

inductive chain_reachable :: "crypto_api \<Rightarrow> 'j json_api \<Rightarrow> blockchain \<Rightarrow> bool" for C J where
  reach_plain: "crypto_ok C \<Longrightarrow> key_pair_ok C kp \<Longrightarrow> newBlockchain C J kp = Inr c \<Longrightarrow> chain_reachable C J c"
| reach_poa: "crypto_ok C \<Longrightarrow> key_pair_ok C kp \<Longrightarrow> poa_ok p \<Longrightarrow> newBlockchainPoA C J kp p = Inr c \<Longrightarrow>
    chain_reachable C J c"
| reach_add: "chain_reachable C J c \<Longrightarrow> chain_reachable C J (snd (addBlock C J c b))"

inductive_cases chain_reachableE: "chain_reachable C J c"

lemma newBlockchain_chain:
  "newBlockchain C J kp = Inr c \<Longrightarrow>
     \<exists>g. createGenesisBlock C J kp = Inr g \<and> bc_chain c = [g] \<and> bc_consensus c = None"
  by (auto simp: newBlockchain_def)

lemma newBlockchainPoA_chain:
  "newBlockchainPoA C J kp p = Inr c \<Longrightarrow>
     \<exists>g. createGenesisBlock C J kp = Inr g \<and> bc_chain c = [g] \<and> bc_consensus c = Some p"
  by (auto simp: newBlockchainPoA_def)

lemma newBlockchainPoA_total:
  assumes "crypto_ok C" and "key_pair_ok C kp"
  obtains c where "newBlockchainPoA C J kp p = Inr c"
  using createGenesisBlock_total [OF assms, of J] unfolding newBlockchainPoA_def by (metis bind_e.simps(2))

lemma genesis_valid_blocks:
  assumes "crypto_ok C" and "key_pair_ok C kp" and "createGenesisBlock C J kp = Inr g"
  shows "valid_blocks C J [g]"
  using createGenesisBlock_Inr [OF assms(3)] createGenesisBlock_verifies [OF assms] by simp

lemma chain_reachable_valid: "chain_reachable C J c \<Longrightarrow> valid_blocks C J (bc_chain c)"
proof (induction rule: chain_reachable.induct)
  case (reach_plain kp c)
  then show ?case using newBlockchain_chain [of C J kp c] genesis_valid_blocks by fastforce
next
  case (reach_poa kp p c)
  then show ?case using newBlockchainPoA_chain [of C J kp p c] genesis_valid_blocks by fastforce
qed (rule addBlock_valid_blocks)

text \<open>Every block after genesis comes from the authority the schedule names for its place.\<close>

definition scheduled :: "poa_consensus \<Rightarrow> block list \<Rightarrow> bool" where
  "scheduled p bs \<longleftrightarrow>
     (\<forall>i. 0 < i \<and> i < length bs \<longrightarrow> blk_validator (bs ! i) = getProducer p (word_of_nat i))"

definition chain_scheduled :: "blockchain \<Rightarrow> bool" where
  "chain_scheduled c \<longleftrightarrow> (\<forall>p. bc_consensus c = Some p \<longrightarrow> scheduled p (bc_chain c))"

lemma scheduled_cong: "poa_authorities p = poa_authorities q \<Longrightarrow> scheduled p bs = scheduled q bs"
  using getProducer_cong [of p q] by (simp add: scheduled_def)

lemma addBlock_scheduled:
  assumes "chain_scheduled c"
  shows "chain_scheduled (snd (addBlock C J c b))"
proof (unfold chain_scheduled_def, intro allI impI)
  fix q assume q: "bc_consensus (snd (addBlock C J c b)) = Some q"
  obtain p where p: "bc_consensus c = Some p" "poa_authorities p = poa_authorities q"
    using addBlock_authorities [of C J c b] q by (auto simp: map_option_case split: option.splits)
  have "scheduled p (bc_chain c)" using assms p by (simp add: chain_scheduled_def)
  then have "scheduled p (bc_chain (snd (addBlock C J c b)))"
    using p by (auto simp: addBlock_chain accepts_def scheduled_def nth_append getHeight_def less_Suc_eq)
  with p show "scheduled q (bc_chain (snd (addBlock C J c b)))"
    using scheduled_cong by blast
qed

lemma chain_reachable_scheduled: "chain_reachable C J c \<Longrightarrow> chain_scheduled c"
proof (induction rule: chain_reachable.induct)
  case (reach_plain kp c)
  then show ?case using newBlockchain_chain [of C J kp c] by (auto simp: chain_scheduled_def scheduled_def)
next
  case (reach_poa kp p c)
  then show ?case using newBlockchainPoA_chain [of C J kp p c] by (auto simp: chain_scheduled_def scheduled_def)
qed (rule addBlock_scheduled)

section \<open>What the tip hash commits to\<close>

definition hash_safe :: "crypto_api \<Rightarrow> 'j json_api \<Rightarrow> block \<Rightarrow> block \<Rightarrow> bool" where
  "hash_safe C J a b \<longleftrightarrow>
     \<not> collision C (header_bytes C J a) (header_bytes C J b) \<and>
     \<not> collision C (root_bytes a) (root_bytes b)"

lemma verified_hash_binds:
  assumes "evp_ok C" and "json_ok J" and "verifyBlock C J a" and "verifyBlock C J b"
    and "blk_hash a = blk_hash b" and "hash_safe C J a b"
  shows "header a = header b"
proof (rule computeBlockHash_binds)
  show "computeBlockHash C J a = computeBlockHash C J b"
    using assms(3-5) by (simp add: verifyBlock_iff)
qed (use assms verifyBlock_hash_length in \<open>auto simp: hash_safe_def\<close>)

lemma tip_binds_same_length:
  assumes "evp_ok C" and "json_ok J" and "length as = length bs"
    and "valid_blocks C J as" and "valid_blocks C J bs" and "blk_hash (last as) = blk_hash (last bs)"
    and "\<forall>a\<in>set as. \<forall>b\<in>set bs. hash_safe C J a b"
  shows "map header as = map header bs"
  using assms(3-7)
proof (induction as bs rule: rev_induct2)
  case (4 a as b bs)
  then have V: "verifyBlock C J a" "verifyBlock C J b"
    using valid_blocks_verify [of C J "as @ [a]" a] valid_blocks_verify [of C J "bs @ [b]" b] by simp_all
  have h: "header a = header b"
    using 4 V by (intro verified_hash_binds [OF assms(1,2)]) simp_all
  show ?case
  proof (cases "as = []")
    case False
    then have "bs \<noteq> []" using 4(2) by auto
    then have "map header as = map header bs"
      using 4 False h by (intro 4) (auto simp: valid_blocks_snoc header_def)
    with h show ?thesis by simp
  qed (use 4(2) h in simp)
qed simp_all

lemma tip_binds:
  assumes "evp_ok C" and "json_ok J"
    and "valid_blocks C J as" and "valid_blocks C J bs" and "blk_hash (last as) = blk_hash (last bs)"
    and "length as < 2 ^ 64" and "length bs < 2 ^ 64"
    and "\<forall>a\<in>set as. \<forall>b\<in>set bs. hash_safe C J a b"
  shows "map header as = map header bs"
proof -
  have ne: "as \<noteq> []" "bs \<noteq> []" using assms valid_blocks_nonempty by auto
  have "header (last as) = header (last bs)"
    using assms ne by (intro verified_hash_binds [OF assms(1,2)]) (auto intro: valid_blocks_verify)
  then have "blk_index (last as) = blk_index (last bs)" by (simp add: header_def)
  then have "(word_of_nat (length as - 1) :: u64) = word_of_nat (length bs - 1)"
    using ne valid_blocks_index [OF assms(3), of "length as - 1"]
      valid_blocks_index [OF assms(4), of "length bs - 1"] by (simp add: last_nth_minus)
  then have "unat (word_of_nat (length as - 1) :: u64) = unat (word_of_nat (length bs - 1) :: u64)"
    by simp
  then have "length as - 1 = length bs - 1"
    using assms(6,7) by (simp add: unat_of_nat)
  then have "length as = length bs" using ne by (cases as; cases bs; simp)
  then show ?thesis using assms by (intro tip_binds_same_length) simp_all
qed

section \<open>Lookups\<close>

lemma findTransaction_in_Some:
  "findTransaction_in bs h = Some tx \<Longrightarrow>
     tx_hash tx = h \<and> (\<exists>b\<in>set bs. tx \<in> set (blk_transactions b))"
  by (induction bs) (auto simp: find_Some_iff split: option.splits)

lemma findTransaction_in_None:
  "findTransaction_in bs h = None \<longleftrightarrow>
     (\<forall>b\<in>set bs. \<forall>tx\<in>set (blk_transactions b). tx_hash tx \<noteq> h)"
  by (induction bs) (auto simp: find_None_iff find_Some_iff split: option.splits dest: nth_mem)

lemma findBlockByHash_Some:
  "findBlockByHash c h = Some b \<Longrightarrow> b \<in> set (bc_chain c) \<and> blk_hash b = h"
  by (auto simp: findBlockByHash_def find_Some_iff)

lemma findBlockByHash_None:
  "findBlockByHash c h = None \<longleftrightarrow> (\<forall>b\<in>set (bc_chain c). blk_hash b \<noteq> h)"
  by (auto simp: findBlockByHash_def find_None_iff)

section \<open>Blocks made on the tip\<close>

lemma createBlock_accepts:
  assumes "crypto_ok C" and "key_pair_ok C kp" and "valid_blocks C J (bc_chain c)"
    and "createBlock C J now kp (getLatestBlock c) txs = Inr b"
    and "list_all (verifyTransaction C J) txs"
    and "\<And>p. bc_consensus c = Some p \<Longrightarrow> deriveAddress C (publicKey kp) = getProducer p (getHeight c)"
  shows "accepts C J c b"
proof -
  note b = createBlock_Inr [OF assms(4)]
  have ne: "bc_chain c \<noteq> []" using assms(3) by (rule valid_blocks_nonempty)
  then have "blk_index (getLatestBlock c) = word_of_nat (length (bc_chain c) - 1)"
    using valid_blocks_index [OF assms(3), of "length (bc_chain c) - 1"]
    by (simp add: getLatestBlock_def last_nth_minus)
  then have "blk_index b = word_of_nat (Suc (length (bc_chain c) - 1))"
    by (simp add: b(1))
  then have "blk_index b = getHeight c"
    using ne by (simp add: getHeight_def Suc_diff_1 del: of_nat_Suc)
  then show ?thesis
    using b assms(6) createBlock_verifies [OF assms(1,2,4,5)] by (simp add: accepts_def)
qed

end
