(* ===== verification/State_Manager.thy ===== *)
theory State_Manager
  imports Blockchain "HOL-Library.AList"
begin

text \<open>
  \<open>core/state.hpp\<close> and \<open>core/state.cpp\<close>: account balances and nonces. An
  \<open>unordered_map<Address, V>\<close> is an association list searched with \<open>map_of\<close> and written
  with \<open>AList.update\<close>; the list order stands for the unspecified iteration order, and no
  result here depends on it. Balances and nonces stay at 64 bits, so a credit wraps as the
  source's \<open>+=\<close> does; the theorems say when it cannot. The lemmas give the functional
  behaviour of block application, conservation of the supply, what happens to nonces, and
  the refinement to a ledger over unbounded balances.
\<close>

record account_state =
  acc_balance :: u64
  acc_nonce :: u64

type_synonym accounts = "(address \<times> account_state) list"

record state_manager =
  st_accounts :: accounts
  st_lastError :: string

section \<open>Construction and queries\<close>

definition newStateManager :: "(address \<times> u64) list \<Rightarrow> state_manager" where
  "newStateManager genesisAllocations =
     \<lparr>st_accounts = fold (\<lambda>(a, balance). AList.update a \<lparr>acc_balance = balance, acc_nonce = 0\<rparr>)
        genesisAllocations [],
      st_lastError = ''''\<rparr>"

definition getBalance :: "state_manager \<Rightarrow> address \<Rightarrow> u64" where
  "getBalance s a = (case map_of (st_accounts s) a of None \<Rightarrow> 0 | Some acc \<Rightarrow> acc_balance acc)"

definition getNonce :: "state_manager \<Rightarrow> address \<Rightarrow> u64" where
  "getNonce s a = (case map_of (st_accounts s) a of None \<Rightarrow> 0 | Some acc \<Rightarrow> acc_nonce acc)"

definition accountExists :: "state_manager \<Rightarrow> address \<Rightarrow> bool" where
  "accountExists s a \<longleftrightarrow> map_of (st_accounts s) a \<noteq> None"

definition getAllAccounts :: "state_manager \<Rightarrow> accounts" where
  "getAllAccounts s = st_accounts s"

section \<open>Validation of one transaction\<close>

definition validateTransaction :: "state_manager \<Rightarrow> transaction \<Rightarrow> bool \<times> state_manager" where
  "validateTransaction s tx =
     (case map_of (st_accounts s) (tx_sender tx) of
        None \<Rightarrow> (False, s\<lparr>st_lastError :=
                   ''Sender account does not exist: '' @ toHex_array (tx_sender tx)\<rparr>)
      | Some account \<Rightarrow>
          if acc_balance account < tx_amount tx
          then (False, s\<lparr>st_lastError :=
                  ''Insufficient balance: has '' @ to_string (acc_balance account) @ '' ODM, needs '' @
                  to_string (tx_amount tx) @ '' ODM''\<rparr>)
          else if tx_nonce tx \<noteq> acc_nonce account
          then (False, s\<lparr>st_lastError :=
                  ''Wrong nonce: expected '' @ to_string (acc_nonce account) @ '', got '' @
                  to_string (tx_nonce tx)\<rparr>)
          else (True, s\<lparr>st_lastError := ''''\<rparr>))"

section \<open>Application of a block\<close>

text \<open>\<open>newState[recipient].balance += amount\<close>, creating the entry when it is missing.\<close>

definition credit :: "address \<Rightarrow> u64 \<Rightarrow> accounts \<Rightarrow> accounts" where
  "credit a amount accs =
     (let acc = (case map_of accs a of None \<Rightarrow> \<lparr>acc_balance = 0, acc_nonce = 0\<rparr> | Some acc \<Rightarrow> acc)
      in AList.update a (acc\<lparr>acc_balance := acc_balance acc + amount\<rparr>) accs)"

definition debit :: "address \<Rightarrow> account_state \<Rightarrow> u64 \<Rightarrow> accounts \<Rightarrow> accounts" where
  "debit a acc amount accs =
     AList.update a \<lparr>acc_balance = acc_balance acc - amount, acc_nonce = acc_nonce acc + 1\<rparr> accs"

fun applyTransactions :: "nat \<Rightarrow> accounts \<Rightarrow> transaction list \<Rightarrow> string + accounts" where
  "applyTransactions i newState [] = Inr newState"
| "applyTransactions i newState (tx # txs) =
     (case map_of newState (tx_sender tx) of
        None \<Rightarrow> Inl (''Tx '' @ to_string_nat i @ '': sender does not exist: '' @ toHex_array (tx_sender tx))
      | Some senderAccount \<Rightarrow>
          if acc_balance senderAccount < tx_amount tx
          then Inl (''Tx '' @ to_string_nat i @ '': insufficient balance: has '' @
                 to_string (acc_balance senderAccount) @ '' ODM, needs '' @
                 to_string (tx_amount tx) @ '' ODM'')
          else if tx_nonce tx \<noteq> acc_nonce senderAccount
          then Inl (''Tx '' @ to_string_nat i @ '': wrong nonce: expected '' @
                 to_string (acc_nonce senderAccount) @ '', got '' @ to_string (tx_nonce tx))
          else applyTransactions (Suc i)
                 (credit (tx_recipient tx) (tx_amount tx)
                   (debit (tx_sender tx) senderAccount (tx_amount tx) newState)) txs)"

definition applyBlock :: "state_manager \<Rightarrow> block \<Rightarrow> bool \<times> state_manager" where
  "applyBlock s b =
     (case applyTransactions 0 (st_accounts s) (blk_transactions b) of
        Inl err \<Rightarrow> (False, s\<lparr>st_lastError := err\<rparr>)
      | Inr newState \<Rightarrow> (True, s\<lparr>st_accounts := newState, st_lastError := ''''\<rparr>))"

section \<open>One transaction as a step on the accounts\<close>

definition balance_of :: "accounts \<Rightarrow> address \<Rightarrow> u64" where
  "balance_of accs a = (case map_of accs a of None \<Rightarrow> 0 | Some acc \<Rightarrow> acc_balance acc)"

definition nonce_of :: "accounts \<Rightarrow> address \<Rightarrow> u64" where
  "nonce_of accs a = (case map_of accs a of None \<Rightarrow> 0 | Some acc \<Rightarrow> acc_nonce acc)"

definition known :: "accounts \<Rightarrow> address \<Rightarrow> bool" where
  "known accs a \<longleftrightarrow> map_of accs a \<noteq> None"

definition can_pay :: "accounts \<Rightarrow> transaction \<Rightarrow> bool" where
  "can_pay accs tx \<longleftrightarrow>
     known accs (tx_sender tx) \<and> tx_amount tx \<le> balance_of accs (tx_sender tx) \<and>
     tx_nonce tx = nonce_of accs (tx_sender tx)"

definition transfer :: "accounts \<Rightarrow> transaction \<Rightarrow> accounts" where
  "transfer accs tx =
     credit (tx_recipient tx) (tx_amount tx)
       (debit (tx_sender tx) (the (map_of accs (tx_sender tx))) (tx_amount tx) accs)"

fun run_txs :: "accounts \<Rightarrow> transaction list \<Rightarrow> accounts option" where
  "run_txs accs [] = Some accs"
| "run_txs accs (tx # txs) = (if can_pay accs tx then run_txs (transfer accs tx) txs else None)"

lemma getBalance_accounts: "getBalance s = balance_of (st_accounts s)"
  by (simp add: getBalance_def balance_of_def fun_eq_iff)

lemma getNonce_accounts: "getNonce s = nonce_of (st_accounts s)"
  by (simp add: getNonce_def nonce_of_def fun_eq_iff)

lemma accountExists_accounts: "accountExists s = known (st_accounts s)"
  by (simp add: accountExists_def known_def fun_eq_iff)

lemmas query_accounts = getBalance_accounts getNonce_accounts accountExists_accounts

lemma can_pay_Some:
  "map_of accs (tx_sender tx) = Some acc \<Longrightarrow>
     can_pay accs tx \<longleftrightarrow> \<not> acc_balance acc < tx_amount tx \<and> tx_nonce tx = acc_nonce acc"
  by (simp add: can_pay_def known_def balance_of_def nonce_of_def not_less)

lemma can_pay_None: "map_of accs (tx_sender tx) = None \<Longrightarrow> \<not> can_pay accs tx"
  by (simp add: can_pay_def known_def)

lemma applyTransactions_can:
  assumes "can_pay accs tx"
  shows "applyTransactions i accs (tx # txs) = applyTransactions (Suc i) (transfer accs tx) txs"
proof (cases "map_of accs (tx_sender tx)")
  case (Some acc)
  with assms can_pay_Some [OF Some] show ?thesis by (simp add: transfer_def)
qed (use assms can_pay_None in blast)

lemma applyTransactions_cannot:
  assumes "\<not> can_pay accs tx"
  obtains e where "applyTransactions i accs (tx # txs) = Inl e"
proof (cases "map_of accs (tx_sender tx)")
  case (Some acc)
  with assms can_pay_Some [OF Some] that show ?thesis
    by (cases "acc_balance acc < tx_amount tx") auto
qed (use that in simp)

declare applyTransactions.simps(2) [simp del]

lemma applyTransactions_run:
  "applyTransactions i accs txs = Inr accs' \<longleftrightarrow> run_txs accs txs = Some accs'"
proof (induction txs arbitrary: i accs)
  case (Cons tx txs)
  show ?case
  proof (cases "can_pay accs tx")
    case True
    then show ?thesis by (simp add: applyTransactions_can Cons)
  next
    case False
    then obtain e where "applyTransactions i accs (tx # txs) = Inl e"
      by (rule applyTransactions_cannot)
    with False show ?thesis by simp
  qed
qed simp

lemma applyTransactions_error:
  "(\<exists>e. applyTransactions i accs txs = Inl e) \<longleftrightarrow> run_txs accs txs = None"
  by (metis applyTransactions_run Inl_Inr_False not_None_eq obj_sumE)

lemma applyTransactions_error_text: "applyTransactions i accs txs = Inl e \<Longrightarrow> e \<noteq> ''''"
proof (induction txs arbitrary: i accs)
  case (Cons tx txs)
  then show ?case by (auto simp: applyTransactions.simps(2) split: option.splits if_splits)
qed simp

lemma applyBlock_cases:
  "applyBlock s b =
     (case run_txs (st_accounts s) (blk_transactions b) of
        Some accs \<Rightarrow> (True, s\<lparr>st_accounts := accs, st_lastError := ''''\<rparr>)
      | None \<Rightarrow> (False, s\<lparr>st_lastError := projl (applyTransactions 0 (st_accounts s) (blk_transactions b))\<rparr>))"
proof (cases "run_txs (st_accounts s) (blk_transactions b)")
  case None
  then obtain e where "applyTransactions 0 (st_accounts s) (blk_transactions b) = Inl e"
    using applyTransactions_error by blast
  with None show ?thesis by (simp add: applyBlock_def)
next
  case (Some accs)
  then have "applyTransactions 0 (st_accounts s) (blk_transactions b) = Inr accs"
    by (simp add: applyTransactions_run)
  with Some show ?thesis by (simp add: applyBlock_def)
qed

lemma validateTransaction_fst: "fst (validateTransaction s tx) \<longleftrightarrow> can_pay (st_accounts s) tx"
  by (auto simp: validateTransaction_def can_pay_def known_def balance_of_def nonce_of_def not_le not_less
      split: option.splits)

lemma validateTransaction_accounts [simp]: "st_accounts (snd (validateTransaction s tx)) = st_accounts s"
  by (simp add: validateTransaction_def split: option.splits)

lemma applyBlock_fst:
  "fst (applyBlock s b) \<longleftrightarrow> run_txs (st_accounts s) (blk_transactions b) \<noteq> None"
  by (simp add: applyBlock_cases split: option.splits)

lemma applyBlock_accounts:
  "st_accounts (snd (applyBlock s b)) =
     (case run_txs (st_accounts s) (blk_transactions b) of Some accs \<Rightarrow> accs | None \<Rightarrow> st_accounts s)"
  by (simp add: applyBlock_cases split: option.splits)

lemma run_txs_append:
  "run_txs accs (xs @ ys) = (case run_txs accs xs of None \<Rightarrow> None | Some accs' \<Rightarrow> run_txs accs' ys)"
  by (induction xs arbitrary: accs) auto

section \<open>Effect of a transfer\<close>

lemma map_of_credit:
  "map_of (credit a n accs) =
     (map_of accs)(a \<mapsto> \<lparr>acc_balance = balance_of accs a + n, acc_nonce = nonce_of accs a\<rparr>)"
  by (auto simp: credit_def update_conv' balance_of_def nonce_of_def split: option.splits)

lemma map_of_debit:
  "map_of (debit a acc n accs) =
     (map_of accs)(a \<mapsto> \<lparr>acc_balance = acc_balance acc - n, acc_nonce = acc_nonce acc + 1\<rparr>)"
  by (simp add: debit_def update_conv')

lemma transfer_effect:
  assumes "can_pay accs tx"
  shows "balance_of (transfer accs tx) a =
      balance_of accs a - (if a = tx_sender tx then tx_amount tx else 0) +
      (if a = tx_recipient tx then tx_amount tx else 0)"
    and "nonce_of (transfer accs tx) a = nonce_of accs a + (if a = tx_sender tx then 1 else 0)"
    and "known (transfer accs tx) a \<longleftrightarrow> known accs a \<or> a = tx_recipient tx"
  using assms
  by (auto simp: transfer_def can_pay_def known_def balance_of_def nonce_of_def map_of_credit map_of_debit
      split: option.splits)

section \<open>Supply\<close>

definition total_supply :: "accounts \<Rightarrow> nat" where
  "total_supply accs = sum_list (map (unat \<circ> acc_balance \<circ> snd) accs)"

lemma supply_simps [simp]:
  "total_supply [] = 0"
  "total_supply ((a, acc) # accs) = unat (acc_balance acc) + total_supply accs"
  by (simp_all add: total_supply_def)

lemma balance_of_simps:
  "balance_of [] a = 0"
  "balance_of ((b, acc) # accs) a = (if a = b then acc_balance acc else balance_of accs a)"
  by (simp_all add: balance_of_def)

lemma supply_update:
  "total_supply (AList.update a acc accs) + unat (balance_of accs a) = total_supply accs + unat (acc_balance acc)"
  by (induction accs) (auto simp: balance_of_simps)

lemma balance_le_supply: "unat (balance_of accs a) \<le> total_supply accs"
  by (induction accs) (auto simp: balance_of_simps)

lemma supply_debit:
  assumes "map_of accs a = Some acc" and "n \<le> acc_balance acc"
  shows "total_supply (debit a acc n accs) + unat n = total_supply accs"
proof -
  have "unat n \<le> unat (acc_balance acc)" using assms(2) by (simp add: word_le_nat_alt)
  moreover have "total_supply (debit a acc n accs) + unat (acc_balance acc) = total_supply accs + unat (acc_balance acc - n)"
    using supply_update [of a "\<lparr>acc_balance = acc_balance acc - n, acc_nonce = acc_nonce acc + 1\<rparr>" accs]
      assms(1) by (simp add: debit_def balance_of_def)
  ultimately show ?thesis using assms(2) by (simp add: unat_sub)
qed

lemma supply_credit:
  "total_supply (credit a n accs) + unat (balance_of accs a) = total_supply accs + unat (balance_of accs a + n)"
proof -
  let ?acc = "case map_of accs a of None \<Rightarrow> \<lparr>acc_balance = 0, acc_nonce = 0\<rparr> | Some acc \<Rightarrow> acc"
  have "balance_of accs a = acc_balance ?acc" by (simp add: balance_of_def split: option.splits)
  then show ?thesis
    using supply_update [of a "?acc\<lparr>acc_balance := acc_balance ?acc + n\<rparr>" accs]
    by (simp add: credit_def Let_def)
qed

lemma supply_transfer:
  assumes "can_pay accs tx" and "total_supply accs < 2 ^ 64"
  shows "total_supply (transfer accs tx) = total_supply accs"
proof -
  obtain acc where acc: "map_of accs (tx_sender tx) = Some acc"
    using assms(1) by (auto simp: can_pay_def known_def)
  define mid where "mid = debit (tx_sender tx) acc (tx_amount tx) accs"
  have le: "tx_amount tx \<le> acc_balance acc"
    using assms(1) can_pay_Some [OF acc] by (simp add: not_less)
  have mid: "total_supply mid + unat (tx_amount tx) = total_supply accs"
    unfolding mid_def by (rule supply_debit [OF acc le])
  have "unat (balance_of mid (tx_recipient tx)) + unat (tx_amount tx) < 2 ^ 64"
    using balance_le_supply [of mid "tx_recipient tx"] mid assms(2) by linarith
  then have "unat (balance_of mid (tx_recipient tx) + tx_amount tx) =
      unat (balance_of mid (tx_recipient tx)) + unat (tx_amount tx)"
    by (simp add: unat_word_ariths)
  then show ?thesis
    using supply_credit [of "tx_recipient tx" "tx_amount tx" mid] mid acc
    by (simp add: transfer_def mid_def)
qed

lemma supply_run:
  "run_txs accs txs = Some accs' \<Longrightarrow> total_supply accs < 2 ^ 64 \<Longrightarrow> total_supply accs' = total_supply accs"
  by (induction txs arbitrary: accs) (auto simp: supply_transfer split: if_splits)

section \<open>Nonces\<close>

definition sent_by :: "address \<Rightarrow> transaction list \<Rightarrow> transaction list" where
  "sent_by a txs = filter (\<lambda>tx. tx_sender tx = a) txs"

lemma sent_by_simps [simp]:
  "sent_by a [] = []"
  "sent_by a (tx # txs) = (if tx_sender tx = a then tx # sent_by a txs else sent_by a txs)"
  "sent_by a (xs @ ys) = sent_by a xs @ sent_by a ys"
  by (simp_all add: sent_by_def)

lemma run_nonces:
  "run_txs accs txs = Some accs' \<Longrightarrow>
     nonce_of accs' a = nonce_of accs a + word_of_nat (length (sent_by a txs)) \<and>
     map tx_nonce (sent_by a txs) = map (\<lambda>i. nonce_of accs a + word_of_nat i) [0..<length (sent_by a txs)]"
proof (induction txs arbitrary: accs)
  case (Cons tx txs)
  then have pay: "can_pay accs tx" and run: "run_txs (transfer accs tx) txs = Some accs'"
    by (auto split: if_splits)
  note ih = Cons.IH [OF run]
  show ?case
  proof (cases "tx_sender tx = a")
    case True
    have "tx_nonce tx = nonce_of accs a" using pay True by (simp add: can_pay_def)
    moreover have "[0..<Suc k] = 0 # map Suc [0..<k]" for k
      by (simp add: map_Suc_upt upt_conv_Cons del: upt_Suc)
    ultimately show ?thesis
      using ih True transfer_effect(2) [OF pay, of a] by (simp add: add_ac del: upt_Suc)
  qed (use ih transfer_effect(2) [OF pay, of a] in simp)
qed simp

lemma run_known: "run_txs accs txs = Some accs' \<Longrightarrow> known accs a \<Longrightarrow> known accs' a"
  by (induction txs arbitrary: accs) (auto simp: transfer_effect(3) split: if_splits)

text \<open>
  A transaction that has been applied finds its sender's nonce moved on, and so it stays
  until the 64-bit counter comes round.
\<close>

lemma run_no_replay:
  assumes run: "run_txs accs txs = Some accs'" and tx: "tx \<in> set txs" and bound: "length txs < 2 ^ 64"
  shows "nonce_of accs' (tx_sender tx) \<noteq> tx_nonce tx"
proof -
  let ?a = "tx_sender tx" let ?own = "sent_by (tx_sender tx) txs"
  have len: "length ?own \<le> length txs" by (simp add: sent_by_def)
  have "tx \<in> set ?own" using tx by (simp add: sent_by_def)
  then obtain i where i: "i < length ?own" "?own ! i = tx" by (auto simp: in_set_conv_nth)
  have "map tx_nonce ?own ! i = map (\<lambda>i. nonce_of accs ?a + word_of_nat i) [0..<length ?own] ! i"
    using run_nonces [OF run, of ?a] by simp
  then have "tx_nonce tx = nonce_of accs ?a + word_of_nat i" using i by simp
  moreover have "nonce_of accs' ?a = nonce_of accs ?a + word_of_nat (length ?own)"
    using run_nonces [OF run, of ?a] by simp
  moreover have "(word_of_nat i :: u64) \<noteq> word_of_nat (length ?own)"
  proof
    assume "(word_of_nat i :: u64) = word_of_nat (length ?own)"
    then have "unat (word_of_nat i :: u64) = unat (word_of_nat (length ?own) :: u64)" by simp
    then show False using i(1) len bound by (simp add: unat_of_nat)
  qed
  ultimately show ?thesis by simp
qed

section \<open>The ledger the accounts implement\<close>

text \<open>
  The specification: a transfer moves an unbounded amount from a known sender that has it,
  advances the sender's nonce and makes the recipient known.
\<close>

record ledger =
  led_balance :: "address \<Rightarrow> nat"
  led_nonce :: "address \<Rightarrow> u64"
  led_known :: "address set"

definition ledger_pay :: "ledger \<Rightarrow> transaction \<Rightarrow> ledger option" where
  "ledger_pay l tx =
     (let s = tx_sender tx; n = unat (tx_amount tx); r = tx_recipient tx;
          taken = (led_balance l)(s := led_balance l s - n)
      in if s \<in> led_known l \<and> n \<le> led_balance l s \<and> tx_nonce tx = led_nonce l s
         then Some \<lparr>led_balance = taken(r := taken r + n),
                led_nonce = (led_nonce l)(s := led_nonce l s + 1),
                led_known = insert r (led_known l)\<rparr>
         else None)"

text \<open>Running a partial step over a list, for any kind of state.\<close>

fun run_list :: "('s \<Rightarrow> 'a \<Rightarrow> 's option) \<Rightarrow> 's \<Rightarrow> 'a list \<Rightarrow> 's option" where
  "run_list f s [] = Some s"
| "run_list f s (x # xs) = (case f s x of None \<Rightarrow> None | Some s' \<Rightarrow> run_list f s' xs)"

definition account_pay :: "accounts \<Rightarrow> transaction \<Rightarrow> accounts option" where
  "account_pay accs tx = (if can_pay accs tx then Some (transfer accs tx) else None)"

lemma run_txs_run_list: "run_txs accs txs = run_list account_pay accs txs"
  by (induction txs arbitrary: accs) (simp_all add: account_pay_def)

definition ledger_of :: "accounts \<Rightarrow> ledger" where
  "ledger_of accs =
     \<lparr>led_balance = (\<lambda>a. unat (balance_of accs a)), led_nonce = nonce_of accs,
      led_known = {a. known accs a}\<rparr>"

lemma transfer_balance_nat:
  assumes pay: "can_pay accs tx" and bound: "total_supply accs < 2 ^ 64"
  shows "unat (balance_of (transfer accs tx) a) =
     (if a = tx_sender tx then unat (balance_of accs a) - unat (tx_amount tx) else unat (balance_of accs a)) +
     (if a = tx_recipient tx then unat (tx_amount tx) else 0)"
proof -
  obtain acc where acc: "map_of accs (tx_sender tx) = Some acc"
    using pay by (auto simp: can_pay_def known_def)
  define mid where "mid = debit (tx_sender tx) acc (tx_amount tx) accs"
  have le: "tx_amount tx \<le> acc_balance acc"
    using pay can_pay_Some [OF acc] by (simp add: not_less)
  have bal: "balance_of accs (tx_sender tx) = acc_balance acc" using acc by (simp add: balance_of_def)
  have mid_bal: "balance_of mid a =
      (if a = tx_sender tx then acc_balance acc - tx_amount tx else balance_of accs a)"
    by (simp add: mid_def balance_of_def map_of_debit)
  have "unat (balance_of mid a) + unat (tx_amount tx) < 2 ^ 64"
    using balance_le_supply [of mid a] supply_debit [OF acc le] bound by (simp add: mid_def)
  then have "unat (balance_of mid a + tx_amount tx) = unat (balance_of mid a) + unat (tx_amount tx)"
    by (simp add: unat_word_ariths)
  moreover have "balance_of (transfer accs tx) a =
      balance_of mid a + (if a = tx_recipient tx then tx_amount tx else 0)"
    using acc by (simp add: transfer_def mid_def balance_of_def map_of_credit)
  ultimately show ?thesis
    using le bal by (auto simp: mid_bal unat_sub)
qed

lemma account_pay_refines:
  assumes bound: "total_supply accs < 2 ^ 64"
  shows "map_option ledger_of (account_pay accs tx) = ledger_pay (ledger_of accs) tx"
proof (cases "can_pay accs tx")
  case True
  have "ledger_of (transfer accs tx) = the (ledger_pay (ledger_of accs) tx)"
    using True transfer_effect(2,3) [OF True] transfer_balance_nat [OF True bound]
    by (auto simp: ledger_of_def ledger_pay_def Let_def can_pay_def word_le_nat_alt fun_eq_iff)
  moreover have "ledger_pay (ledger_of accs) tx \<noteq> None"
    using True by (simp add: ledger_of_def ledger_pay_def Let_def can_pay_def word_le_nat_alt)
  ultimately show ?thesis using True by (auto simp: account_pay_def)
next
  case False
  then have "ledger_pay (ledger_of accs) tx = None"
    by (auto simp: ledger_of_def ledger_pay_def Let_def can_pay_def word_le_nat_alt)
  with False show ?thesis by (simp add: account_pay_def)
qed

lemma run_txs_refines:
  "total_supply accs < 2 ^ 64 \<Longrightarrow>
     map_option ledger_of (run_txs accs txs) = run_list ledger_pay (ledger_of accs) txs"
proof (induction txs arbitrary: accs)
  case (Cons tx txs)
  have step: "ledger_pay (ledger_of accs) tx = map_option ledger_of (account_pay accs tx)"
    using account_pay_refines [OF Cons.prems] by simp
  show ?case
    using Cons.IH [of "transfer accs tx"] Cons.prems supply_transfer [of accs tx]
    by (simp add: step account_pay_def)
qed simp

section \<open>What a client may rely on\<close>

text \<open>
  The contract between the pool and the state: a payment goes through exactly when the
  sender is known, has the amount and uses its next nonce; it takes no more than the amount
  from the sender, nothing from anyone else, and advances no other nonce. Any list whose
  per-sender parts are consecutive and affordable then goes through as a whole.
\<close>

definition affordable ::
  "('s \<Rightarrow> address \<Rightarrow> bool) \<Rightarrow> ('s \<Rightarrow> address \<Rightarrow> nat) \<Rightarrow> ('s \<Rightarrow> address \<Rightarrow> u64) \<Rightarrow> 's \<Rightarrow> transaction list \<Rightarrow> bool" where
  "affordable kn bal non s txs \<longleftrightarrow>
     (\<forall>a. sent_by a txs \<noteq> [] \<longrightarrow>
        kn s a \<and> sum_list (map (unat \<circ> tx_amount) (sent_by a txs)) \<le> bal s a \<and>
        map tx_nonce (sent_by a txs) = map (\<lambda>i. non s a + word_of_nat i) [0..<length (sent_by a txs)])"

locale payable_ledger =
  fixes kn :: "'s \<Rightarrow> address \<Rightarrow> bool"
    and bal :: "'s \<Rightarrow> address \<Rightarrow> nat"
    and non :: "'s \<Rightarrow> address \<Rightarrow> u64"
    and pay :: "'s \<Rightarrow> transaction \<Rightarrow> 's option"
    and good :: "'s \<Rightarrow> bool"
  assumes pay_defined: "good s \<Longrightarrow> kn s (tx_sender tx) \<Longrightarrow> unat (tx_amount tx) \<le> bal s (tx_sender tx) \<Longrightarrow>
      tx_nonce tx = non s (tx_sender tx) \<Longrightarrow> pay s tx \<noteq> None"
    and pay_good: "good s \<Longrightarrow> pay s tx = Some s' \<Longrightarrow> good s'"
    and pay_known: "good s \<Longrightarrow> pay s tx = Some s' \<Longrightarrow> kn s a \<Longrightarrow> kn s' a"
    and pay_nonce: "good s \<Longrightarrow> pay s tx = Some s' \<Longrightarrow> non s' a = non s a + (if a = tx_sender tx then 1 else 0)"
    and pay_balance: "good s \<Longrightarrow> pay s tx = Some s' \<Longrightarrow>
      bal s a \<le> bal s' a + (if a = tx_sender tx then unat (tx_amount tx) else 0)"
begin

lemma affordable_Cons:
  assumes "good s" and "affordable kn bal non s (tx # txs)"
  obtains s' where "pay s tx = Some s'" and "good s'" and "affordable kn bal non s' txs"
proof -
  have upt: "[0..<Suc k] = 0 # map Suc [0..<k]" for k
    by (simp add: map_Suc_upt upt_conv_Cons del: upt_Suc)
  have own: "kn s a" "sum_list (map (unat \<circ> tx_amount) (sent_by a (tx # txs))) \<le> bal s a"
    "map tx_nonce (sent_by a (tx # txs)) =
       map (\<lambda>i. non s a + word_of_nat i) [0..<length (sent_by a (tx # txs))]"
    if "sent_by a (tx # txs) \<noteq> []" for a
    using assms(2) that unfolding affordable_def by blast+
  have "pay s tx \<noteq> None"
    using own [of "tx_sender tx"] by (intro pay_defined assms) (auto simp: upt simp del: upt_Suc)
  then obtain s' where s': "pay s tx = Some s'" by auto
  note laws = pay_known [OF assms(1) s'] pay_nonce [OF assms(1) s'] pay_balance [OF assms(1) s']
  have "affordable kn bal non s' txs"
    unfolding affordable_def
  proof (intro allI impI conjI)
    fix a assume a: "sent_by a txs \<noteq> []"
    then have ne: "sent_by a (tx # txs) \<noteq> []" by simp
    show "kn s' a" using own(1) [OF ne] laws(1) by blast
    show "sum_list (map (unat \<circ> tx_amount) (sent_by a txs)) \<le> bal s' a"
      using own(2) [OF ne] laws(3) [of a] by (cases "a = tx_sender tx") auto
    show "map tx_nonce (sent_by a txs) = map (\<lambda>i. non s' a + word_of_nat i) [0..<length (sent_by a txs)]"
      using own(3) [OF ne] laws(2) [of a]
      by (cases "a = tx_sender tx") (auto simp: upt add_ac simp del: upt_Suc)
  qed
  with that s' pay_good [OF assms(1) s'] show ?thesis by blast
qed

lemma affordable_runs:
  "good s \<Longrightarrow> affordable kn bal non s txs \<Longrightarrow> \<exists>s'. run_list pay s txs = Some s' \<and> good s'"
proof (induction txs arbitrary: s)
  case (Cons tx txs)
  then obtain s' where "pay s tx = Some s'" "good s'" "affordable kn bal non s' txs"
    using affordable_Cons by blast
  with Cons.IH [of s'] show ?case by simp
qed simp

lemma affordable_after:
  "good s \<Longrightarrow> affordable kn bal non s (xs @ ys) \<Longrightarrow> run_list pay s xs = Some s' \<Longrightarrow>
     affordable kn bal non s' ys"
proof (induction xs arbitrary: s)
  case (Cons x xs)
  then obtain t where "pay s x = Some t" "good t" "affordable kn bal non t (xs @ ys)"
    using affordable_Cons [of s x "xs @ ys"] by auto
  with Cons.IH [of t] Cons.prems(3) show ?case by simp
qed simp

lemma run_spent:
  "good s \<Longrightarrow> run_list pay s txs = Some s' \<Longrightarrow> bal s a \<le> bal s' a + sum_list (map (unat \<circ> tx_amount) (sent_by a txs))"
proof (induction txs arbitrary: s)
  case (Cons tx txs)
  then obtain t where t: "pay s tx = Some t" "run_list pay t txs = Some s'" by (auto split: option.splits)
  show ?case
    using pay_balance [OF Cons.prems(1) t(1), of a] Cons.IH [OF pay_good [OF Cons.prems(1) t(1)] t(2)] by auto
qed simp

end

interpretation accounts_ledger: payable_ledger known "\<lambda>accs a. unat (balance_of accs a)" nonce_of account_pay
  "\<lambda>accs. total_supply accs < 2 ^ 64"
proof unfold_locales
  fix accs tx accs' a
  assume good: "total_supply accs < 2 ^ 64" and "account_pay accs tx = Some accs'"
  then have pay: "can_pay accs tx" and accs': "accs' = transfer accs tx"
    by (auto simp: account_pay_def split: if_splits)
  show "total_supply accs' < 2 ^ 64" using good pay accs' by (simp add: supply_transfer)
  show "known accs' a" if "known accs a" using that pay accs' by (simp add: transfer_effect)
  show "nonce_of accs' a = nonce_of accs a + (if a = tx_sender tx then 1 else 0)"
    using pay accs' by (simp add: transfer_effect)
  show "unat (balance_of accs a) \<le> unat (balance_of accs' a) + (if a = tx_sender tx then unat (tx_amount tx) else 0)"
    using transfer_balance_nat [OF pay good, of a] accs' by auto
qed (simp add: account_pay_def can_pay_def word_le_nat_alt)

interpretation spec_ledger: payable_ledger "\<lambda>l a. a \<in> led_known l" led_balance led_nonce ledger_pay "\<lambda>_. True"
  by unfold_locales (auto simp: ledger_pay_def Let_def split: if_splits)

end
