(* ===== verification/Mempool.thy ===== *)
theory Mempool
  imports State_Manager "HOL-Library.Multiset" "HOL-Library.Product_Lexorder"
begin

text \<open>
  \<open>core/mempool.hpp\<close> and \<open>core/mempool.cpp\<close>: pending transactions. The reference to the
  \<open>StateManager\<close> is an argument of every operation that reads it. The three hash maps are
  association lists whose order stands for the unspecified iteration order;
  \<open>std::sort\<close> is a sort by the comparator's key, and the invariant excludes ties, the only
  case in which the standard leaves its result open. The lemmas give the pool's invariant,
  that a selection is payable in the state it was made for, and what revalidation keeps.
\<close>

record mempool =
  mp_pending :: "(hash32 \<times> transaction) list"
  mp_pendingNonces :: "(address \<times> u64) list"
  mp_pendingBalances :: "(address \<times> u64) list"
  mp_lastError :: string

definition newMempool :: mempool where
  "newMempool = \<lparr>mp_pending = [], mp_pendingNonces = [], mp_pendingBalances = [], mp_lastError = ''''\<rparr>"

section \<open>Queries\<close>

definition pool_size :: "mempool \<Rightarrow> nat" where
  "pool_size p = length (mp_pending p)"

definition contains :: "mempool \<Rightarrow> hash32 \<Rightarrow> bool" where
  "contains p h \<longleftrightarrow> map_of (mp_pending p) h \<noteq> None"

definition getPendingNonce :: "state_manager \<Rightarrow> mempool \<Rightarrow> address \<Rightarrow> u64" where
  "getPendingNonce s p a =
     (case map_of (mp_pendingNonces p) a of Some n \<Rightarrow> n | None \<Rightarrow> getNonce s a)"

definition getPendingBalance :: "state_manager \<Rightarrow> mempool \<Rightarrow> address \<Rightarrow> u64" where
  "getPendingBalance s p a =
     (case map_of (mp_pendingBalances p) a of Some b \<Rightarrow> b | None \<Rightarrow> getBalance s a)"

section \<open>Adding a transaction\<close>

definition addTransaction ::
  "crypto_api \<Rightarrow> 'j json_api \<Rightarrow> state_manager \<Rightarrow> mempool \<Rightarrow> transaction \<Rightarrow> bool \<times> mempool" where
  "addTransaction C J s p tx =
     (if \<not> verifyTransaction C J tx
      then (False, p\<lparr>mp_lastError := ''Invalid transaction signature''\<rparr>)
      else if map_of (mp_pending p) (tx_hash tx) \<noteq> None
      then (False, p\<lparr>mp_lastError := ''Duplicate transaction: '' @ toHex_array (tx_hash tx)\<rparr>)
      else if \<not> accountExists s (tx_sender tx)
      then (False, p\<lparr>mp_lastError := ''Sender account does not exist: '' @ toHex_array (tx_sender tx)\<rparr>)
      else
        let expectedNonce = (case map_of (mp_pendingNonces p) (tx_sender tx) of
                Some n \<Rightarrow> n | None \<Rightarrow> getNonce s (tx_sender tx));
            availableBalance = (case map_of (mp_pendingBalances p) (tx_sender tx) of
                Some b \<Rightarrow> b | None \<Rightarrow> getBalance s (tx_sender tx))
        in if tx_nonce tx \<noteq> expectedNonce
           then (False, p\<lparr>mp_lastError :=
                   ''Wrong nonce: expected '' @ to_string expectedNonce @ '', got '' @ to_string (tx_nonce tx)\<rparr>)
           else if availableBalance < tx_amount tx
           then (False, p\<lparr>mp_lastError :=
                   ''Insufficient pending balance: has '' @ to_string availableBalance @
                   '' ODM available, needs '' @ to_string (tx_amount tx) @ '' ODM''\<rparr>)
           else (True, p\<lparr>mp_pendingNonces := AList.update (tx_sender tx) (tx_nonce tx + 1) (mp_pendingNonces p),
                   mp_pendingBalances :=
                     AList.update (tx_sender tx) (availableBalance - tx_amount tx) (mp_pendingBalances p),
                   mp_pending := AList.update (tx_hash tx) tx (mp_pending p),
                   mp_lastError := ''''\<rparr>))"

section \<open>Selection, removal, revalidation\<close>

text \<open>The comparator of both \<open>std::sort\<close> calls compares these keys.\<close>

definition sort_key_of :: "transaction \<Rightarrow> address \<times> u64" where
  "sort_key_of tx = (tx_sender tx, tx_nonce tx)"

definition getTransactionsForBlock :: "mempool \<Rightarrow> nat \<Rightarrow> transaction list" where
  "getTransactionsForBlock p maxCount =
     (let transactions = sort_key sort_key_of (map snd (mp_pending p))
      in if maxCount < length transactions then take maxCount transactions else transactions)"

definition removeMinedTransactions :: "mempool \<Rightarrow> block \<Rightarrow> mempool" where
  "removeMinedTransactions p b =
     p\<lparr>mp_pending := fold (\<lambda>tx. AList.delete (tx_hash tx)) (blk_transactions b) (mp_pending p)\<rparr>"

definition readd :: "crypto_api \<Rightarrow> 'j json_api \<Rightarrow> state_manager \<Rightarrow> transaction list \<Rightarrow> mempool \<Rightarrow> mempool" where
  "readd C J s txs p = fold (\<lambda>tx q. snd (addTransaction C J s q tx)) txs p"

definition revalidate :: "crypto_api \<Rightarrow> 'j json_api \<Rightarrow> state_manager \<Rightarrow> mempool \<Rightarrow> nat \<times> mempool" where
  "revalidate C J s p =
     (let savedTxs = map snd (mp_pending p);
          beforeCount = length savedTxs;
          cleared = p\<lparr>mp_pending := [], mp_pendingNonces := [], mp_pendingBalances := [], mp_lastError := ''''\<rparr>;
          p' = readd C J s (sort_key sort_key_of savedTxs) cleared
      in (beforeCount - length (mp_pending p'), p'))"

section \<open>The invariant\<close>

definition pooled :: "mempool \<Rightarrow> transaction list" where
  "pooled p = map snd (mp_pending p)"

text \<open>
  For every sender: the pending transactions use the next nonces, one each; the pending
  nonce is the one after them; the pending balance is what they leave of the confirmed one.
\<close>

definition sender_ok :: "state_manager \<Rightarrow> mempool \<Rightarrow> address \<Rightarrow> bool" where
  "sender_ok s p a \<longleftrightarrow>
     (let own = sent_by a (pooled p); n0 = unat (getNonce s a)
      in (own \<noteq> [] \<longrightarrow> accountExists s a) \<and>
         mset (map (unat \<circ> tx_nonce) own) = mset [n0..<n0 + length own] \<and>
         unat (getPendingNonce s p a) = n0 + length own \<and>
         unat (getPendingBalance s p a) + sum_list (map (unat \<circ> tx_amount) own) = unat (getBalance s a))"

definition pool_ok :: "crypto_api \<Rightarrow> 'j json_api \<Rightarrow> state_manager \<Rightarrow> mempool \<Rightarrow> bool" where
  "pool_ok C J s p \<longleftrightarrow>
     distinct (map fst (mp_pending p)) \<and>
     (\<forall>(h, tx) \<in> set (mp_pending p). h = tx_hash tx \<and> verifyTransaction C J tx) \<and>
     (\<forall>a. sender_ok s p a)"

text \<open>What \<open>addTransaction\<close> does with a transaction it accepts.\<close>

definition admissible :: "state_manager \<Rightarrow> mempool \<Rightarrow> transaction \<Rightarrow> bool" where
  "admissible s p tx \<longleftrightarrow>
     accountExists s (tx_sender tx) \<and> tx_amount tx \<le> getPendingBalance s p (tx_sender tx) \<and>
     tx_nonce tx = getPendingNonce s p (tx_sender tx)"

definition admit :: "state_manager \<Rightarrow> mempool \<Rightarrow> transaction \<Rightarrow> mempool" where
  "admit s p tx =
     p\<lparr>mp_pendingNonces := AList.update (tx_sender tx) (tx_nonce tx + 1) (mp_pendingNonces p),
       mp_pendingBalances :=
         AList.update (tx_sender tx) (getPendingBalance s p (tx_sender tx) - tx_amount tx) (mp_pendingBalances p),
       mp_pending := AList.update (tx_hash tx) tx (mp_pending p), mp_lastError := ''''\<rparr>"

lemma addTransaction_accept:
  "verifyTransaction C J tx \<Longrightarrow> \<not> contains p (tx_hash tx) \<Longrightarrow> admissible s p tx \<Longrightarrow>
     addTransaction C J s p tx = (True, admit s p tx)"
  by (simp add: addTransaction_def contains_def admissible_def admit_def Let_def
      getPendingNonce_def getPendingBalance_def not_less)

lemma addTransaction_fst:
  "fst (addTransaction C J s p tx) \<longleftrightarrow>
     verifyTransaction C J tx \<and> \<not> contains p (tx_hash tx) \<and> admissible s p tx"
  by (auto simp: addTransaction_def contains_def admissible_def Let_def
      getPendingNonce_def getPendingBalance_def not_less dest: leD)

lemma addTransaction_reject:
  "\<not> fst (addTransaction C J s p tx) \<Longrightarrow>
     \<exists>e. e \<noteq> '''' \<and> addTransaction C J s p tx = (False, p\<lparr>mp_lastError := e\<rparr>)"
  by (auto simp: addTransaction_def Let_def split: if_splits)

lemma addTransaction_cases:
  obtains (accept) "fst (addTransaction C J s p tx)" "snd (addTransaction C J s p tx) = admit s p tx"
  | (reject) e where "\<not> fst (addTransaction C J s p tx)"
      "snd (addTransaction C J s p tx) = p\<lparr>mp_lastError := e\<rparr>"
  using addTransaction_reject addTransaction_accept addTransaction_fst by (metis snd_conv)

section \<open>Adding keeps the invariant\<close>

lemma update_new: "map_of xs k = None \<Longrightarrow> AList.update k v xs = xs @ [(k, v)]"
  by (induction xs) auto

lemma admit_effect:
  assumes "\<not> contains p (tx_hash tx)"
  shows "mp_pending (admit s p tx) = mp_pending p @ [(tx_hash tx, tx)]"
    and "pooled (admit s p tx) = pooled p @ [tx]"
  using assms by (simp_all add: admit_def contains_def update_new pooled_def)

lemma admit_pending:
  "getPendingNonce s (admit s p tx) a =
     (if a = tx_sender tx then tx_nonce tx + 1 else getPendingNonce s p a)"
  "getPendingBalance s (admit s p tx) a =
     (if a = tx_sender tx then getPendingBalance s p a - tx_amount tx else getPendingBalance s p a)"
  by (auto simp: getPendingNonce_def getPendingBalance_def admit_def update_conv')

lemma error_update [simp]:
  "pooled (p\<lparr>mp_lastError := e\<rparr>) = pooled p"
  "getPendingNonce s (p\<lparr>mp_lastError := e\<rparr>) = getPendingNonce s p"
  "getPendingBalance s (p\<lparr>mp_lastError := e\<rparr>) = getPendingBalance s p"
  "sender_ok s (p\<lparr>mp_lastError := e\<rparr>) = sender_ok s p"
  "pool_ok C J s (p\<lparr>mp_lastError := e\<rparr>) = pool_ok C J s p"
  by (simp_all add: pooled_def getPendingNonce_def getPendingBalance_def sender_ok_def pool_ok_def fun_eq_iff)

lemma unat_plus_one: "x \<noteq> - 1 \<Longrightarrow> unat (x + 1 :: u64) = Suc (unat x)"
  by (metis unat_1 Suc_eq_plus1_left add.commute add.inverse_inverse add_eq_0_iff2 unatSuc)

lemma admit_sender_ok:
  assumes ok: "sender_ok s p a" and adm: "admissible s p tx" and fresh: "\<not> contains p (tx_hash tx)"
    and room: "tx_nonce tx \<noteq> - 1"
  shows "sender_ok s (admit s p tx) a"
proof (cases "a = tx_sender tx")
  case True
  let ?own = "sent_by a (pooled p)" let ?n0 = "unat (getNonce s a)"
  have exists: "accountExists s a" and amt: "tx_amount tx \<le> getPendingBalance s p a"
    and non: "tx_nonce tx = getPendingNonce s p a"
    using adm True by (simp_all add: admissible_def)
  have nonces: "mset (map (unat \<circ> tx_nonce) ?own) = mset [?n0..<?n0 + length ?own]"
    and following: "unat (getPendingNonce s p a) = ?n0 + length ?own"
    and left: "unat (getPendingBalance s p a) + sum_list (map (unat \<circ> tx_amount) ?own) = unat (getBalance s a)"
    using ok by (simp_all add: sender_ok_def Let_def del: mset_upt)
  have "unat (getPendingBalance s p a - tx_amount tx) + unat (tx_amount tx) = unat (getPendingBalance s p a)"
    using amt by (simp add: unat_sub word_le_nat_alt)
  then show ?thesis
    using exists nonces following left non room True
    by (simp add: sender_ok_def Let_def admit_effect [OF fresh] admit_pending unat_plus_one del: mset_upt)
next
  case False
  then show ?thesis
    using ok by (simp add: sender_ok_def admit_effect [OF fresh] admit_pending)
qed

lemma addTransaction_pool_ok:
  assumes ok: "pool_ok C J s p" and room: "tx_nonce tx \<noteq> - 1"
  shows "pool_ok C J s (snd (addTransaction C J s p tx))"
proof (cases rule: addTransaction_cases [of C J s p tx])
  case accept
  then have tx: "verifyTransaction C J tx" "\<not> contains p (tx_hash tx)" "admissible s p tx"
    using addTransaction_fst by blast+
  have "tx_hash tx \<notin> fst ` set (mp_pending p)"
    using tx(2) by (simp add: contains_def map_of_eq_None_iff)
  then show ?thesis
    using ok tx accept admit_sender_ok [OF _ tx(3,2) room]
    by (auto simp: pool_ok_def admit_effect [OF tx(2)])
next
  case (reject e)
  with ok show ?thesis by simp
qed

lemma pool_ok_empty:
  "mp_pending p = [] \<Longrightarrow> mp_pendingNonces p = [] \<Longrightarrow> mp_pendingBalances p = [] \<Longrightarrow> pool_ok C J s p"
  by (simp add: pool_ok_def sender_ok_def pooled_def getPendingNonce_def getPendingBalance_def)

lemma readd_Nil [simp]: "readd C J s [] p = p"
  and readd_Cons [simp]: "readd C J s (tx # txs) p = readd C J s txs (snd (addTransaction C J s p tx))"
  by (simp_all add: readd_def)

lemma readd_pool_ok:
  "pool_ok C J s p \<Longrightarrow> \<forall>tx\<in>set txs. tx_nonce tx \<noteq> - 1 \<Longrightarrow> pool_ok C J s (readd C J s txs p)"
  by (induction txs arbitrary: p) (simp_all add: addTransaction_pool_ok)

lemma readd_subset: "set (pooled (readd C J s txs p)) \<subseteq> set (pooled p) \<union> set txs"
proof (induction txs arbitrary: p)
  case (Cons tx txs)
  have "set (pooled (snd (addTransaction C J s p tx))) \<subseteq> insert tx (set (pooled p))"
  proof (cases rule: addTransaction_cases [of C J s p tx])
    case accept
    then have "\<not> contains p (tx_hash tx)" using addTransaction_fst by blast
    with accept show ?thesis by (simp add: admit_effect)
  qed auto
  with Cons.IH [of "snd (addTransaction C J s p tx)"] show ?case by auto
qed simp

lemma revalidate_snd:
  "snd (revalidate C J s p) =
     readd C J s (sort_key sort_key_of (pooled p))
       (p\<lparr>mp_pending := [], mp_pendingNonces := [], mp_pendingBalances := [], mp_lastError := ''''\<rparr>)"
  by (simp add: revalidate_def pooled_def Let_def)

lemma revalidate_pool_ok:
  "\<forall>tx\<in>set (pooled p). tx_nonce tx \<noteq> - 1 \<Longrightarrow> pool_ok C J s (snd (revalidate C J s p))"
  unfolding revalidate_snd by (intro readd_pool_ok pool_ok_empty) simp_all

section \<open>A selection is payable\<close>

lemma getTransactionsForBlock_take:
  "getTransactionsForBlock p m = take m (sort_key sort_key_of (pooled p))"
  by (simp add: getTransactionsForBlock_def pooled_def Let_def)

lemma filter_take_prefix: "\<exists>k. filter P (take m xs) = take k (filter P xs)"
proof (induction xs arbitrary: m)
  case (Cons x xs)
  show ?case
  proof (cases m)
    case (Suc n)
    obtain k where "filter P (take n xs) = take k (filter P xs)" using Cons by blast
    then show ?thesis using Suc by (cases "P x") (auto intro: exI [of _ "Suc k"] exI [of _ k])
  qed simp
qed simp

lemma sorted_own_nonces:
  assumes "sender_ok s p a"
  defines "own \<equiv> sent_by a (sort_key sort_key_of (pooled p))"
  shows "map tx_nonce own = map (\<lambda>i. getNonce s a + word_of_nat i) [0..<length own]"
    and "mset own = mset (sent_by a (pooled p))"
proof -
  let ?n0 = "unat (getNonce s a)" let ?raw = "sent_by a (pooled p)"
  have own: "own = sort_key sort_key_of ?raw"
    by (simp add: own_def sent_by_def filter_sort)
  show same: "mset own = mset ?raw" by (simp add: own)
  then have len: "length own = length ?raw" by (rule mset_eq_length)
  have "sorted (map sort_key_of own)" by (simp add: own)
  then have "sorted_wrt (\<lambda>x y. sort_key_of x \<le> sort_key_of y) own"
    by (simp add: sorted_wrt_map)
  then have "sorted_wrt (\<lambda>x y. (unat \<circ> tx_nonce) x \<le> (unat \<circ> tx_nonce) y) own"
    by (rule sorted_wrt_mono_rel [rotated])
      (auto simp: sort_key_of_def own_def sent_by_def less_eq_prod_def word_le_nat_alt)
  then have "sorted (map (unat \<circ> tx_nonce) own)" by (simp add: sorted_wrt_map)
  moreover have "mset (map (unat \<circ> tx_nonce) own) = mset [?n0..<?n0 + length ?raw]"
    using assms(1) same by (simp add: sender_ok_def Let_def del: mset_upt)
  ultimately have "sort [?n0..<?n0 + length ?raw] = map (unat \<circ> tx_nonce) own"
    by (intro properties_for_sort) simp_all
  then have nats: "map (unat \<circ> tx_nonce) own = [?n0..<?n0 + length own]"
    by (simp add: len sorted_sort_id)
  have "map tx_nonce own = map word_of_nat (map (unat \<circ> tx_nonce) own)"
    by (simp add: o_def)
  also have "\<dots> = map (\<lambda>i. getNonce s a + word_of_nat i) [0..<length own]"
    unfolding nats by (rule nth_equalityI) simp_all
  finally show "map tx_nonce own = map (\<lambda>i. getNonce s a + word_of_nat i) [0..<length own]" .
qed

abbreviation confirmed_affordable :: "state_manager \<Rightarrow> transaction list \<Rightarrow> bool" where
  "confirmed_affordable s txs \<equiv>
     affordable known (\<lambda>accs a. unat (balance_of accs a)) nonce_of (st_accounts s) txs"

lemma sum_take_le: "sum_list (map f (take k xs)) \<le> (sum_list (map f xs) :: nat)"
  by (metis append_take_drop_id le_add1 map_append sum_list_append)

lemma sorted_pool_affordable:
  assumes "pool_ok C J s p"
  shows "confirmed_affordable s (take m (sort_key sort_key_of (pooled p)))"
  unfolding affordable_def
proof (intro allI impI)
  fix a
  let ?L = "sort_key sort_key_of (pooled p)"
  assume ne: "sent_by a (take m ?L) \<noteq> []"
  have ok: "sender_ok s p a" using assms by (simp add: pool_ok_def)
  note own = sorted_own_nonces [OF ok]
  obtain k where k: "sent_by a (take m ?L) = take k (sent_by a ?L)"
    using filter_take_prefix [of "\<lambda>tx. tx_sender tx = a" m ?L] by (auto simp: sent_by_def)
  have "sent_by a ?L \<noteq> []" using ne k by auto
  then have "sent_by a (pooled p) \<noteq> []" using own(2) by auto
  then have "known (st_accounts s) a"
    using ok by (simp add: sender_ok_def Let_def accountExists_accounts)
  moreover have "sum_list (map (unat \<circ> tx_amount) (sent_by a ?L)) =
      sum_list (map (unat \<circ> tx_amount) (sent_by a (pooled p)))"
    using own(2) by (metis mset_map sum_mset_sum_list)
  then have "sum_list (map (unat \<circ> tx_amount) (sent_by a ?L)) \<le> unat (balance_of (st_accounts s) a)"
    using ok by (simp add: sender_ok_def Let_def getBalance_accounts)
  then have "sum_list (map (unat \<circ> tx_amount) (take k (sent_by a ?L))) \<le> unat (balance_of (st_accounts s) a)"
    using sum_take_le le_trans by blast
  moreover have "map tx_nonce (take k (sent_by a ?L)) =
      map (\<lambda>i. nonce_of (st_accounts s) a + word_of_nat i) [0..<length (take k (sent_by a ?L))]"
  proof -
    have "map tx_nonce (take k (sent_by a ?L)) = take k (map tx_nonce (sent_by a ?L))"
      by (simp add: take_map)
    then show ?thesis by (simp add: own(1) take_map getNonce_accounts min_def)
  qed
  ultimately show "known (st_accounts s) a \<and>
      sum_list (map (unat \<circ> tx_amount) (sent_by a (take m ?L))) \<le> unat (balance_of (st_accounts s) a) \<and>
      map tx_nonce (sent_by a (take m ?L)) =
        map (\<lambda>i. nonce_of (st_accounts s) a + word_of_nat i) [0..<length (sent_by a (take m ?L))]"
    using k by simp
qed

lemma selection_runs:
  assumes "pool_ok C J s p" and "total_supply (st_accounts s) < 2 ^ 64"
  shows "run_txs (st_accounts s) (getTransactionsForBlock p m) \<noteq> None"
  using accounts_ledger.affordable_runs [OF assms(2) sorted_pool_affordable [OF assms(1)]]
  by (auto simp: run_txs_run_list getTransactionsForBlock_take)

lemma pool_ok_key_inj:
  assumes "pool_ok C J s p"
  shows "inj_on sort_key_of (set (pooled p))"
proof (rule inj_onI)
  fix x y assume xy: "x \<in> set (pooled p)" "y \<in> set (pooled p)" "sort_key_of x = sort_key_of y"
  let ?own = "sent_by (tx_sender x) (pooled p)"
  have "sender_ok s p (tx_sender x)" using assms by (simp add: pool_ok_def)
  then have "mset (map (unat \<circ> tx_nonce) ?own) = mset [unat (getNonce s (tx_sender x))..<unat (getNonce s (tx_sender x)) + length ?own]"
    by (simp add: sender_ok_def Let_def del: mset_upt)
  then have "distinct (map (unat \<circ> tx_nonce) ?own)"
    by (metis distinct_upt mset_eq_imp_distinct_iff)
  then have "inj_on (unat \<circ> tx_nonce) (set ?own)" by (simp add: distinct_map)
  moreover have "x \<in> set ?own" "y \<in> set ?own" "(unat \<circ> tx_nonce) x = (unat \<circ> tx_nonce) y"
    using xy by (auto simp: sent_by_def sort_key_of_def)
  ultimately show "x = y" by (meson inj_onD)
qed

lemma selection_order_independent:
  assumes "pool_ok C J s p" and "mset (pooled q) = mset (pooled p)"
  shows "getTransactionsForBlock q m = getTransactionsForBlock p m"
proof -
  have "sort_key sort_key_of (pooled q) = sort_key sort_key_of (pooled p)"
    using assms pool_ok_key_inj [OF assms(1)]
    by (intro sort_key_inj_key_eq) (auto dest: mset_eq_setD)
  then show ?thesis by (simp add: getTransactionsForBlock_take)
qed

section \<open>What revalidation keeps\<close>

text \<open>The pool's pending view is itself a ledger: admitting a transaction is a payment in it.\<close>

definition pool_pay :: "state_manager \<Rightarrow> mempool \<Rightarrow> transaction \<Rightarrow> mempool option" where
  "pool_pay s p tx = (if admissible s p tx then Some (admit s p tx) else None)"

lemma pool_ledger:
  "payable_ledger (\<lambda>_. accountExists s) (\<lambda>p a. unat (getPendingBalance s p a)) (getPendingNonce s)
     (pool_pay s) (\<lambda>_. True)"
  by unfold_locales
    (auto simp: pool_pay_def admissible_def admit_pending word_le_nat_alt unat_sub split: if_splits)

interpretation pending_ledger: payable_ledger "\<lambda>_. accountExists s" "\<lambda>p a. unat (getPendingBalance s p a)"
  "getPendingNonce s" "pool_pay s" "\<lambda>_. True" for s
  by (rule pool_ledger)

abbreviation pending_affordable :: "state_manager \<Rightarrow> mempool \<Rightarrow> transaction list \<Rightarrow> bool" where
  "pending_affordable s \<equiv>
     affordable (\<lambda>_. accountExists s) (\<lambda>p a. unat (getPendingBalance s p a)) (getPendingNonce s)"

lemma readd_all:
  assumes "pending_affordable s p txs" and "\<forall>tx\<in>set txs. verifyTransaction C J tx"
    and "distinct (map fst (mp_pending p) @ map tx_hash txs)"
  shows "mp_pending (readd C J s txs p) = mp_pending p @ map (\<lambda>tx. (tx_hash tx, tx)) txs"
  using assms
proof (induction txs arbitrary: p)
  case (Cons tx txs)
  have fresh: "\<not> contains p (tx_hash tx)"
    using Cons.prems(3) by (auto simp: contains_def map_of_eq_None_iff)
  obtain q where q: "pool_pay s p tx = Some q" "pending_affordable s q txs"
    using pending_ledger.affordable_Cons [OF _ Cons.prems(1)] by auto
  then have adm: "admissible s p tx" and q_def: "q = admit s p tx"
    by (auto simp: pool_pay_def split: if_splits)
  have "snd (addTransaction C J s p tx) = q"
    using addTransaction_accept [of C J tx p s, OF _ fresh adm] Cons.prems(2) q_def by simp
  moreover have "mp_pending (readd C J s txs q) = mp_pending q @ map (\<lambda>tx. (tx_hash tx, tx)) txs"
    using q(2) Cons.prems q_def by (intro Cons.IH) (auto simp: admit_effect [OF fresh])
  ultimately show ?case by (simp add: q_def admit_effect [OF fresh])
qed simp

lemma readd_length: "length (mp_pending (readd C J s txs p)) \<le> length (mp_pending p) + length txs"
proof (induction txs arbitrary: p)
  case (Cons tx txs)
  have "length (mp_pending (snd (addTransaction C J s p tx))) \<le> Suc (length (mp_pending p))"
  proof (cases rule: addTransaction_cases [of C J s p tx])
    case accept
    then have "\<not> contains p (tx_hash tx)" using addTransaction_fst by blast
    with accept show ?thesis by (simp add: admit_effect)
  qed simp
  with Cons.IH [of "snd (addTransaction C J s p tx)"] show ?case by simp
qed simp

lemma revalidate_count:
  "fst (revalidate C J s p) + pool_size (snd (revalidate C J s p)) = pool_size p"
  using readd_length [of C J s "sort_key sort_key_of (map snd (mp_pending p))"
      "p\<lparr>mp_pending := [], mp_pendingNonces := [], mp_pendingBalances := [], mp_lastError := ''''\<rparr>"]
  by (simp add: revalidate_def Let_def pool_size_def)

lemma revalidate_keeps:
  assumes aff: "confirmed_affordable s (sort_key sort_key_of (pooled p))"
    and keys: "distinct (map fst (mp_pending p))"
    and entries: "\<forall>(h, tx) \<in> set (mp_pending p). h = tx_hash tx \<and> verifyTransaction C J tx"
  shows "mset (mp_pending (snd (revalidate C J s p))) = mset (mp_pending p)"
    and "fst (revalidate C J s p) = 0"
proof -
  let ?txs = "sort_key sort_key_of (pooled p)"
  let ?q = "p\<lparr>mp_pending := [], mp_pendingNonces := [], mp_pendingBalances := [], mp_lastError := ''''\<rparr>"
  have "pending_affordable s ?q ?txs"
    using aff by (simp add: affordable_def getPendingNonce_def getPendingBalance_def query_accounts)
  moreover have "\<forall>tx\<in>set ?txs. verifyTransaction C J tx"
    using entries by (auto simp: pooled_def)
  moreover have fsts: "map fst (mp_pending p) = map tx_hash (pooled p)"
    using entries by (auto simp: pooled_def)
  have "distinct (map tx_hash ?txs)"
    using keys unfolding fsts by (metis mset_eq_imp_distinct_iff mset_map mset_sort)
  ultimately have kept: "mp_pending (readd C J s ?txs ?q) = map (\<lambda>tx. (tx_hash tx, tx)) ?txs"
    using readd_all [of s ?q ?txs C J] by simp
  have "map (\<lambda>tx. (tx_hash tx, tx)) (pooled p) = map (\<lambda>e. (tx_hash (snd e), snd e)) (mp_pending p)"
    by (simp add: pooled_def)
  also have "\<dots> = mp_pending p"
    by (rule map_idI) (use entries in force)
  finally have entries_eq: "map (\<lambda>tx. (tx_hash tx, tx)) (pooled p) = mp_pending p" .
  show m: "mset (mp_pending (snd (revalidate C J s p))) = mset (mp_pending p)"
    unfolding revalidate_snd kept entries_eq [symmetric] by (simp only: mset_map mset_sort)
  show "fst (revalidate C J s p) = 0"
    using revalidate_count [of C J s p] mset_eq_length [OF m] by (simp add: pool_size_def)
qed

text \<open>Removing the block's transactions leaves a pool without them, and takes nothing else.\<close>

lemma fold_delete: "fold (\<lambda>tx. AList.delete (tx_hash tx)) txs xs = filter (\<lambda>(h, tx). h \<notin> tx_hash ` set txs) xs"
proof (induction txs arbitrary: xs)
  case (Cons tx txs)
  then show ?case
    by (auto simp: AList.delete_eq filter_filter case_prod_unfold intro!: filter_cong)
qed (simp add: case_prod_unfold)

lemma removeMined_pending:
  "mp_pending (removeMinedTransactions p b) =
     filter (\<lambda>(h, tx). h \<notin> tx_hash ` set (blk_transactions b)) (mp_pending p)"
  by (simp add: removeMinedTransactions_def fold_delete)

lemma contains_removeMined:
  "contains (removeMinedTransactions p b) h \<longleftrightarrow> contains p h \<and> h \<notin> tx_hash ` set (blk_transactions b)"
  by (force simp: contains_def removeMined_pending map_of_eq_None_iff)

text \<open>
  After a block made from the pool's own selection has been applied, the rest of the pool is
  still affordable, so revalidation keeps all of it.
\<close>

lemma rest_after_selection:
  assumes ok: "pool_ok C J s p" and txs: "blk_transactions b = getTransactionsForBlock p m"
  shows "sort_key sort_key_of (pooled (removeMinedTransactions p b)) = drop m (sort_key sort_key_of (pooled p))"
proof -
  let ?L = "sort_key sort_key_of (pooled p)"
  have entry: "(h, tx) \<in> set (mp_pending p) \<Longrightarrow> h = tx_hash tx" for h tx
    using ok by (auto simp: pool_ok_def)
  have "map fst (mp_pending p) = map tx_hash (pooled p)"
    using entry by (auto simp: pooled_def)
  then have "distinct (map tx_hash (pooled p))"
    using ok by (simp add: pool_ok_def)
  then have "distinct (map tx_hash ?L)"
    by (metis mset_eq_imp_distinct_iff mset_map mset_sort)
  then have "distinct (map tx_hash (take m ?L) @ map tx_hash (drop m ?L))"
    by (metis append_take_drop_id map_append)
  then have disj: "tx_hash ` set (take m ?L) \<inter> tx_hash ` set (drop m ?L) = {}"
    by auto
  have keep: "pooled (removeMinedTransactions p b) = filter (\<lambda>tx. tx_hash tx \<notin> tx_hash ` set (take m ?L)) (pooled p)"
    using entry
    by (simp add: removeMined_pending pooled_def filter_map txs getTransactionsForBlock_take o_def)
      (rule arg_cong [where f = "map snd"], rule filter_cong, auto simp: pooled_def)
  have "filter (\<lambda>tx. tx_hash tx \<notin> tx_hash ` set (take m ?L)) ?L = drop m ?L"
  proof -
    have "filter (\<lambda>tx. tx_hash tx \<notin> tx_hash ` set (take m ?L)) (take m ?L @ drop m ?L) = drop m ?L"
      using disj by (subst filter_append, subst filter_False, simp, subst filter_True) auto
    then show ?thesis by simp
  qed
  then show ?thesis by (simp add: keep filter_sort)
qed

lemma own_block_keeps_rest:
  assumes ok: "pool_ok C J s p" and bound: "total_supply (st_accounts s) < 2 ^ 64"
    and txs: "blk_transactions b = getTransactionsForBlock p m"
    and s': "snd (applyBlock s b) = s'"
  shows "fst (revalidate C J s' (removeMinedTransactions p b)) = 0"
    and "mset (mp_pending (snd (revalidate C J s' (removeMinedTransactions p b)))) =
         mset (mp_pending (removeMinedTransactions p b))"
proof -
  let ?L = "sort_key sort_key_of (pooled p)"
  obtain accs where run: "run_txs (st_accounts s) (take m ?L) = Some accs"
    using selection_runs [OF ok bound, of m] by (auto simp: getTransactionsForBlock_take)
  then have s'_accs: "st_accounts s' = accs"
    using s' txs by (auto simp: applyBlock_accounts getTransactionsForBlock_take)
  have "confirmed_affordable s (take m ?L @ drop m ?L)"
    using sorted_pool_affordable [OF ok, of "length (pooled p)"] by simp
  then have "confirmed_affordable s' (drop m ?L)"
    unfolding s'_accs
    by (rule accounts_ledger.affordable_after [OF bound _ run [unfolded run_txs_run_list]])
  then have aff: "confirmed_affordable s' (sort_key sort_key_of (pooled (removeMinedTransactions p b)))"
    by (simp add: rest_after_selection [OF ok txs])
  have keys: "distinct (map fst (mp_pending (removeMinedTransactions p b)))"
    using ok by (auto simp: pool_ok_def removeMined_pending intro: distinct_map_filter)
  have entries: "\<forall>(h, tx) \<in> set (mp_pending (removeMinedTransactions p b)). h = tx_hash tx \<and> verifyTransaction C J tx"
    using ok by (auto simp: pool_ok_def removeMined_pending)
  show "fst (revalidate C J s' (removeMinedTransactions p b)) = 0"
    by (rule revalidate_keeps(2) [OF aff keys entries])
  show "mset (mp_pending (snd (revalidate C J s' (removeMinedTransactions p b)))) =
         mset (mp_pending (removeMinedTransactions p b))"
    by (rule revalidate_keeps(1) [OF aff keys entries])
qed

lemma pool_ok_verified: "pool_ok C J s p \<Longrightarrow> tx \<in> set (pooled p) \<Longrightarrow> verifyTransaction C J tx"
  by (auto simp: pool_ok_def pooled_def)

end
