(* ===== verification/Samples.thy ===== *)
theory Samples
  imports Mempool
begin

text \<open>
  Concrete values for the witnesses: a key pair, a two-account state, transactions, a pool
  and a one-authority schedule, over the demonstration instances of the libraries.
\<close>

definition sample_keys :: key_pair where
  "sample_keys = \<lparr>privateKey = replicate 32 1, publicKey = 2 # replicate 32 1\<rparr>"

definition sample_alice :: address where
  "sample_alice = deriveAddress demo_crypto (publicKey sample_keys)"

definition sample_bob :: address where
  "sample_bob = replicate 20 7"

definition sample_poa :: poa_consensus where
  "sample_poa = \<lparr>poa_authorities = [sample_alice], poa_lastError = ''''\<rparr>"

definition sample_state :: state_manager where
  "sample_state = newStateManager [(sample_alice, 100)]"

text \<open>An unsigned transfer: enough for the state, which does not look at signatures.\<close>

definition sample_tx :: "u64 \<Rightarrow> u64 \<Rightarrow> transaction" where
  "sample_tx amount nonce =
     \<lparr>tx_sender = sample_alice, tx_recipient = sample_bob, tx_amount = amount, tx_nonce = nonce,
      tx_timestamp = 0, tx_senderPublicKey = publicKey sample_keys, tx_signature = [],
      tx_hash = replicate 32 9\<rparr>"

definition sample_block :: "transaction list \<Rightarrow> block" where
  "sample_block txs =
     \<lparr>blk_index = 1, blk_timestamp = 0, blk_previousHash = zeroHash, blk_validator = sample_alice,
      blk_validatorPublicKey = publicKey sample_keys, blk_transactions = txs, blk_signature = [],
      blk_hash = replicate 32 5\<rparr>"

lemma sample_keys_ok: "key_pair_ok demo_crypto sample_keys"
  by (simp add: key_pair_ok_def sample_keys_def demo_crypto_def derivePublicKey_def)

lemma sample_poa_ok: "poa_ok sample_poa"
  by (simp add: poa_ok_def sample_poa_def)

lemma length_sample_alice [simp]: "length sample_alice = 20"
  using demo_crypto_ok by (simp add: sample_alice_def size_simps crypto_okD)

lemma sample_state_accounts:
  "st_accounts sample_state = [(sample_alice, \<lparr>acc_balance = 100, acc_nonce = 0\<rparr>)]"
  by (simp add: sample_state_def newStateManager_def)

lemma sample_state_queries:
  "getBalance sample_state sample_alice = 100" "getNonce sample_state sample_alice = 0"
  "accountExists sample_state sample_alice"
  by (simp_all add: getBalance_def getNonce_def accountExists_def sample_state_accounts)

lemma sample_supply: "total_supply (st_accounts sample_state) = 100"
  by (simp add: sample_state_accounts)

lemma sample_tx_simps [simp]:
  "tx_sender (sample_tx v n) = sample_alice" "tx_recipient (sample_tx v n) = sample_bob"
  "tx_amount (sample_tx v n) = v" "tx_nonce (sample_tx v n) = n"
  by (simp_all add: sample_tx_def)

lemma sample_block_simps [simp]: "blk_transactions (sample_block txs) = txs"
  by (simp add: sample_block_def)

text \<open>A transfer of 30 by the account that has 100 goes through.\<close>

lemma sample_apply: "fst (applyBlock sample_state (sample_block [sample_tx 30 0]))"
  by (simp add: applyBlock_fst can_pay_def known_def balance_of_def nonce_of_def sample_state_accounts)

lemma sample_chain:
  obtains c where "newBlockchainPoA demo_crypto demo_json sample_keys sample_poa = Inr c"
    and "chain_reachable demo_crypto demo_json c"
  using newBlockchainPoA_total [OF demo_crypto_ok sample_keys_ok, of demo_json sample_poa]
    reach_poa [OF demo_crypto_ok sample_keys_ok sample_poa_ok, of demo_json] by metis

lemma sample_created_tx:
  obtains tx where "createTransaction demo_crypto demo_json 5 sample_keys sample_bob 30 0 = Inr tx"
    and "verifyTransaction demo_crypto demo_json tx" and "tx_sender tx = sample_alice"
    and "tx_amount tx = 30" and "tx_nonce tx = 0"
proof -
  obtain tx where tx: "createTransaction demo_crypto demo_json 5 sample_keys sample_bob 30 0 = Inr tx"
    using createTransaction_total [OF demo_crypto_ok sample_keys_ok] by blast
  show ?thesis
    using that [OF tx] createTransaction_Inr(1) [OF tx]
      createTransaction_verifies [OF demo_crypto_ok sample_keys_ok tx]
    by (simp add: signable_def sample_alice_def)
qed

text \<open>A pool holding that signed transfer.\<close>

lemma sample_pool:
  obtains p where "pool_ok demo_crypto demo_json sample_state p" and "pool_size p = 1"
    and "\<forall>tx\<in>set (pooled p). tx_nonce tx \<noteq> - 1"
proof -
  obtain tx where tx: "verifyTransaction demo_crypto demo_json tx" "tx_sender tx = sample_alice"
      "tx_amount tx = 30" "tx_nonce tx = 0"
    using sample_created_tx by blast
  let ?p = "snd (addTransaction demo_crypto demo_json sample_state newMempool tx)"
  have "admissible sample_state newMempool tx"
    using tx by (simp add: admissible_def getPendingNonce_def getPendingBalance_def newMempool_def sample_state_queries)
  then have p: "?p = admit sample_state newMempool tx"
    using tx(1) addTransaction_accept [of demo_crypto demo_json tx newMempool sample_state]
    by (simp add: contains_def newMempool_def)
  have "pool_ok demo_crypto demo_json sample_state ?p"
    using tx(4) by (intro addTransaction_pool_ok pool_ok_empty) (simp_all add: newMempool_def)
  moreover have "mp_pending ?p = [(tx_hash tx, tx)]"
    unfolding p by (simp add: admit_def newMempool_def)
  ultimately show ?thesis
    using tx(4) that by (simp add: pool_size_def pooled_def)
qed

text \<open>The genesis block and one more, by the only authority.\<close>

lemma sample_chain2:
  obtains c where "chain_reachable demo_crypto demo_json c" and "length (bc_chain c) = 2"
    and "map_option poa_authorities (bc_consensus c) = Some [sample_alice]"
proof -
  obtain c where c: "newBlockchainPoA demo_crypto demo_json sample_keys sample_poa = Inr c"
      "chain_reachable demo_crypto demo_json c"
    by (rule sample_chain)
  obtain g where g: "bc_chain c = [g]" "bc_consensus c = Some sample_poa"
    using newBlockchainPoA_chain [OF c(1)] by blast
  obtain b where b: "createBlock demo_crypto demo_json 9 sample_keys (getLatestBlock c) [] = Inr b"
    using createBlock_total [OF demo_crypto_ok sample_keys_ok] by blast
  have "accepts demo_crypto demo_json c b"
    by (rule createBlock_accepts [OF demo_crypto_ok sample_keys_ok chain_reachable_valid [OF c(2)] b])
      (use g in \<open>auto simp: getProducer_def sample_poa_def sample_alice_def\<close>)
  then have "length (bc_chain (snd (addBlock demo_crypto demo_json c b))) = 2"
    using g by (simp add: addBlock_chain)
  moreover have "map_option poa_authorities (bc_consensus (snd (addBlock demo_crypto demo_json c b))) = Some [sample_alice]"
    using g by (simp add: addBlock_authorities sample_poa_def)
  ultimately show ?thesis using that reach_add [OF c(2)] by blast
qed

text \<open>Text sizes under the demonstration instances.\<close>

lemma enc_uint_length: "length (enc (JUint w)) \<le> 22"
proof -
  have "unat w < 10 ^ 20" using unsigned_less [of w, where ?'a = nat] by simp
  from to_string_nat_length_bound [OF this] show ?thesis by (simp add: to_string_def)
qed

lemma enc_string_length: "length s \<le> 200 \<Longrightarrow> length (enc_string s) \<le> length s + 4"
  using to_string_nat_length_bound [of "length s" 3] by (simp add: enc_string_def)

lemma demo_signature_length:
  assumes "verifyBlock demo_crypto demo_json b"
  shows "length (blk_signature b) = 64"
proof -
  have "verify demo_crypto (blk_hash b) (blk_signature b) (blk_validatorPublicKey b)"
    using assms by (auto simp: verifyBlock_def Let_def split: if_splits)
  then show ?thesis by (auto simp: verify_def demo_crypto_def split: option.splits if_splits)
qed

lemma demo_block_text_small:
  assumes "wf_block b" and "length (blk_signature b) = 64" and "blk_transactions b = []"
  shows "length (enc (blockToJson demo_json b)) < 1000"
proof -
  have sizes: "length (blk_previousHash b) = 32" "length (blk_validator b) = 20"
      "length (blk_validatorPublicKey b) = 33" "length (blk_hash b) = 32"
    using assms(1) by (simp_all add: wf_block_def sized_def)
  note small = enc_string_length [of "toHex_array (blk_previousHash b)"] enc_string_length [of "toHex_array (blk_validator b)"]
    enc_string_length [of "toHex_array (blk_validatorPublicKey b)"] enc_string_length [of "toHex_array (blk_hash b)"]
    enc_string_length [of "toHex (blk_signature b)"]
  have keys: "length (enc_string k) \<le> length k + 4" if "length k \<le> 200" for k
    using enc_string_length [OF that] .
  show ?thesis
    using small sizes assms(2,3)
      enc_uint_length [of "blk_index b"] enc_uint_length [of "blk_timestamp b"]
      keys [of "''index''"] keys [of "''timestamp''"] keys [of "''previousHash''"] keys [of "''validator''"]
      keys [of "''validatorPublicKey''"] keys [of "''signature''"] keys [of "''hash''"] keys [of "''transactions''"]
    by (simp add: blockToJson_def)
qed

end
