(* ===== verification/Core_Properties.thy ===== *)
theory Core_Properties
  imports Samples
begin

text \<open>
  The properties of the cryptographic helpers, the ledger data, the chain, the state and the
  pool, each with a witness where it has hypotheses.
\<close>

section \<open>State\<close>

text \<open>C13. No block creates or destroys coins: as long as the supply fits 64 bits, the sum of all
  balances is the same before and after \<open>applyBlock\<close>, whether the block is accepted or
  rejected, self-payments and new accounts included.\<close>

theorem supply_conserved:
  assumes "total_supply (st_accounts s) < 2 ^ 64"
  shows "total_supply (st_accounts (snd (applyBlock s b))) = total_supply (st_accounts s)"
  using assms supply_run by (auto simp: applyBlock_accounts split: option.splits)

theorem supply_conserved_witness:
  "total_supply (st_accounts (snd (applyBlock sample_state (sample_block [sample_tx 30 0])))) = 100"
  using supply_conserved [of sample_state "sample_block [sample_tx 30 0]"] sample_supply by simp

text \<open>C14. \<open>applyBlock\<close> implements the ledger: it succeeds exactly when running the block's
  transactions one after the other on a ledger over unbounded balances does, it then holds
  the resulting ledger and no error; otherwise the accounts are untouched and the error says
  why.\<close>

theorem applyBlock_refines_ledger:
  assumes "total_supply (st_accounts s) < 2 ^ 64"
  shows "case run_list ledger_pay (ledger_of (st_accounts s)) (blk_transactions b) of
      None \<Rightarrow> \<not> fst (applyBlock s b) \<and> st_accounts (snd (applyBlock s b)) = st_accounts s \<and>
        st_lastError (snd (applyBlock s b)) \<noteq> ''''
    | Some l \<Rightarrow> fst (applyBlock s b) \<and> ledger_of (st_accounts (snd (applyBlock s b))) = l \<and>
        st_lastError (snd (applyBlock s b)) = ''''"
proof (cases "run_txs (st_accounts s) (blk_transactions b)")
  case None
  then obtain e where "applyTransactions 0 (st_accounts s) (blk_transactions b) = Inl e" "e \<noteq> ''''"
    using applyTransactions_error applyTransactions_error_text by metis
  with None show ?thesis
    using run_txs_refines [OF assms, of "blk_transactions b"] by (simp add: applyBlock_def)
next
  case (Some accs)
  then show ?thesis
    using run_txs_refines [OF assms, of "blk_transactions b", symmetric] by (simp add: applyBlock_cases)
qed

theorem applyBlock_refines_ledger_witness:
  "ledger_of (st_accounts (snd (applyBlock sample_state (sample_block [sample_tx 30 0])))) =
     the (run_list ledger_pay (ledger_of (st_accounts sample_state)) [sample_tx 30 0])"
  using applyBlock_refines_ledger [of sample_state "sample_block [sample_tx 30 0]"] sample_supply sample_apply
  by (simp split: option.splits)

text \<open>A sequence of blocks that all apply.\<close>

fun apply_all :: "state_manager \<Rightarrow> block list \<Rightarrow> state_manager option" where
  "apply_all s [] = Some s"
| "apply_all s (b # bs) = (if fst (applyBlock s b) then apply_all (snd (applyBlock s b)) bs else None)"

lemma apply_all_run:
  "apply_all s bs = Some s' \<Longrightarrow>
     run_txs (st_accounts s) (concat (map blk_transactions bs)) = Some (st_accounts s')"
proof (induction bs arbitrary: s)
  case (Cons b bs)
  then show ?case
    using applyBlock_accounts [of s b]
    by (auto simp: run_txs_append applyBlock_fst split: if_splits option.splits)
qed simp

text \<open>C31. No replay, over a whole history: after any sequence of blocks that were all applied,
  a transaction of any of them is no longer valid, as long as fewer than 2^64 transactions
  were applied.\<close>

theorem applied_never_again:
  assumes "apply_all s bs = Some s'" and "length (concat (map blk_transactions bs)) < 2 ^ 64"
    and "b \<in> set bs" and "tx \<in> set (blk_transactions b)"
  shows "\<not> fst (validateTransaction s' tx)"
proof -
  have "tx \<in> set (concat (map blk_transactions bs))" using assms(3,4) by auto
  then show ?thesis
    using run_no_replay [OF apply_all_run [OF assms(1)] _ assms(2), of tx]
    by (auto simp: validateTransaction_fst can_pay_def)
qed

theorem applied_never_again_witness:
  "\<not> fst (validateTransaction (snd (applyBlock sample_state (sample_block [sample_tx 30 0]))) (sample_tx 30 0))"
  using applied_never_again [of sample_state "[sample_block [sample_tx 30 0]]"
      "snd (applyBlock sample_state (sample_block [sample_tx 30 0]))" "sample_block [sample_tx 30 0]" "sample_tx 30 0"]
    sample_apply by simp

text \<open>C36. The read-only check and the state change agree: a transaction validates exactly when
  a block of just that transaction is applied, and validating changes no account.\<close>

theorem validate_iff_apply:
  "fst (validateTransaction s tx) = fst (applyBlock s (b\<lparr>blk_transactions := [tx]\<rparr>)) \<and>
     st_accounts (snd (validateTransaction s tx)) = st_accounts s"
  by (simp add: validateTransaction_fst applyBlock_fst)

section \<open>Chain\<close>

text \<open>C22. Every chain the program can build, from a genesis block by any calls of
  \<open>addBlock\<close> whatever, passes \<open>validateChain\<close>.\<close>

theorem reachable_chains_validate:
  assumes "chain_reachable C J c"
  shows "validateChain C J c"
  using chain_reachable_valid [OF assms] by (simp add: validateChain_valid_blocks)

theorem reachable_chains_validate_witness:
  "\<exists>c. newBlockchainPoA demo_crypto demo_json sample_keys sample_poa = Inr c \<and> validateChain demo_crypto demo_json c"
  using reachable_chains_validate by (metis sample_chain)

text \<open>Round robin: in every chain built under a schedule of n authorities, the block at
  height i > 0 was produced by authority i mod n.\<close>

theorem reachable_chains_round_robin:
  assumes "chain_reachable C J c" and "bc_consensus c = Some p"
    and "0 < i" and "i < length (bc_chain c)" and "i < 2 ^ 64"
  shows "blk_validator (bc_chain c ! i) = poa_authorities p ! (i mod length (poa_authorities p))"
  using chain_reachable_scheduled [OF assms(1)] assms(2-5)
  by (simp add: chain_scheduled_def scheduled_def getProducer_nat)

theorem reachable_chains_round_robin_witness:
  "\<exists>c :: blockchain. length (bc_chain c) = 2 \<and> blk_validator (bc_chain c ! 1) = sample_alice"
proof -
  obtain c where c: "chain_reachable demo_crypto demo_json c" "length (bc_chain c) = 2"
      "map_option poa_authorities (bc_consensus c) = Some [sample_alice]"
    by (rule sample_chain2)
  then obtain p where p: "bc_consensus c = Some p" "poa_authorities p = [sample_alice]"
    by (auto simp: map_option_case split: option.splits)
  have "blk_validator (bc_chain c ! 1) = sample_alice"
    using reachable_chains_round_robin [OF c(1) p(1), of 1] c(2) p(2) by simp
  with c(2) show ?thesis by blast
qed

text \<open>C30. \<open>addBlock\<close> accepts a block exactly when it has the next index, links to the tip,
  passes \<open>verifyBlock\<close> and comes from the scheduled authority; it then appends just that
  block, otherwise it leaves the chain as it is; the error text is empty exactly on success,
  and the schedule never changes.\<close>

theorem addBlock_outcome:
  "let (added, c') = addBlock C J c b
   in (added = (blk_index b = getHeight c \<and> blk_previousHash b = blk_hash (getLatestBlock c) \<and> verifyBlock C J b \<and>
         (case bc_consensus c of None \<Rightarrow> True | Some p \<Rightarrow> blk_validator b = getProducer p (blk_index b)))) \<and>
      bc_chain c' = (if added then bc_chain c @ [b] else bc_chain c) \<and>
      (bc_lastError c' = '''') = added \<and>
      map_option poa_authorities (bc_consensus c') = map_option poa_authorities (bc_consensus c)"
proof -
  have "accepts C J c b \<longleftrightarrow> blk_index b = getHeight c \<and> blk_previousHash b = blk_hash (getLatestBlock c) \<and>
      verifyBlock C J b \<and> (case bc_consensus c of None \<Rightarrow> True | Some p \<Rightarrow> blk_validator b = getProducer p (blk_index b))"
    by (auto simp: accepts_def split: option.splits)
  then show ?thesis
    using addBlock_fst [of C J c b] addBlock_chain [of C J c b] addBlock_error [of C J c b]
      addBlock_authorities [of C J c b]
    by (simp add: case_prod_unfold Let_def)
qed

text \<open>C32. The tip hash commits to the whole history: two valid chains with the same last hash
  have the same headers and the same transaction hashes at every height, or two of their
  own serialisations are a SHA-256 collision.\<close>

theorem tip_hash_binds_history:
  assumes "evp_ok C" and "json_ok J" and "validateChain C J c" and "validateChain C J d"
    and "blk_hash (getLatestBlock c) = blk_hash (getLatestBlock d)"
    and "length (bc_chain c) < 2 ^ 64" and "length (bc_chain d) < 2 ^ 64"
  shows "map header (bc_chain c) = map header (bc_chain d) \<or>
    (\<exists>a\<in>set (bc_chain c). \<exists>b\<in>set (bc_chain d).
       collision C (header_bytes C J a) (header_bytes C J b) \<or> collision C (root_bytes a) (root_bytes b))"
  using tip_binds [OF assms(1,2), of "bc_chain c" "bc_chain d"] assms(3-7)
  by (auto simp: validateChain_valid_blocks getLatestBlock_def hash_safe_def)

theorem tip_hash_binds_history_witness:
  "\<exists>c. validateChain demo_crypto demo_json c \<and>
    (map header (bc_chain c) = map header (bc_chain c) \<or>
     (\<exists>a\<in>set (bc_chain c). \<exists>b\<in>set (bc_chain c).
       collision demo_crypto (header_bytes demo_crypto demo_json a) (header_bytes demo_crypto demo_json b) \<or>
       collision demo_crypto (root_bytes a) (root_bytes b)))"
proof -
  obtain c where c: "newBlockchainPoA demo_crypto demo_json sample_keys sample_poa = Inr c"
      "chain_reachable demo_crypto demo_json c"
    by (rule sample_chain)
  have "length (bc_chain c) < 2 ^ 64" using newBlockchainPoA_chain [OF c(1)] by auto
  moreover have v: "validateChain demo_crypto demo_json c"
    using chain_reachable_valid [OF c(2)] by (simp add: validateChain_valid_blocks)
  ultimately show ?thesis
    using tip_hash_binds_history [OF crypto_okD(1) [OF demo_crypto_ok] demo_json_ok v v refl] by blast
qed

section \<open>Pool\<close>

text \<open>The pool's invariant: entries are keyed by their own hash and verify; per sender they
  use consecutive nonces from the confirmed one, and the pending nonce and balance are what
  they leave. \<open>addTransaction\<close> keeps it, whatever the transaction, unless it carries the
  largest 64-bit nonce (after which the pending nonce wraps to 0).\<close>

theorem pool_invariant:
  assumes "pool_ok C J s p" and "tx_nonce tx \<noteq> - 1"
  shows "pool_ok C J s (snd (addTransaction C J s p tx))"
  by (rule addTransaction_pool_ok [OF assms])

theorem pool_invariant_witness:
  "pool_ok demo_crypto demo_json sample_state
     (snd (addTransaction demo_crypto demo_json sample_state newMempool (sample_tx 30 0)))"
  by (rule pool_invariant) (simp_all add: pool_ok_empty newMempool_def)

text \<open>\<open>addTransaction\<close> accepts exactly the transactions that verify, are not in the
  pool, and whose sender exists with that pending nonce and at least that pending balance;
  it then stores just that transaction; otherwise only the error changes, to a non-empty
  text.\<close>

theorem addTransaction_outcome:
  "let (added, q) = addTransaction C J s p tx
   in added = (verifyTransaction C J tx \<and> \<not> contains p (tx_hash tx) \<and> accountExists s (tx_sender tx) \<and>
        tx_nonce tx = getPendingNonce s p (tx_sender tx) \<and> tx_amount tx \<le> getPendingBalance s p (tx_sender tx)) \<and>
      (if added then mp_pending q = mp_pending p @ [(tx_hash tx, tx)] \<and> mp_lastError q = '''' \<and>
           getPendingNonce s q (tx_sender tx) = tx_nonce tx + 1 \<and>
           getPendingBalance s q (tx_sender tx) = getPendingBalance s p (tx_sender tx) - tx_amount tx
       else mp_lastError q \<noteq> '''' \<and> q = p\<lparr>mp_lastError := mp_lastError q\<rparr>)"
proof (cases "fst (addTransaction C J s p tx)")
  case True
  then have tx: "verifyTransaction C J tx" "\<not> contains p (tx_hash tx)" "admissible s p tx"
    using addTransaction_fst by blast+
  then show ?thesis
    by (simp add: addTransaction_accept admit_effect admit_pending) (simp add: admissible_def admit_def)
next
  case False
  then show ?thesis
    using addTransaction_reject [OF False] addTransaction_fst [of C J s p tx]
    by (auto simp: admissible_def)
qed

text \<open>\<open>revalidate\<close> restores the invariant against any new state, from any pool contents
  (no pooled nonce being the largest one), adds nothing, and returns the number of
  transactions it dropped.\<close>

theorem revalidate_restores:
  assumes "\<forall>tx\<in>set (pooled p). tx_nonce tx \<noteq> - 1"
  shows "pool_ok C J s (snd (revalidate C J s p)) \<and>
    set (pooled (snd (revalidate C J s p))) \<subseteq> set (pooled p) \<and>
    fst (revalidate C J s p) + pool_size (snd (revalidate C J s p)) = pool_size p"
proof (intro conjI)
  show "pool_ok C J s (snd (revalidate C J s p))" by (rule revalidate_pool_ok [OF assms])
  show "set (pooled (snd (revalidate C J s p))) \<subseteq> set (pooled p)"
    using readd_subset [of C J s "sort_key sort_key_of (pooled p)"
        "p\<lparr>mp_pending := [], mp_pendingNonces := [], mp_pendingBalances := [], mp_lastError := ''''\<rparr>"]
    unfolding revalidate_snd by (simp add: pooled_def)
qed (rule revalidate_count)

theorem revalidate_restores_witness:
  "\<exists>p. pool_size p = 1 \<and> pool_ok demo_crypto demo_json sample_state
     (snd (revalidate demo_crypto demo_json sample_state (p :: mempool)))"
  using revalidate_restores by (metis sample_pool)

text \<open>C21. A block made from the pool's selection always applies: under the invariant, for any
  size limit, \<open>applyBlock\<close> on the state the pool validates against succeeds.\<close>

theorem selection_applies:
  assumes "pool_ok C J s p" and "total_supply (st_accounts s) < 2 ^ 64"
    and "blk_transactions b = getTransactionsForBlock p maxCount"
  shows "fst (applyBlock s b)"
  using selection_runs [OF assms(1,2)] assms(3) by (simp add: applyBlock_fst)

theorem selection_applies_witness:
  "\<exists>p. pool_size p = 1 \<and> fst (applyBlock sample_state (sample_block (getTransactionsForBlock (p :: mempool) 10)))"
proof -
  obtain p where p: "pool_ok demo_crypto demo_json sample_state p" "pool_size p = 1"
    by (rule sample_pool)
  then show ?thesis
    using selection_applies [OF p(1), of "sample_block (getTransactionsForBlock p 10)" 10] sample_supply by auto
qed

text \<open>A selection is a function of the pool's contents: it does not depend on the order in
  which the hash table is walked, has at most the requested length, contains only pooled
  transactions and is sorted by sender and nonce.\<close>

theorem selection_deterministic:
  assumes "pool_ok C J s p" and "mset (pooled q) = mset (pooled p)"
  shows "getTransactionsForBlock q m = getTransactionsForBlock p m \<and>
    length (getTransactionsForBlock q m) = min m (pool_size p) \<and>
    set (getTransactionsForBlock q m) \<subseteq> set (pooled p) \<and>
    sorted (map sort_key_of (getTransactionsForBlock q m))"
  using selection_order_independent [OF assms, of m] set_take_subset [of m "sort_key sort_key_of (pooled p)"]
  by (auto simp: getTransactionsForBlock_take pool_size_def pooled_def take_map [symmetric] sorted_wrt_take)

theorem selection_deterministic_witness:
  "\<exists>p. length (getTransactionsForBlock (p :: mempool) 10) = min 10 (pool_size p) \<and> pool_size p = 1"
  using selection_deterministic [OF _ refl] by (metis sample_pool)

text \<open>C20. A block made from the pool's own selection evicts nothing else: after it is applied
  and its transactions are removed, revalidation keeps every remaining transaction.\<close>

theorem own_block_evicts_nothing:
  assumes "pool_ok C J s p" and "total_supply (st_accounts s) < 2 ^ 64"
    and "blk_transactions b = getTransactionsForBlock p m"
  shows "let left = removeMinedTransactions p b;
             (evicted, q) = revalidate C J (snd (applyBlock s b)) left
         in evicted = 0 \<and> mset (mp_pending q) = mset (mp_pending left)"
  using own_block_keeps_rest [OF assms refl] by (simp add: case_prod_unfold Let_def)

theorem own_block_evicts_nothing_witness:
  "\<exists>p b. pool_size (p :: mempool) = 1 \<and> blk_transactions (b :: block) = getTransactionsForBlock p 0 \<and>
     fst (revalidate demo_crypto demo_json (snd (applyBlock sample_state b)) (removeMinedTransactions p b)) = 0"
proof -
  obtain p where p: "pool_ok demo_crypto demo_json sample_state p" "pool_size p = 1"
    by (rule sample_pool)
  then show ?thesis
    using own_block_evicts_nothing [OF p(1), of "sample_block (getTransactionsForBlock p 0)" 0] sample_supply
    by (auto simp: case_prod_unfold Let_def intro!: exI [of _ p] exI [of _ "sample_block (getTransactionsForBlock p 0)"])
qed

text \<open>A mined transaction leaves the pool for good: once the block's transactions are
  removed no revalidation brings one back, and no transaction of another hash is removed.\<close>

theorem mined_transactions_gone:
  "(contains (removeMinedTransactions p b) h \<longleftrightarrow> contains p h \<and> h \<notin> tx_hash ` set (blk_transactions b)) \<and>
   set (pooled (snd (revalidate C J s (removeMinedTransactions p b)))) \<subseteq> set (pooled (removeMinedTransactions p b))"
  using readd_subset [of C J s "sort_key sort_key_of (pooled (removeMinedTransactions p b))"
      "(removeMinedTransactions p b)\<lparr>mp_pending := [], mp_pendingNonces := [], mp_pendingBalances := [], mp_lastError := ''''\<rparr>"]
  unfolding revalidate_snd by (simp add: contains_removeMined pooled_def)

section \<open>Transactions and blocks\<close>

text \<open>\<open>createTransaction\<close> with a valid key pair returns, and what it returns verifies, is
  well formed and carries the requested fields.\<close>

theorem created_transaction_verifies:
  assumes "crypto_ok C" and "key_pair_ok C kp" and "length rcp = 20"
  shows "case createTransaction C J now kp rcp amt n of Inl _ \<Rightarrow> False
    | Inr tx \<Rightarrow> verifyTransaction C J tx \<and> wf_transaction tx \<and> tx_sender tx = deriveAddress C (publicKey kp) \<and>
        tx_recipient tx = rcp \<and> tx_amount tx = amt \<and> tx_nonce tx = n \<and> tx_timestamp tx = now"
proof -
  obtain tx where tx: "createTransaction C J now kp rcp amt n = Inr tx"
    using createTransaction_total [OF assms(1,2)] by blast
  then show ?thesis
    using createTransaction_Inr(1) [OF tx] createTransaction_verifies [OF assms(1,2) tx]
      createTransaction_wf [OF assms(1,2) _ tx] assms(3)
    by (auto simp: signable_def)
qed

theorem created_transaction_verifies_witness:
  "\<exists>tx. createTransaction demo_crypto demo_json 5 sample_keys sample_bob 30 0 = Inr tx \<and>
     verifyTransaction demo_crypto demo_json tx"
  using created_transaction_verifies [OF demo_crypto_ok sample_keys_ok,
      where rcp = sample_bob and J = demo_json and now = 5 and amt = 30 and n = 0]
  by (auto simp: sample_bob_def split: sum.splits)

text \<open>Tamper evidence: two transactions that both verify and carry the same hash agree on
  sender, recipient, amount, nonce, timestamp and key, or their two signable texts are a
  SHA-256 collision.\<close>

theorem same_hash_same_transaction:
  assumes "json_ok J" and "verifyTransaction C J a" and "verifyTransaction C J b" and "tx_hash a = tx_hash b"
  shows "signable a = signable b \<or>
    collision C (string_bytes (j_text J (signableJson J a))) (string_bytes (j_text J (signableJson J b)))"
proof -
  have "digest C (string_bytes (j_text J (signableJson J a))) = digest C (string_bytes (j_text J (signableJson J b)))"
    using assms(2-4) by (simp add: verifyTransaction_iff computeTransactionHash_def digest_string_def)
  moreover have "signableJson J a = signableJson J b \<longleftrightarrow> j_text J (signableJson J a) = j_text J (signableJson J b)"
    by (simp add: json_text_inject [OF assms(1)] signableJson_plain)
  ultimately show ?thesis
    using signableJson_inject [OF assms(1), of a b] by (auto simp: collision_def)
qed

theorem same_hash_same_transaction_witness:
  "\<exists>tx. verifyTransaction demo_crypto demo_json tx \<and>
    (signable tx = signable tx \<or>
     collision demo_crypto (string_bytes (j_text demo_json (signableJson demo_json tx)))
       (string_bytes (j_text demo_json (signableJson demo_json tx))))"
proof -
  obtain tx where tx: "verifyTransaction demo_crypto demo_json tx" using sample_created_tx by blast
  then show ?thesis using same_hash_same_transaction [OF demo_json_ok tx tx refl] by blast
qed

text \<open>C35. A block survives its text form: parsing what \<open>dump\<close> writes and decoding it gives the
  block back, transactions included.\<close>

theorem block_text_roundtrip:
  assumes "json_ok J" and "wf_block b"
  shows "bind_e (j_parse J (j_text J (blockToJson J b))) (blockFromJson J) = Inr b"
  using assms by (simp add: json_parse_text blockToJson_plain blockFromJson_toJson)

theorem block_text_roundtrip_witness:
  "bind_e (j_parse demo_json (j_text demo_json (blockToJson demo_json (sample_block [sample_tx 30 0]))))
     (blockFromJson demo_json) = Inr (sample_block [sample_tx 30 0])"
  by (rule block_text_roundtrip [OF demo_json_ok])
    (simp add: wf_block_def wf_transaction_def sized_def sample_block_def sample_tx_def sample_keys_def sample_bob_def)

text \<open>A producer's block is accepted: when the chain validates and the schedule names this
  key for the next height, \<open>createBlock\<close> on the tip returns a block \<open>addBlock\<close> accepts.\<close>

theorem produced_block_accepted:
  assumes "crypto_ok C" and "key_pair_ok C kp" and "validateChain C J c" and "bc_consensus c = Some p"
    and "getProducer p (getHeight c) = deriveAddress C (publicKey kp)"
    and "list_all (verifyTransaction C J) txs"
  shows "case createBlock C J now kp (getLatestBlock c) txs of Inl _ \<Rightarrow> False
    | Inr b \<Rightarrow> fst (addBlock C J c b) \<and> bc_chain (snd (addBlock C J c b)) = bc_chain c @ [b]"
proof -
  obtain b where b: "createBlock C J now kp (getLatestBlock c) txs = Inr b"
    using createBlock_total [OF assms(1,2)] by blast
  have "accepts C J c b"
    using assms by (intro createBlock_accepts [OF assms(1,2) _ b]) (auto simp: validateChain_valid_blocks)
  with b show ?thesis by (simp add: addBlock_fst addBlock_chain)
qed

theorem produced_block_accepted_witness:
  "\<exists>c b. createBlock demo_crypto demo_json 9 sample_keys (getLatestBlock c) [] = Inr b \<and>
     fst (addBlock demo_crypto demo_json (c :: blockchain) b)"
proof -
  obtain c where c: "newBlockchainPoA demo_crypto demo_json sample_keys sample_poa = Inr c"
      "chain_reachable demo_crypto demo_json c"
    by (rule sample_chain)
  have "bc_consensus c = Some sample_poa" using newBlockchainPoA_chain [OF c(1)] by blast
  then show ?thesis
    using produced_block_accepted [OF demo_crypto_ok sample_keys_ok, of demo_json c sample_poa "[]" 9]
      chain_reachable_valid [OF c(2)]
    by (auto simp: validateChain_valid_blocks getProducer_def sample_poa_def sample_alice_def split: sum.splits)
qed

text \<open>Lookups are sound and complete: \<open>findTransaction\<close> returns a mined transaction with
  the hash exactly when there is one, \<open>findBlockByHash\<close> likewise, and \<open>getBlock\<close> returns the
  block at the height or, out of range, an \<open>out_of_range\<close> error.\<close>

theorem lookups_correct:
  "(case findTransaction c h of
      None \<Rightarrow> h \<notin> tx_hash ` (\<Union>b\<in>set (bc_chain c). set (blk_transactions b))
    | Some tx \<Rightarrow> tx_hash tx = h \<and> tx \<in> (\<Union>b\<in>set (bc_chain c). set (blk_transactions b))) \<and>
   (case findBlockByHash c h of None \<Rightarrow> h \<notin> blk_hash ` set (bc_chain c)
    | Some b \<Rightarrow> blk_hash b = h \<and> b \<in> set (bc_chain c)) \<and>
   (if unat i < length (bc_chain c) then getBlock c i = Inr (bc_chain c ! unat i)
    else \<exists>m. getBlock c i = Inl (OutOfRange m))"
proof (intro conjI)
  show "case findTransaction c h of
      None \<Rightarrow> h \<notin> tx_hash ` (\<Union>b\<in>set (bc_chain c). set (blk_transactions b))
    | Some tx \<Rightarrow> tx_hash tx = h \<and> tx \<in> (\<Union>b\<in>set (bc_chain c). set (blk_transactions b))"
    using findTransaction_in_Some findTransaction_in_None
    unfolding findTransaction_def by (fastforce split: option.splits)
  show "case findBlockByHash c h of None \<Rightarrow> h \<notin> blk_hash ` set (bc_chain c)
    | Some b \<Rightarrow> blk_hash b = h \<and> b \<in> set (bc_chain c)"
    using findBlockByHash_Some [of c h] findBlockByHash_None [of c h] by (auto split: option.splits)
qed (simp add: getBlock_def)

section \<open>Schedule and keys\<close>

text \<open>Fair schedule: any n consecutive heights (below 2^64) give each of the n authorities
  one turn, in the configured order from some starting point.\<close>

theorem fair_window:
  assumes "poa_ok p" and "s + authorityCount p \<le> 2 ^ 64"
  shows "map (\<lambda>i. getProducer p (word_of_nat i)) [s..<s + authorityCount p] = rotate s (getAuthorities p)"
proof -
  have "map (\<lambda>i. getProducer p (word_of_nat i)) [s..<s + authorityCount p] =
      map (\<lambda>i. poa_authorities p ! (i mod length (poa_authorities p))) [s..<s + length (poa_authorities p)]"
    using assms(2) by (auto simp: authorityCount_def getProducer_nat)
  then show ?thesis
    using assms(1) window_is_rotation [of "poa_authorities p" s] by (simp add: poa_ok_def getAuthorities_def)
qed

theorem fair_window_witness:
  "map (\<lambda>i. getProducer \<lparr>poa_authorities = [[1], [2], [3]], poa_lastError = ''''\<rparr> (word_of_nat i)) [4..<7] =
     [[2], [3], [1]]"
  using fair_window [of "\<lparr>poa_authorities = [[1], [2], [3]], poa_lastError = ''''\<rparr>" 4]
  by (simp add: poa_ok_def authorityCount_def getAuthorities_def rotate_drop_take)

text \<open>C40. Key generation ends with a valid key: when the random source delivers and one of its
  first n draws is a valid secret key, \<open>generateKeyPair\<close> returns a pair whose public half
  belongs to its private half, and signatures made with it verify.\<close>

theorem generateKeyPair_ends:
  assumes "secp_ok C" and "0 < n" and "\<forall>i<n. \<exists>r. rand_bytes C (k + i) = Some r"
    and "rand_bytes C (k + (n - 1)) = Some good" and "seckey_verify C good"
  shows "\<exists>kp. generateKeyPair C k = Some (Inr kp) \<and> key_pair_ok C kp \<and>
    (\<forall>m s. sign C m (privateKey kp) = Inr s \<longrightarrow> verify C m s (publicKey kp))"
proof -
  obtain r0 where r0: "rand_bytes C k = Some r0" using assms(2,3) by force
  have "\<exists>s. regenerate C (Suc k) r0 = Some (Inr s) \<and> seckey_verify C s"
  proof (rule regenerate_stops [where n = "n - 1"])
    show "\<forall>i<n - 1. \<exists>s. rand_bytes C (Suc k + i) = Some s"
      using assms(3) by (metis add_Suc_shift less_diff_conv Suc_eq_plus1)
    show "n - 1 = 0 \<longrightarrow> seckey_verify C r0"
      using assms(4,5) r0 by auto
    show "0 < n - 1 \<longrightarrow> (\<exists>s. rand_bytes C (Suc k + (n - 1 - 1)) = Some s \<and> seckey_verify C s)"
      using assms(4,5) by (auto simp: Suc_diff_Suc)
  qed
  then obtain s where s: "regenerate C (Suc k) r0 = Some (Inr s)" "seckey_verify C s" by blast
  obtain p where p: "pubkey_create C s = Some p" using assms(1) s(2) by (auto simp: secp_ok_def)
  then have "\<exists>pk. pubkey_serialize C p = Some pk" using assms(1) unfolding secp_ok_def by blast
  then obtain pk where "derivePublicKey C s = Inr pk" using p by (auto simp: derivePublicKey_def)
  then show ?thesis
    using r0 s verify_sign [OF assms(1)] by (auto simp: generateKeyPair_def key_pair_ok_def)
qed

theorem generateKeyPair_ends_witness:
  "\<exists>kp. generateKeyPair demo_crypto 0 = Some (Inr kp) \<and> key_pair_ok demo_crypto kp"
  using generateKeyPair_ends [OF crypto_okD(2) [OF demo_crypto_ok], of 2 0 "replicate 32 1"]
  by (auto simp: demo_crypto_def numeral_eq_Suc)

text \<open>Key files round trip: loading the text \<open>savePrivateKey\<close> writes gives the key back,
  and a missing or blank file is a \<open>runtime_error\<close>.\<close>

theorem key_file_roundtrip:
  assumes "length key = 32"
  shows "loadPrivateKey (Some (savePrivateKey_text key)) path = Inr key \<and>
    (\<exists>m. loadPrivateKey None path = Inl (RuntimeError m)) \<and>
    (\<exists>m. loadPrivateKey (Some ''  '') path = Inl (RuntimeError m))"
  using loadPrivateKey_saved [OF assms] by (simp add: loadPrivateKey_def getline_def is_space_def)

theorem key_file_roundtrip_witness:
  "loadPrivateKey (Some (savePrivateKey_text (replicate 32 171))) ''k'' = Inr (replicate 32 171)"
  using key_file_roundtrip [of "replicate 32 171" "''k''"] by simp

end
