(* ===== verification/Effects.thy ===== *)
theory Effects
  imports Prelude
begin

text \<open>
  Statements that change state and may throw: a computation takes the state and returns a
  result with the state it left behind, also when it throws, as a C++ function does.
\<close>

type_synonym ('s, 'a) proc = "'s \<Rightarrow> 'a result \<times> 's"

named_theorems proc_simps \<open>evaluation of procedures\<close>

definition ret :: "'a \<Rightarrow> ('s, 'a) proc" where
  "ret x = (\<lambda>s. (Inr x, s))"

definition throw :: "exn \<Rightarrow> ('s, 'a) proc" where
  "throw e = (\<lambda>s. (Inl e, s))"

definition bind_p :: "('s, 'a) proc \<Rightarrow> ('a \<Rightarrow> ('s, 'b) proc) \<Rightarrow> ('s, 'b) proc" where
  "bind_p m f = (\<lambda>s. case m s of (Inl e, s') \<Rightarrow> (Inl e, s') | (Inr x, s') \<Rightarrow> f x s')"

definition then_p :: "('s, 'a) proc \<Rightarrow> ('s, 'b) proc \<Rightarrow> ('s, 'b) proc" where
  "then_p m n = bind_p m (\<lambda>_. n)"

text \<open>A throwing expression that changes nothing, and a plain assignment.\<close>

definition eval_p :: "('s \<Rightarrow> 'a result) \<Rightarrow> ('s, 'a) proc" where
  "eval_p f = (\<lambda>s. (f s, s))"

definition read_p :: "('s \<Rightarrow> 'a) \<Rightarrow> ('s, 'a) proc" where
  "read_p f = (\<lambda>s. (Inr (f s), s))"

definition modify_p :: "('s \<Rightarrow> 's) \<Rightarrow> ('s, unit) proc" where
  "modify_p f = (\<lambda>s. (Inr (), f s))"

text \<open>\<open>for (x : xs) body(x)\<close>.\<close>

fun for_p :: "'a list \<Rightarrow> ('a \<Rightarrow> ('s, unit) proc) \<Rightarrow> ('s, unit) proc" where
  "for_p [] body = ret ()"
| "for_p (x # xs) body = then_p (body x) (for_p xs body)"

text \<open>
  \<open>try m catch (const std::exception&) handler\<close>: the handler's view of one exception, and the
  statement. An undefined access is no exception and is not caught.
\<close>

definition rescue :: "(exn \<Rightarrow> ('s, 'a) proc) \<Rightarrow> exn \<Rightarrow> ('s, 'a) proc" where
  "rescue h e = (case e of BadAccess _ \<Rightarrow> throw e | _ \<Rightarrow> h e)"

definition catch_p :: "('s, 'a) proc \<Rightarrow> (exn \<Rightarrow> ('s, 'a) proc) \<Rightarrow> ('s, 'a) proc" where
  "catch_p m h = (\<lambda>s. case m s of (Inl e, s') \<Rightarrow> rescue h e s' | (Inr x, s') \<Rightarrow> (Inr x, s'))"

text \<open>A procedure on a part of the state.\<close>

definition on_part :: "('s \<Rightarrow> 't) \<Rightarrow> ('t \<Rightarrow> 's \<Rightarrow> 's) \<Rightarrow> ('t, 'a) proc \<Rightarrow> ('s, 'a) proc" where
  "on_part part upd m = (\<lambda>s. case m (part s) of (r, t) \<Rightarrow> (r, upd t s))"

lemma run_simps [proc_simps]:
  "ret x s = (Inr x, s)"
  "throw e s = (Inl e, s)"
  "then_p m n s = bind_p m (\<lambda>_. n) s"
  "eval_p f s = (f s, s)"
  "read_p g s = (Inr (g s), s)"
  "modify_p h s = (Inr (), h s)"
  by (simp_all add: ret_def throw_def then_p_def eval_p_def read_p_def modify_p_def)

lemma bind_p_Inr [proc_simps]: "m s = (Inr x, s') \<Longrightarrow> bind_p m f s = f x s'"
  by (simp add: bind_p_def)

lemma bind_p_Inl [proc_simps]: "m s = (Inl e, s') \<Longrightarrow> bind_p m f s = (Inl e, s')"
  by (simp add: bind_p_def)

lemma catch_p_Inr [proc_simps]: "m s = (Inr x, s') \<Longrightarrow> catch_p m h s = (Inr x, s')"
  by (simp add: catch_p_def)

lemma catch_p_Inl [proc_simps]: "m s = (Inl e, s') \<Longrightarrow> catch_p m h s = rescue h e s'"
  by (simp add: catch_p_def)

lemma bind_p_cases:
  "bind_p m f s = (case m s of (Inl e, s') \<Rightarrow> (Inl e, s') | (Inr x, s') \<Rightarrow> f x s')"
  by (simp add: bind_p_def)

lemma bind_eval_p: "bind_p (eval_p f) g s = (case f s of Inl e \<Rightarrow> (Inl e, s) | Inr x \<Rightarrow> g x s)"
  by (simp add: bind_p_def eval_p_def)

lemma bind_p_InrE:
  assumes "bind_p m f s = (Inr y, s')"
  obtains x t where "m s = (Inr x, t)" and "f x t = (Inr y, s')"
  using assms by (auto simp: bind_p_def split: prod.splits sum.splits)

lemma then_p_InrE:
  fixes m :: "('s, unit) proc"
  assumes "then_p m n s = (Inr y, s')"
  obtains t where "m s = (Inr (), t)" and "n t = (Inr y, s')"
  using assms by (auto simp: then_p_def bind_p_def split: prod.splits sum.splits)

text \<open>What every step keeps, a procedure keeps, however it ends.\<close>

definition keeps :: "('s \<Rightarrow> bool) \<Rightarrow> ('s, 'a) proc \<Rightarrow> bool" where
  "keeps I m \<longleftrightarrow> (\<forall>s. I s \<longrightarrow> I (snd (m s)))"

lemma keepsD: "keeps I m \<Longrightarrow> I s \<Longrightarrow> I (snd (m s))"
  by (simp add: keeps_def)

lemma keeps_ret [intro]: "keeps I (ret x)"
  and keeps_throw [intro]: "keeps I (throw e)"
  and keeps_eval [intro]: "keeps I (eval_p f)"
  and keeps_read [intro]: "keeps I (read_p g)"
  by (simp_all add: keeps_def proc_simps)

lemma keeps_bind [intro]:
  assumes "keeps I m" and "\<And>x. keeps I (f x)"
  shows "keeps I (bind_p m f)"
  unfolding keeps_def
proof (intro allI impI)
  fix s assume "I s"
  then have m: "I (snd (m s))" using assms(1) by (simp add: keeps_def)
  show "I (snd (bind_p m f s))"
  proof (cases "m s")
    case (Pair r t)
    with m assms(2) show ?thesis by (cases r) (simp_all add: bind_p_def keeps_def)
  qed
qed

lemma keeps_then [intro]: "keeps I m \<Longrightarrow> keeps I n \<Longrightarrow> keeps I (then_p m n)"
  unfolding then_p_def by (rule keeps_bind)

lemma keeps_for [intro]: "(\<And>x. x \<in> set xs \<Longrightarrow> keeps I (body x)) \<Longrightarrow> keeps I (for_p xs body)"
  by (induction xs) (auto intro!: keeps_ret keeps_then)

lemma keeps_rescue [intro]: "keeps I (h e) \<Longrightarrow> keeps I (rescue h e)"
  by (cases e) (auto simp: rescue_def)

lemma keeps_catch [intro]:
  assumes "keeps I m" and "\<And>e. keeps I (h e)"
  shows "keeps I (catch_p m h)"
  unfolding keeps_def
proof (intro allI impI)
  fix s assume "I s"
  then have m: "I (snd (m s))" using assms(1) by (simp add: keeps_def)
  show "I (snd (catch_p m h s))"
  proof (cases "m s")
    case (Pair r t)
    with m keeps_rescue [OF assms(2)] show ?thesis by (cases r) (simp_all add: catch_p_def keeps_def)
  qed
qed

lemma keeps_modify: "(\<And>s. I s \<Longrightarrow> I (f s)) \<Longrightarrow> keeps I (modify_p f)"
  by (simp add: keeps_def proc_simps)

lemma keeps_bind_post:
  assumes "keeps I m" and "\<And>x s s'. m s = (Inr x, s') \<Longrightarrow> I s \<Longrightarrow> P x" and "\<And>x. P x \<Longrightarrow> keeps I (f x)"
  shows "keeps I (bind_p m f)"
  unfolding keeps_def
proof (intro allI impI)
  fix s assume s: "I s"
  then have m: "I (snd (m s))" using assms(1) by (simp add: keeps_def)
  show "I (snd (bind_p m f s))"
  proof (cases "m s")
    case (Pair r t)
    show ?thesis
    proof (cases r)
      case (Inr x)
      with Pair s have "P x" using assms(2) by blast
      with assms(3) m Pair Inr show ?thesis by (simp add: bind_p_def keeps_def)
    qed (use Pair m in \<open>simp add: bind_p_def\<close>)
  qed
qed

lemma keeps_here: "(\<And>k. keeps I (f k)) \<Longrightarrow> keeps I (\<lambda>n. f n n)"
  by (simp add: keeps_def)

end
