(* ===== verification/Leveldb_Api.thy ===== *)
theory Leveldb_Api
  imports Prelude "HOL-Library.AList"
begin

text \<open>
  LevelDB is a third-party library: its calls are the fields of a record over the contents
  \<open>'d\<close> of a database directory. A failed call gives the text of its \<open>Status\<close> and, but for
  \<open>DestroyDB\<close>, leaves the contents as they were. \<open>ldb_scan\<close> lists what an iterator visits from \<open>Seek(key)\<close> on.
  \<open>leveldb_ok\<close> is the documented behaviour the storage code relies on.
\<close>

datatype get_status = Found string | NotFound | Failed string

record 'd leveldb_api =
  ldb_open :: "'d \<Rightarrow> string + 'd"
  ldb_put :: "'d \<Rightarrow> string \<Rightarrow> string \<Rightarrow> string + 'd"
  ldb_write :: "'d \<Rightarrow> (string \<times> string) list \<Rightarrow> string + 'd"
  ldb_get :: "'d \<Rightarrow> string \<Rightarrow> get_status"
  ldb_scan :: "'d \<Rightarrow> string \<Rightarrow> (string \<times> string) list"
  ldb_destroy :: "'d \<Rightarrow> string option \<times> 'd"

definition put_found :: "string \<times> string \<Rightarrow> (string \<Rightarrow> get_status) \<Rightarrow> string \<Rightarrow> get_status" where
  "put_found kv g = g(fst kv := Found (snd kv))"

definition leveldb_ok :: "'d leveldb_api \<Rightarrow> bool" where
  "leveldb_ok L \<longleftrightarrow>
     (\<forall>d d'. ldb_open L d = Inr d' \<longrightarrow> ldb_get L d' = ldb_get L d) \<and>
     (\<forall>d k v d'. ldb_put L d k v = Inr d' \<longrightarrow> ldb_get L d' = put_found (k, v) (ldb_get L d)) \<and>
     (\<forall>d b d'. ldb_write L d b = Inr d' \<longrightarrow> ldb_get L d' = fold put_found b (ldb_get L d)) \<and>
     (\<forall>d d'. ldb_destroy L d = (None, d') \<longrightarrow> ldb_get L d' = (\<lambda>_. NotFound)) \<and>
     (\<forall>d k. sorted_wrt (<) (map fst (ldb_scan L d k)) \<and>
        set (ldb_scan L d k) = {(k', v). k \<le> k' \<and> ldb_get L d k' = Found v})"

text \<open>A database whose calls never fail.\<close>

definition leveldb_reliable :: "'d leveldb_api \<Rightarrow> bool" where
  "leveldb_reliable L \<longleftrightarrow> leveldb_ok L \<and>
     (\<forall>d. \<exists>d'. ldb_open L d = Inr d') \<and> (\<forall>d k v. \<exists>d'. ldb_put L d k v = Inr d') \<and>
     (\<forall>d b. \<exists>d'. ldb_write L d b = Inr d') \<and> (\<forall>d. \<exists>d'. ldb_destroy L d = (None, d')) \<and>
     (\<forall>d k m. ldb_get L d k \<noteq> Failed m)"

lemma leveldb_laws:
  assumes "leveldb_ok L"
  shows "ldb_open L d = Inr d' \<Longrightarrow> ldb_get L d' = ldb_get L d"
    and "ldb_put L d k v = Inr d' \<Longrightarrow> ldb_get L d' = put_found (k, v) (ldb_get L d)"
    and "ldb_write L d b = Inr d' \<Longrightarrow> ldb_get L d' = fold put_found b (ldb_get L d)"
    and "ldb_destroy L d = (None, d') \<Longrightarrow> ldb_get L d' = (\<lambda>_. NotFound)"
    and "sorted_wrt (<) (map fst (ldb_scan L d k))"
    and "(k', v) \<in> set (ldb_scan L d k) \<longleftrightarrow> k \<le> k' \<and> ldb_get L d k' = Found v"
  using assms unfolding leveldb_ok_def by (simp_all | blast)+

section \<open>A concrete instance\<close>

text \<open>A database as an association list.\<close>

definition demo_get :: "(string \<times> string) list \<Rightarrow> string \<Rightarrow> get_status" where
  "demo_get d k = (case map_of d k of None \<Rightarrow> NotFound | Some v \<Rightarrow> Found v)"

definition demo_leveldb :: "(string \<times> string) list leveldb_api" where
  "demo_leveldb =
     \<lparr>ldb_open = Inr, ldb_put = (\<lambda>d k v. Inr (AList.update k v d)),
      ldb_write = (\<lambda>d b. Inr (fold (\<lambda>(k, v). AList.update k v) b d)),
      ldb_get = demo_get,
      ldb_scan = (\<lambda>d k. map (\<lambda>x. (x, the (map_of d x)))
                     (filter (\<lambda>x. k \<le> x) (sorted_list_of_set (fst ` set d)))),
      ldb_destroy = (\<lambda>d. (None, []))\<rparr>"

lemma demo_get_update: "demo_get (AList.update k v d) = put_found (k, v) (demo_get d)"
  by (auto simp: demo_get_def put_found_def update_conv' fun_eq_iff)

lemma demo_get_write:
  "demo_get (fold (\<lambda>(k, v). AList.update k v) b d) = fold put_found b (demo_get d)"
  by (induction b arbitrary: d) (auto simp: demo_get_update)

lemma demo_leveldb_ok: "leveldb_ok demo_leveldb"
  unfolding leveldb_ok_def
proof (intro conjI allI impI)
  fix d k
  show "sorted_wrt (<) (map fst (ldb_scan demo_leveldb d k))"
    by (simp add: demo_leveldb_def o_def sorted_wrt_filter)
  have keys: "set (sorted_list_of_set (fst ` set d)) = {x. map_of d x \<noteq> None}"
    by (subst set_sorted_list_of_set) (simp_all add: map_of_eq_None_iff)
  have "ldb_scan demo_leveldb d k = map (\<lambda>x. (x, the (map_of d x))) (filter ((\<le>) k) (sorted_list_of_set (fst ` set d)))"
    by (simp add: demo_leveldb_def)
  then have "set (ldb_scan demo_leveldb d k) = (\<lambda>x. (x, the (map_of d x))) ` {x \<in> {x. map_of d x \<noteq> None}. k \<le> x}"
    by (simp only: set_map set_filter keys)
  also have "\<dots> = {(k', v). k \<le> k' \<and> map_of d k' = Some v}"
    by (force simp: image_iff)
  also have "\<dots> = {(k', v). k \<le> k' \<and> ldb_get demo_leveldb d k' = Found v}"
    by (auto simp: demo_leveldb_def demo_get_def split: option.splits)
  finally show "set (ldb_scan demo_leveldb d k) = {(k', v). k \<le> k' \<and> ldb_get demo_leveldb d k' = Found v}" .
qed (auto simp: demo_leveldb_def demo_get_update demo_get_write demo_get_def)

lemma demo_leveldb_reliable: "leveldb_reliable demo_leveldb"
  unfolding leveldb_reliable_def using demo_leveldb_ok
  by (simp add: demo_leveldb_def demo_get_def split: option.splits)

end
