(* ===== verification/Storage.thy ===== *)
theory Storage
  imports Effects Leveldb_Api State_Manager
begin

text \<open>
  \<open>storage/storage.hpp\<close> and \<open>storage/storage.cpp\<close>: blocks, accounts and the chain height
  in one LevelDB, told apart by a two-character key prefix. The record holds the contents of the
  database directory and whether the handle is open: it is null after a \<open>clear\<close> that failed
  half way. The lemmas show that what is saved is what is loaded, under every key, that the four name spaces do not disturb each other, and that the
  padded block keys sort like the block heights below 10^8.
\<close>

record 'd storage =
  sto_path :: string
  sto_files :: 'd
  sto_open :: bool

text \<open>\<open>db_->...\<close> through a null handle is undefined; a write keeps the path.\<close>

definition with_db :: "('d \<Rightarrow> 'a result) \<Rightarrow> 'd storage \<Rightarrow> 'a result" where
  "with_db f s = (if \<not> sto_open s then Inl (BadAccess ''null database handle'') else f (sto_files s))"

definition write_db :: "string \<Rightarrow> ('d \<Rightarrow> string + 'd) \<Rightarrow> ('d storage, unit) proc" where
  "write_db failure f =
     (\<lambda>s. if \<not> sto_open s then (Inl (BadAccess ''null database handle''), s)
          else (case f (sto_files s) of
                Inl status \<Rightarrow> (Inl (RuntimeError (failure @ status)), s)
              | Inr d \<Rightarrow> (Inr (), s\<lparr>sto_files := d\<rparr>)))"

section \<open>Construction\<close>

definition newStorage :: "'d leveldb_api \<Rightarrow> string \<Rightarrow> 'd \<Rightarrow> 'd storage result" where
  "newStorage L dbPath files =
     (case ldb_open L files of
        Inl status \<Rightarrow> Inl (RuntimeError (''Failed to open LevelDB at '' @ [CHR 0x27] @ dbPath @
                        [CHR 0x27] @ '': '' @ status))
      | Inr d \<Rightarrow> Inr \<lparr>sto_path = dbPath, sto_files = d, sto_open = True\<rparr>)"

section \<open>Keys\<close>

definition padIndex :: "u64 \<Rightarrow> string" where
  "padIndex index =
     (let s = to_string index
      in if length s < 8 then replicate (8 - length s) (CHR ''0'') @ s else s)"

definition blockKey :: "u64 \<Rightarrow> string" where
  "blockKey index = ''b:'' @ padIndex index"

definition hashKey :: "hash32 \<Rightarrow> string" where
  "hashKey h = ''h:'' @ toHex_array h"

definition accountKey :: "address \<Rightarrow> string" where
  "accountKey a = ''a:'' @ toHex_array a"

definition heightKey :: string where
  "heightKey = ''m:'' @ ''height''"

section \<open>Blocks\<close>

definition saveBlock :: "'d leveldb_api \<Rightarrow> 'j json_api \<Rightarrow> block \<Rightarrow> ('d storage, unit) proc" where
  "saveBlock L J b =
     bind_p (eval_p (\<lambda>_. j_dump J (blockToJson J b))) (\<lambda>blockJson.
       write_db (''Failed to save block '' @ to_string (blk_index b) @ '': '')
         (\<lambda>d. ldb_write L d [(blockKey (blk_index b), blockJson),
                (hashKey (blk_hash b), to_string (blk_index b))]))"

definition loadBlock :: "'d leveldb_api \<Rightarrow> 'j json_api \<Rightarrow> u64 \<Rightarrow> 'd storage \<Rightarrow> block option result" where
  "loadBlock L J index =
     with_db (\<lambda>d. case ldb_get L d (blockKey index) of
         NotFound \<Rightarrow> Inr None
       | Failed status \<Rightarrow> Inl (RuntimeError (''Failed to load block '' @ to_string index @ '': '' @ status))
       | Found value \<Rightarrow> bind_e (j_parse J value) (\<lambda>j. bind_e (blockFromJson J j) (\<lambda>b. Inr (Some b))))"

definition loadBlockByHash :: "'d leveldb_api \<Rightarrow> 'j json_api \<Rightarrow> hash32 \<Rightarrow> 'd storage \<Rightarrow> block option result" where
  "loadBlockByHash L J h s =
     with_db (\<lambda>d. case ldb_get L d (hashKey h) of
         NotFound \<Rightarrow> Inr None
       | Failed status \<Rightarrow> Inl (RuntimeError (''Failed to look up block hash: '' @ status))
       | Found indexStr \<Rightarrow> bind_e (stoull indexStr) (\<lambda>index. loadBlock L J index s)) s"

section \<open>Accounts\<close>

definition accountToJson :: "'j json_api \<Rightarrow> account_state \<Rightarrow> 'j" where
  "accountToJson J acct =
     j_object J [(''balance'', j_uint J (acc_balance acct)), (''nonce'', j_uint J (acc_nonce acct))]"

definition accountFromText :: "'j json_api \<Rightarrow> string \<Rightarrow> account_state result" where
  "accountFromText J value =
     bind_e (j_parse J value) (\<lambda>j.
     bind_e (bind_e (j_index J j ''balance'') (j_get_uint J)) (\<lambda>balance.
     bind_e (bind_e (j_index J j ''nonce'') (j_get_uint J)) (\<lambda>nonce.
       Inr \<lparr>acc_balance = balance, acc_nonce = nonce\<rparr>)))"

definition saveAccountState ::
  "'d leveldb_api \<Rightarrow> 'j json_api \<Rightarrow> address \<Rightarrow> account_state \<Rightarrow> ('d storage, unit) proc" where
  "saveAccountState L J a acct =
     bind_p (eval_p (\<lambda>_. j_dump J (accountToJson J acct))) (\<lambda>value.
       write_db ''Failed to save account state: '' (\<lambda>d. ldb_put L d (accountKey a) value))"

definition loadAccountState ::
  "'d leveldb_api \<Rightarrow> 'j json_api \<Rightarrow> address \<Rightarrow> 'd storage \<Rightarrow> account_state option result" where
  "loadAccountState L J a =
     with_db (\<lambda>d. case ldb_get L d (accountKey a) of
         NotFound \<Rightarrow> Inr None
       | Failed status \<Rightarrow> Inl (RuntimeError (''Failed to load account state: '' @ status))
       | Found value \<Rightarrow> bind_e (accountFromText J value) (\<lambda>acct. Inr (Some acct)))"

definition addressFromKey :: "string \<Rightarrow> address" where
  "addressFromKey key =
     (let addrBytes = fromHex (drop 2 key)
      in if 20 \<le> length addrBytes then take 20 addrBytes else replicate 20 0)"

definition loadAllAccounts ::
  "'d leveldb_api \<Rightarrow> 'j json_api \<Rightarrow> 'd storage \<Rightarrow> (address \<times> account_state) list result" where
  "loadAllAccounts L J =
     with_db (\<lambda>d. map_e (\<lambda>(key, value). bind_e (accountFromText J value) (\<lambda>acct. Inr (addressFromKey key, acct)))
       (takeWhile (\<lambda>(key, value). take 2 key = ''a:'') (ldb_scan L d ''a:'')))"

section \<open>Height and clearing\<close>

definition saveChainHeight :: "'d leveldb_api \<Rightarrow> u64 \<Rightarrow> ('d storage, unit) proc" where
  "saveChainHeight L height =
     write_db ''Failed to save chain height: '' (\<lambda>d. ldb_put L d heightKey (to_string height))"

definition loadChainHeight :: "'d leveldb_api \<Rightarrow> 'd storage \<Rightarrow> u64 result" where
  "loadChainHeight L =
     with_db (\<lambda>d. case ldb_get L d heightKey of
         NotFound \<Rightarrow> Inr 0
       | Failed status \<Rightarrow> Inl (RuntimeError (''Failed to load chain height: '' @ status))
       | Found value \<Rightarrow> stoull value)"

definition clear :: "'d leveldb_api \<Rightarrow> ('d storage, unit) proc" where
  "clear L =
     (\<lambda>s. case ldb_destroy L (sto_files s) of
            (Some status, d) \<Rightarrow>
              (Inl (RuntimeError (''Failed to destroy database: '' @ status)), s\<lparr>sto_files := d, sto_open := False\<rparr>)
          | (None, d) \<Rightarrow>
              (case ldb_open L d of
                 Inl status \<Rightarrow> (Inl (RuntimeError (''Failed to reopen database after clear: '' @ status)),
                                s\<lparr>sto_files := d, sto_open := False\<rparr>)
               | Inr d' \<Rightarrow> (Inr (), s\<lparr>sto_files := d', sto_open := True\<rparr>)))"

section \<open>Keys are told apart\<close>

lemma to_string_length_bound: "unat w < 10 ^ 8 \<Longrightarrow> length (to_string w) \<le> 8"
  unfolding to_string_def by (rule to_string_nat_length_bound) simp_all

lemma padIndex_value: "digits_value 10 (padIndex w) = unat w"
proof -
  have zeros: "digits_value 10 (replicate n (CHR ''0'') @ s) = digits_value 10 s" for n s
    by (induction n) (simp_all add: digits_value_def digit_or_0_def digit_value_def)
  show ?thesis by (simp add: padIndex_def Let_def zeros to_string_def)
qed

lemma padIndex_inject [simp]: "padIndex v = padIndex w \<longleftrightarrow> v = w"
  by (metis padIndex_value word_unat_eq_iff)

lemma key_inject [simp]:
  "blockKey i = blockKey j \<longleftrightarrow> i = j" "hashKey g = hashKey h \<longleftrightarrow> g = h" "accountKey a = accountKey b \<longleftrightarrow> a = b"
  by (simp_all add: blockKey_def hashKey_def accountKey_def)

lemma key_distinct [simp]:
  "blockKey i \<noteq> hashKey h" "blockKey i \<noteq> accountKey a" "blockKey i \<noteq> heightKey"
  "hashKey h \<noteq> blockKey i" "hashKey h \<noteq> accountKey a" "hashKey h \<noteq> heightKey"
  "accountKey a \<noteq> blockKey i" "accountKey a \<noteq> hashKey h" "accountKey a \<noteq> heightKey"
  "heightKey \<noteq> blockKey i" "heightKey \<noteq> hashKey h" "heightKey \<noteq> accountKey a"
  by (simp_all add: blockKey_def hashKey_def accountKey_def heightKey_def)

lemma account_prefix [simp]:
  "take 2 (accountKey a) = ''a:''" "take 2 (blockKey i) \<noteq> ''a:''" "take 2 (hashKey h) \<noteq> ''a:''"
  "take 2 heightKey \<noteq> ''a:''"
  by (simp_all add: blockKey_def hashKey_def accountKey_def heightKey_def)

lemma addressFromKey_accountKey: "length a = 20 \<Longrightarrow> addressFromKey (accountKey a) = a"
  by (simp add: addressFromKey_def accountKey_def)

section \<open>What a database holds\<close>

text \<open>
  The specification: four maps. \<open>store_rep\<close> relates a database to the maps it stands for; a
  successful save is an update of one map, a load a lookup.
\<close>

record store_spec =
  ss_block :: "u64 \<rightharpoonup> block"
  ss_index :: "hash32 \<rightharpoonup> u64"
  ss_account :: "address \<rightharpoonup> account_state"
  ss_height :: "u64 option"

definition empty_store :: store_spec where
  "empty_store = \<lparr>ss_block = (\<lambda>_. None), ss_index = (\<lambda>_. None), ss_account = (\<lambda>_. None), ss_height = None\<rparr>"

definition stored :: "('a \<Rightarrow> string) \<Rightarrow> 'a option \<Rightarrow> get_status" where
  "stored f x = (case x of None \<Rightarrow> NotFound | Some y \<Rightarrow> Found (f y))"

lemma stored_simps [simp]: "stored f None = NotFound" "stored f (Some y) = Found (f y)"
  by (simp_all add: stored_def)

definition get_rep :: "'j json_api \<Rightarrow> (string \<Rightarrow> get_status) \<Rightarrow> store_spec \<Rightarrow> bool" where
  "get_rep J g sp \<longleftrightarrow>
     (\<forall>i. g (blockKey i) = stored (\<lambda>b. j_text J (blockToJson J b)) (ss_block sp i)) \<and>
     (\<forall>h. g (hashKey h) = stored to_string (ss_index sp h)) \<and>
     (\<forall>a. g (accountKey a) = stored (\<lambda>acct. j_text J (accountToJson J acct)) (ss_account sp a)) \<and>
     g heightKey = stored to_string (ss_height sp) \<and>
     (\<forall>k. take 2 k = ''a:'' \<longrightarrow> g k \<noteq> NotFound \<longrightarrow> (\<exists>a\<in>dom (ss_account sp). k = accountKey a)) \<and>
     (\<forall>i b. ss_block sp i = Some b \<longrightarrow> wf_block b) \<and> (\<forall>a\<in>dom (ss_account sp). length a = 20)"

definition store_rep :: "'d leveldb_api \<Rightarrow> 'j json_api \<Rightarrow> 'd storage \<Rightarrow> store_spec \<Rightarrow> bool" where
  "store_rep L J s sp \<longleftrightarrow> sto_open s \<and> get_rep J (ldb_get L (sto_files s)) sp"

definition spec_block :: "block \<Rightarrow> store_spec \<Rightarrow> store_spec" where
  "spec_block b sp = sp\<lparr>ss_block := (ss_block sp)(blk_index b \<mapsto> b), ss_index := (ss_index sp)(blk_hash b \<mapsto> blk_index b)\<rparr>"

definition spec_account :: "address \<Rightarrow> account_state \<Rightarrow> store_spec \<Rightarrow> store_spec" where
  "spec_account a acct sp = sp\<lparr>ss_account := (ss_account sp)(a \<mapsto> acct)\<rparr>"

definition spec_height :: "u64 \<Rightarrow> store_spec \<Rightarrow> store_spec" where
  "spec_height n sp = sp\<lparr>ss_height := Some n\<rparr>"

lemma accountToJson_plain: "json_plain J (accountToJson J acct)"
  unfolding accountToJson_def by (rule plain_object) (auto intro: plain_uint)

lemma accountFromText_text:
  assumes "json_ok J"
  shows "accountFromText J (j_text J (accountToJson J acct)) = Inr acct"
  using assms
  by (simp add: accountFromText_def json_parse_text accountToJson_plain)
    (simp add: accountToJson_def json_index json_leaf)

lemma write_db_cases:
  assumes "write_db m f s = (r, s')"
  shows "(\<exists>e. r = Inl e \<and> s' = s) \<or> (\<exists>d. sto_open s \<and> r = Inr () \<and> f (sto_files s) = Inr d \<and> s' = s\<lparr>sto_files := d\<rparr>)"
  using assms by (auto simp: write_db_def split: if_splits sum.splits)

lemma saveBlock_run:
  assumes "json_ok J"
  shows "saveBlock L J b s =
    write_db (''Failed to save block '' @ to_string (blk_index b) @ '': '')
      (\<lambda>d. ldb_write L d [(blockKey (blk_index b), j_text J (blockToJson J b)),
         (hashKey (blk_hash b), to_string (blk_index b))]) s"
  using json_plain_dump [OF assms blockToJson_plain, of b]
  by (simp add: saveBlock_def proc_simps)

lemma saveAccountState_run:
  assumes "json_ok J"
  shows "saveAccountState L J a acct s =
    write_db ''Failed to save account state: ''
      (\<lambda>d. ldb_put L d (accountKey a) (j_text J (accountToJson J acct))) s"
  using json_plain_dump [OF assms accountToJson_plain, of acct]
  by (simp add: saveAccountState_def proc_simps)

lemma put_found_apply [simp]: "put_found (k, v) g k' = (if k' = k then Found v else g k')"
  by (simp add: put_found_def)

lemma get_rep_block:
  assumes "get_rep J g sp" and "wf_block b"
  shows "get_rep J (put_found (hashKey (blk_hash b), to_string (blk_index b))
      (put_found (blockKey (blk_index b), j_text J (blockToJson J b)) g)) (spec_block b sp)"
  using assms unfolding get_rep_def spec_block_def by (auto split: if_splits)

lemma get_rep_account:
  assumes "get_rep J g sp" and "length a = 20"
  shows "get_rep J (put_found (accountKey a, j_text J (accountToJson J acct)) g) (spec_account a acct sp)"
  using assms unfolding get_rep_def spec_account_def by (auto split: if_splits)

lemma get_rep_height:
  assumes "get_rep J g sp"
  shows "get_rep J (put_found (heightKey, to_string n) g) (spec_height n sp)"
  using assms unfolding get_rep_def spec_height_def by (auto split: if_splits)

lemma saveBlock_rep:
  assumes "leveldb_ok L" and "json_ok J" and "store_rep L J s sp" and "wf_block b"
    and "saveBlock L J b s = (r, s')"
  shows "(\<exists>e. r = Inl e \<and> s' = s) \<or> (r = Inr () \<and> store_rep L J s' (spec_block b sp))"
  using write_db_cases [OF assms(5) [unfolded saveBlock_run [OF assms(2)]]] get_rep_block [of J _ sp b] assms(3,4)
  by (auto simp: store_rep_def leveldb_laws [OF assms(1)])

lemma saveAccountState_rep:
  assumes "leveldb_ok L" and "json_ok J" and "store_rep L J s sp" and "length a = 20"
    and "saveAccountState L J a acct s = (r, s')"
  shows "(\<exists>e. r = Inl e \<and> s' = s) \<or> (r = Inr () \<and> store_rep L J s' (spec_account a acct sp))"
  using write_db_cases [OF assms(5) [unfolded saveAccountState_run [OF assms(2)]]] get_rep_account [of J _ sp a] assms(3,4)
  by (auto simp: store_rep_def leveldb_laws [OF assms(1)])

lemma saveChainHeight_rep:
  assumes "leveldb_ok L" and "store_rep L J s sp" and "saveChainHeight L n s = (r, s')"
  shows "(\<exists>e. r = Inl e \<and> s' = s) \<or> (r = Inr () \<and> store_rep L J s' (spec_height n sp))"
  using write_db_cases [OF assms(3) [unfolded saveChainHeight_def]] get_rep_height [of J _ sp n] assms(2)
  by (auto simp: store_rep_def leveldb_laws [OF assms(1)])

text \<open>On a database whose calls do not fail, every write of an open store succeeds.\<close>

lemma write_db_total:
  assumes "sto_open s" and "\<exists>d. f (sto_files s) = Inr d"
  shows "\<exists>s'. write_db m f s = (Inr (), s') \<and> sto_open s'"
  using assms by (auto simp: write_db_def)

lemma save_total:
  assumes L: "leveldb_reliable L" and J: "json_ok J" and s: "sto_open s"
  shows "\<exists>s'. saveBlock L J b s = (Inr (), s') \<and> sto_open s'"
    and "\<exists>s'. saveAccountState L J a acct s = (Inr (), s') \<and> sto_open s'"
    and "\<exists>s'. saveChainHeight L h s = (Inr (), s') \<and> sto_open s'"
    and "\<exists>s'. clear L s = (Inr (), s') \<and> sto_open s'"
proof -
  obtain d d' where "ldb_destroy L (sto_files s) = (None, d)" "ldb_open L d = Inr d'"
    using L unfolding leveldb_reliable_def by blast
  then show "\<exists>s'. clear L s = (Inr (), s') \<and> sto_open s'" by (simp add: clear_def)
qed (use L in \<open>unfold saveBlock_run [OF J] saveAccountState_run [OF J] saveChainHeight_def leveldb_reliable_def,
    auto intro: write_db_total [OF s]\<close>)

section \<open>Loading\<close>

definition reads_ok :: "'d leveldb_api \<Rightarrow> bool" where
  "reads_ok L \<longleftrightarrow> (\<forall>d k m. ldb_get L d k \<noteq> Failed m)"

lemma loadBlock_rep:
  assumes "json_ok J" and "store_rep L J s sp"
  shows "loadBlock L J i s = Inr (ss_block sp i)"
proof (cases "ss_block sp i")
  case None
  then show ?thesis using assms(2) by (simp add: loadBlock_def with_db_def store_rep_def get_rep_def)
next
  case (Some b)
  then have "wf_block b" using assms(2) by (auto simp: store_rep_def get_rep_def)
  with Some assms show ?thesis
    by (simp add: loadBlock_def with_db_def store_rep_def get_rep_def json_parse_text blockToJson_plain
        blockFromJson_toJson)
qed

lemma loadBlockByHash_rep:
  assumes "json_ok J" and "store_rep L J s sp"
  shows "loadBlockByHash L J h s = Inr (case ss_index sp h of None \<Rightarrow> None | Some i \<Rightarrow> ss_block sp i)"
  using assms(2) loadBlock_rep [OF assms]
  by (simp add: loadBlockByHash_def with_db_def store_rep_def get_rep_def stoull_to_string split: option.splits)

lemma loadAccountState_rep:
  assumes "json_ok J" and "store_rep L J s sp"
  shows "loadAccountState L J a s = Inr (ss_account sp a)"
  using assms(2) accountFromText_text [OF assms(1)]
  by (cases "ss_account sp a") (simp_all add: loadAccountState_def with_db_def store_rep_def get_rep_def)

lemma loadChainHeight_rep:
  assumes "store_rep L J s sp"
  shows "loadChainHeight L s = Inr (case ss_height sp of None \<Rightarrow> 0 | Some n \<Rightarrow> n)"
  using assms by (simp add: loadChainHeight_def with_db_def store_rep_def get_rep_def stoull_to_string split: option.splits)

text \<open>Keys with a prefix are contiguous in the iterator's order.\<close>

lemma between_prefix:
  fixes p :: string
  shows "p \<le> k \<Longrightarrow> k < p @ x \<Longrightarrow> take (length p) k = p"
proof (induction p arbitrary: k)
  case (Cons c p)
  then show ?case by (cases k) (auto simp: less_le)
qed simp

lemma sorted_prefix_scan:
  fixes xs :: "(string \<times> 'v) list"
  assumes "sorted_wrt (<) (map fst xs)" and "\<forall>kv\<in>set xs. p \<le> fst kv"
  shows "takeWhile (\<lambda>(k, v). take (length p) k = p) xs = filter (\<lambda>(k, v). take (length p) k = p) xs"
  using assms
proof (induction xs)
  case (Cons kv xs)
  obtain k v where kv: "kv = (k, v)" by (cases kv)
  show ?case
  proof (cases "take (length p) k = p")
    case False
    have "take (length p) (fst kv') \<noteq> p" if "kv' \<in> set xs" for kv'
    proof
      assume pre: "take (length p) (fst kv') = p"
      then have "fst kv' = p @ drop (length p) (fst kv')" by (metis append_take_drop_id)
      moreover have "k < fst kv'" using Cons.prems(1) that kv by auto
      ultimately have "k < p @ drop (length p) (fst kv')" by simp
      then show False using between_prefix [of p k] Cons.prems(2) kv False by auto
    qed
    then have "filter (\<lambda>(k, v). take (length p) k = p) xs = []" by (auto simp: filter_empty_conv)
    with False kv show ?thesis by simp
  qed (use Cons kv in simp)
qed simp

lemma loadAllAccounts_rep:
  assumes L: "leveldb_ok L" and J: "json_ok J" and rep: "store_rep L J s sp"
  shows "\<exists>accs. loadAllAccounts L J s = Inr accs \<and> distinct (map fst accs) \<and> map_of accs = ss_account sp"
proof -
  let ?scan = "ldb_scan L (sto_files s) ''a:''"
  let ?own = "filter (\<lambda>(k, v). take 2 k = ''a:'') ?scan"
  define entry_of where "entry_of = (\<lambda>(k :: string, v :: string). let a = addressFromKey k in (a, the (ss_account sp a)))"
  have g: "get_rep J (ldb_get L (sto_files s)) sp" and opened: "sto_open s"
    using rep by (simp_all add: store_rep_def)
  have scan: "(k, v) \<in> set ?scan \<longleftrightarrow> ''a:'' \<le> k \<and> ldb_get L (sto_files s) k = Found v" for k v
    by (rule leveldb_laws(6) [OF L])
  have own: "takeWhile (\<lambda>(k, v). take 2 k = ''a:'') ?scan = ?own"
  proof -
    have "\<forall>kv\<in>set ?scan. ''a:'' \<le> fst kv" using scan by auto
    then have "takeWhile (\<lambda>(k, v). take (length ''a:'') k = ''a:'') ?scan =
        filter (\<lambda>(k, v). take (length ''a:'') k = ''a:'') ?scan"
      by (rule sorted_prefix_scan [OF leveldb_laws(5) [OF L]])
    then show ?thesis by (simp add: numeral_2_eq_2)
  qed
  have entry: "\<exists>a acct. k = accountKey a \<and> ss_account sp a = Some acct \<and> length a = 20 \<and> v = j_text J (accountToJson J acct)"
    if "(k, v) \<in> set ?own" for k v
  proof -
    have kv: "take 2 k = ''a:''" "ldb_get L (sto_files s) k = Found v" using that scan by auto
    then obtain a where a: "a \<in> dom (ss_account sp)" "k = accountKey a"
      using g unfolding get_rep_def by (metis get_status.distinct(1))
    then show ?thesis using g kv(2) unfolding get_rep_def by fastforce
  qed
  have "map_e (\<lambda>(k, v). bind_e (accountFromText J v) (\<lambda>acct. Inr (addressFromKey k, acct))) ?own = Inr (map entry_of ?own)"
  proof (rule map_e_all_Inr)
    fix x assume x: "x \<in> set ?own"
    obtain k v where kv: "x = (k, v)" by (cases x)
    then obtain a acct where "k = accountKey a" "ss_account sp a = Some acct" "length a = 20"
        "v = j_text J (accountToJson J acct)"
      using entry x by blast
    then show "(\<lambda>(k, v). bind_e (accountFromText J v) (\<lambda>acct. Inr (addressFromKey k, acct))) x = Inr (entry_of x)"
      by (simp add: kv entry_of_def accountFromText_text [OF J] addressFromKey_accountKey)
  qed
  then have load: "loadAllAccounts L J s = Inr (map entry_of ?own)"
    using opened own by (simp add: loadAllAccounts_def with_db_def)
  have keys: "distinct (map fst ?own)"
    using leveldb_laws(5) [OF L] by (metis distinct_map_filter strict_sorted_iff)
  have "inj_on (fst \<circ> entry_of) (set ?own)"
  proof (rule inj_onI)
    fix x y assume xy: "x \<in> set ?own" "y \<in> set ?own" "(fst \<circ> entry_of) x = (fst \<circ> entry_of) y"
    obtain kx vx ky vy where eq: "x = (kx, vx)" "y = (ky, vy)" by (cases x, cases y)
    have "kx = ky" using entry [of kx vx] entry [of ky vy] xy eq
      by (auto simp: entry_of_def addressFromKey_accountKey Let_def)
    then show "x = y" using keys xy eq by (metis eq_key_imp_eq_value)
  qed
  moreover have "distinct ?own" using keys by (simp add: distinct_map)
  ultimately have "distinct (map fst (map entry_of ?own))" by (simp add: distinct_map)
  moreover have "map_of (map entry_of ?own) = ss_account sp"
  proof (rule ext)
    fix a
    show "map_of (map entry_of ?own) a = ss_account sp a"
    proof (cases "ss_account sp a")
      case None
      have "a \<notin> fst ` set (map entry_of ?own)"
      proof
        assume "a \<in> fst ` set (map entry_of ?own)"
        then obtain k v where kv: "(k, v) \<in> set ?own" "a = addressFromKey k" by (auto simp: entry_of_def Let_def)
        then show False using entry [OF kv(1)] None by (auto simp: addressFromKey_accountKey)
      qed
      then have "map_of (map entry_of ?own) a = None" by (simp only: map_of_eq_None_iff not_False_eq_True)
      with None show ?thesis by simp
    next
      case (Some acct)
      have len: "length a = 20" using g Some by (auto simp: get_rep_def)
      have "ldb_get L (sto_files s) (accountKey a) = Found (j_text J (accountToJson J acct))"
        using g Some by (simp add: get_rep_def)
      moreover have "''a:'' \<le> accountKey a" by (simp add: accountKey_def)
      ultimately have "(accountKey a, j_text J (accountToJson J acct)) \<in> set ?own" using scan by simp
      then have "entry_of (accountKey a, j_text J (accountToJson J acct)) \<in> set (map entry_of ?own)" by (simp only: set_map image_eqI)
      then have "(a, acct) \<in> set (map entry_of ?own)"
        using Some len by (simp add: entry_of_def addressFromKey_accountKey)
      with \<open>distinct (map fst (map entry_of ?own))\<close> Some show ?thesis by (metis map_of_is_SomeI)
    qed
  qed
  ultimately show ?thesis using load by blast
qed

section \<open>Opening, clearing, key order\<close>

lemma get_rep_empty: "get_rep J (\<lambda>_. NotFound) empty_store"
  by (simp add: get_rep_def empty_store_def)

lemma newStorage_rep:
  assumes "leveldb_ok L" and "get_rep J (ldb_get L files) sp" and "newStorage L path files = Inr s"
  shows "store_rep L J s sp"
  using assms by (auto simp: newStorage_def store_rep_def leveldb_laws(1) [OF assms(1)] split: sum.splits)

lemma clear_rep:
  assumes "leveldb_ok L" and "clear L s = (Inr (), s')"
  shows "store_rep L J s' empty_store"
  using assms(2) get_rep_empty
  by (auto simp: clear_def store_rep_def leveldb_laws [OF assms(1)] split: prod.splits option.splits sum.splits)

text \<open>Digit strings of one length compare as their values do.\<close>

lemma digit_10: "is_digit 10 c \<Longrightarrow> 48 \<le> code_of c \<and> digit_or_0 10 c = code_of c - 48 \<and> code_of c < 58"
  by (auto simp: is_digit_def digit_or_0_def digit_value_def Let_def split: if_splits)

lemma code_less: "c < d \<longleftrightarrow> code_of c < code_of d"
  by (simp add: less_char_def code_of_def)

lemma code_eq: "c = d \<longleftrightarrow> code_of c = code_of d"
  by (simp add: code_of_def)

lemma digits_fold_less:
  assumes "length s = length t" and "list_all (is_digit 10) s" and "list_all (is_digit 10) t" and "(a :: nat) < b"
  shows "foldl (\<lambda>a c. a * 10 + digit_or_0 10 c) a s < foldl (\<lambda>a c. a * 10 + digit_or_0 10 c) b t"
  using assms
proof (induction s t arbitrary: a b rule: list_induct2)
  case (Cons c s d t)
  have "a * 10 + digit_or_0 10 c < b * 10 + digit_or_0 10 d"
    using Cons.prems digit_10 [of c] by auto
  with Cons show ?case by simp
qed simp

lemma digits_fold_order:
  assumes "length s = length t" and "list_all (is_digit 10) s" and "list_all (is_digit 10) t"
  shows "foldl (\<lambda>a c. a * 10 + digit_or_0 10 c) a s < foldl (\<lambda>a c. a * 10 + digit_or_0 10 c) a t \<longleftrightarrow> s < t"
  using assms
proof (induction s t arbitrary: a rule: list_induct2)
  case (Cons c s d t)
  have order: "c < d \<longleftrightarrow> digit_or_0 10 c < digit_or_0 10 d" "c = d \<longleftrightarrow> digit_or_0 10 c = digit_or_0 10 d"
    using Cons.prems digit_10 [of c] digit_10 [of d]
    using code_less [of c d] code_eq [of c d] by auto
  consider "c < d" | "c = d" | "d < c" using linorder_less_linear by blast
  then show ?case
  proof cases
    case 1
    then show ?thesis using digits_fold_less [of s t "a * 10 + digit_or_0 10 c" "a * 10 + digit_or_0 10 d"] Cons order by simp
  next
    case 2
    then show ?thesis using Cons by simp
  next
    case 3
    then have "digit_or_0 10 d < digit_or_0 10 c" using order by (metis linorder_neqE_nat order.asym)
    then show ?thesis
      using digits_fold_less [of t s "a * 10 + digit_or_0 10 d" "a * 10 + digit_or_0 10 c"] Cons 3 by auto
  qed
qed simp

lemma padIndex_8:
  assumes "unat w < 10 ^ 8"
  shows "length (padIndex w) = 8" and "list_all (is_digit 10) (padIndex w)"
  using to_string_length_bound [OF assms] to_string_nat_all_digits [of "unat w"]
  by (auto simp: padIndex_def Let_def to_string_def list_all_iff is_digit_def digit_value_def)

lemma padIndex_order:
  assumes "unat v < 10 ^ 8" and "unat w < 10 ^ 8"
  shows "padIndex v < padIndex w \<longleftrightarrow> v < w"
proof -
  have "padIndex v < padIndex w \<longleftrightarrow> digits_value 10 (padIndex v) < digits_value 10 (padIndex w)"
    using digits_fold_order [of "padIndex v" "padIndex w" 0] padIndex_8 assms by (simp add: digits_value_def)
  then show ?thesis by (simp add: padIndex_value word_less_nat_alt)
qed

lemma loadBlock_wf: "loadBlock L J i s = Inr (Some b) \<Longrightarrow> wf_block b"
  by (auto simp: loadBlock_def with_db_def split: if_splits get_status.splits dest: blockFromJson_wf)

end
