(* ===== verification/Storage_Properties.thy ===== *)
theory Storage_Properties
  imports Storage Samples
begin

text \<open>
  The properties of the store. A sequence of writes is run on a database, those that fail
  included; the specification applies the ones that succeeded to four maps.
\<close>

datatype store_op = SaveBlock block | SaveAccount address account_state | SaveHeight u64 | Clear

definition exec_op :: "'d leveldb_api \<Rightarrow> 'j json_api \<Rightarrow> store_op \<Rightarrow> ('d storage, unit) proc" where
  "exec_op L J oper =
     (case oper of
        SaveBlock b \<Rightarrow> saveBlock L J b
      | SaveAccount a acct \<Rightarrow> saveAccountState L J a acct
      | SaveHeight h \<Rightarrow> saveChainHeight L h
      | Clear \<Rightarrow> clear L)"

definition spec_op :: "store_op \<Rightarrow> store_spec \<Rightarrow> store_spec" where
  "spec_op oper =
     (case oper of
        SaveBlock b \<Rightarrow> spec_block b
      | SaveAccount a acct \<Rightarrow> spec_account a acct
      | SaveHeight h \<Rightarrow> spec_height h
      | Clear \<Rightarrow> (\<lambda>_. empty_store))"

text \<open>The values have the sizes their C++ types give them.\<close>

definition wf_op :: "store_op \<Rightarrow> bool" where
  "wf_op oper = (case oper of SaveBlock b \<Rightarrow> wf_block b | SaveAccount a acct \<Rightarrow> length a = 20 | _ \<Rightarrow> True)"

text \<open>
  A caller that carries on after a failed save; a failed \<open>clear\<close> closes the database and
  ends the run. The result lists the operations that succeeded.
\<close>

fun exec_ops :: "'d leveldb_api \<Rightarrow> 'j json_api \<Rightarrow> store_op list \<Rightarrow> 'd storage \<Rightarrow> (store_op list \<times> 'd storage) option" where
  "exec_ops L J [] s = Some ([], s)"
| "exec_ops L J (oper # ops) s =
     (case exec_op L J oper s of
        (Inr _, s') \<Rightarrow> map_option (\<lambda>(done_ops, t). (oper # done_ops, t)) (exec_ops L J ops s')
      | (Inl _, s') \<Rightarrow> if oper = Clear then None else exec_ops L J ops s')"

lemma exec_op_rep:
  assumes "leveldb_ok L" and "json_ok J" and "store_rep L J s sp" and "wf_op oper"
    and "exec_op L J oper s = (r, s')"
  shows "case r of Inl e \<Rightarrow> oper \<noteq> Clear \<longrightarrow> s' = s | Inr u \<Rightarrow> store_rep L J s' (spec_op oper sp)"
proof (cases oper)
  case (SaveBlock b)
  then show ?thesis
    using saveBlock_rep [OF assms(1-3), of b r s'] assms(4,5) by (auto simp: exec_op_def spec_op_def wf_op_def)
next
  case (SaveAccount a acct)
  then show ?thesis
    using saveAccountState_rep [OF assms(1-3), of a acct r s'] assms(4,5)
    by (auto simp: exec_op_def spec_op_def wf_op_def)
next
  case (SaveHeight h)
  then show ?thesis
    using saveChainHeight_rep [OF assms(1,3), of h r s'] assms(5) by (auto simp: exec_op_def spec_op_def)
next
  case Clear
  then show ?thesis
    using clear_rep [OF assms(1), of s s' J] assms(5) by (auto simp: exec_op_def spec_op_def split: sum.split)
qed

lemma exec_ops_rep:
  assumes "leveldb_ok L" and "json_ok J"
  shows "store_rep L J s sp \<Longrightarrow> list_all wf_op ops \<Longrightarrow> exec_ops L J ops s = Some (done_ops, t) \<Longrightarrow>
     store_rep L J t (fold spec_op done_ops sp)"
proof (induction ops arbitrary: s sp done_ops)
  case (Cons oper ops)
  obtain r s' where r: "exec_op L J oper s = (r, s')" by (cases "exec_op L J oper s")
  note step = exec_op_rep [OF assms Cons.prems(1) _ r]
  show ?case
  proof (cases r)
    case (Inl e)
    then have "s' = s" "exec_ops L J ops s' = Some (done_ops, t)"
      using step Cons.prems r by (auto split: if_splits)
    with Cons show ?thesis by simp
  next
    case (Inr u)
    then obtain rest where rest: "exec_ops L J ops s' = Some (rest, t)" "done_ops = oper # rest"
      using Cons.prems(3) r by auto
    have "store_rep L J s' (spec_op oper sp)" using step Cons.prems(2) Inr by simp
    then show ?thesis using Cons.IH [OF _ _ rest(1)] Cons.prems(2) rest(2) by simp
  qed
qed simp

text \<open>On a database whose calls do not fail, every operation succeeds.\<close>

lemma exec_op_total:
  assumes "leveldb_reliable L" and "json_ok J" and "sto_open s"
  shows "\<exists>s'. exec_op L J oper s = (Inr (), s') \<and> sto_open s'"
  using save_total [OF assms] by (cases oper) (simp_all add: exec_op_def)

lemma exec_ops_total:
  assumes "leveldb_reliable L" and "json_ok J"
  shows "sto_open s \<Longrightarrow> \<exists>t. exec_ops L J ops s = Some (ops, t)"
proof (induction ops arbitrary: s)
  case (Cons oper ops)
  then show ?case using exec_op_total [OF assms Cons.prems, of oper] by fastforce
qed simp

text \<open>C15. The store implements four maps: after opening an empty directory and any sequence of
  saves and clears, failed saves included, every load, by index, by hash, by address, of the
  height and of all accounts at once, returns what the maps updated by exactly the successful
  operations hold.\<close>

theorem storage_refines_maps:
  assumes "leveldb_ok L" and "json_ok J" and "\<forall>k. ldb_get L files k = NotFound"
    and "newStorage L path files = Inr s" and "list_all wf_op ops"
    and "exec_ops L J ops s = Some (done_ops, t)"
  shows "let sp = fold spec_op done_ops empty_store
    in loadBlock L J i t = Inr (ss_block sp i) \<and>
       loadBlockByHash L J h t = Inr (case ss_index sp h of None \<Rightarrow> None | Some k \<Rightarrow> ss_block sp k) \<and>
       loadAccountState L J a t = Inr (ss_account sp a) \<and>
       loadChainHeight L t = Inr (case ss_height sp of None \<Rightarrow> 0 | Some n \<Rightarrow> n) \<and>
       (\<exists>accs. loadAllAccounts L J t = Inr accs \<and> distinct (map fst accs) \<and> map_of accs = ss_account sp)"
proof -
  have "ldb_get L files = (\<lambda>_. NotFound)" using assms(3) by (simp add: fun_eq_iff)
  then have "store_rep L J s empty_store"
    using newStorage_rep [OF assms(1) _ assms(4)] get_rep_empty by metis
  then have "store_rep L J t (fold spec_op done_ops empty_store)"
    by (rule exec_ops_rep [OF assms(1,2) _ assms(5,6)])
  then show ?thesis
    unfolding Let_def
    by (intro conjI loadBlock_rep loadBlockByHash_rep loadAccountState_rep loadChainHeight_rep
        loadAllAccounts_rep assms(1,2))
qed

theorem storage_refines_maps_witness:
  "\<exists>s t. newStorage demo_leveldb ''db'' [] = Inr s \<and>
     exec_ops demo_leveldb demo_json [SaveBlock (sample_block []), SaveHeight 2] s =
       Some ([SaveBlock (sample_block []), SaveHeight 2], t) \<and>
     loadBlock demo_leveldb demo_json 1 t = Inr (Some (sample_block [])) \<and> loadChainHeight demo_leveldb t = Inr 2"
proof -
  let ?ops = "[SaveBlock (sample_block []), SaveHeight 2]"
  let ?s = "\<lparr>sto_path = ''db'', sto_files = [], sto_open = True\<rparr>"
  obtain t where t: "exec_ops demo_leveldb demo_json ?ops ?s = Some (?ops, t)"
    using exec_ops_total [OF demo_leveldb_reliable demo_json_ok, of ?s ?ops] by (simp del: exec_ops.simps) blast
  have s: "newStorage demo_leveldb ''db'' [] = Inr ?s" by (simp add: newStorage_def demo_leveldb_def)
  have "\<forall>k. ldb_get demo_leveldb [] k = NotFound" by (simp add: demo_leveldb_def demo_get_def)
  moreover have "list_all wf_op ?ops"
    by (simp add: wf_op_def wf_block_def sized_def sample_block_def sample_keys_def zeroHash_def)
  ultimately show ?thesis
    using storage_refines_maps [OF demo_leveldb_ok demo_json_ok _ s _ t, of 1] s t
    by (auto simp: Let_def spec_op_def spec_block_def spec_height_def sample_block_def)
qed

text \<open>C39. Block keys sort like block numbers as far as eight digits reach: below 10^8 the keys
  have eight digits and compare as the numbers do, the database's scan order is the height
  order; beyond, keys stay distinct but the order breaks.\<close>

theorem block_keys_ordered:
  "(\<forall>v w :: u64. unat v < 10 ^ 8 \<and> unat w < 10 ^ 8 \<longrightarrow>
      (blockKey v < blockKey w \<longleftrightarrow> v < w) \<and> length (blockKey v) = length (blockKey w)) \<and>
   inj blockKey \<and> blockKey 100000000 < blockKey 99999999"
proof (intro conjI allI impI)
  fix v w :: u64 assume "unat v < 10 ^ 8 \<and> unat w < 10 ^ 8"
  then show "blockKey v < blockKey w \<longleftrightarrow> v < w" "length (blockKey v) = length (blockKey w)"
    using padIndex_order padIndex_8(1) by (simp_all add: blockKey_def)
next
  show "inj blockKey" by (simp add: inj_def)
  show "blockKey 100000000 < blockKey 99999999"
    by (simp add: blockKey_def padIndex_def to_string_def Let_def to_string_nat_step digit_char_def less_char_def)
qed

theorem block_keys_ordered_witness: "blockKey 9 < blockKey 10 \<and> length (blockKey 9) = length (blockKey 10)"
  using conjunct1 [OF block_keys_ordered, rule_format, of 9 10] by simp

end
