(* ===== verification/Message.thy ===== *)
theory Message
  imports Json_Demo Hashing
begin

text \<open>
  \<open>net/message.hpp\<close> and \<open>net/message.cpp\<close>: message types, the JSON envelope and the
  four-byte little-endian length prefix. The length is computed at 32 bits as in the source:
  a body too long for it would be copied past the end of the buffer, which is the
  \<open>BadAccess\<close> branch. The lemmas give the round trips of types, lengths, bodies and frames.
\<close>

datatype message_type = PING | PONG | NEW_BLOCK | NEW_TX | GET_BLOCKS | BLOCKS

record 'j message =
  msg_type :: message_type
  msg_payload :: 'j

definition messageTypeToString :: "message_type \<Rightarrow> string" where
  "messageTypeToString t =
     (case t of PING \<Rightarrow> ''PING'' | PONG \<Rightarrow> ''PONG'' | NEW_BLOCK \<Rightarrow> ''NEW_BLOCK'' | NEW_TX \<Rightarrow> ''NEW_TX''
      | GET_BLOCKS \<Rightarrow> ''GET_BLOCKS'' | BLOCKS \<Rightarrow> ''BLOCKS'')"

definition messageTypeFromString :: "string \<Rightarrow> message_type result" where
  "messageTypeFromString str =
     (if str = ''PING'' then Inr PING
      else if str = ''PONG'' then Inr PONG
      else if str = ''NEW_BLOCK'' then Inr NEW_BLOCK
      else if str = ''NEW_TX'' then Inr NEW_TX
      else if str = ''GET_BLOCKS'' then Inr GET_BLOCKS
      else if str = ''BLOCKS'' then Inr BLOCKS
      else Inl (InvalidArgument (''Unknown message type: '' @ str)))"

definition encodeLength :: "u32 \<Rightarrow> bytes" where
  "encodeLength l =
     [ucast (l AND 0xFF), ucast (drop_bit 8 l AND 0xFF), ucast (drop_bit 16 l AND 0xFF),
      ucast (drop_bit 24 l AND 0xFF)]"

definition decodeLength :: "bytes \<Rightarrow> u32" where
  "decodeLength buf =
     ucast (buf ! 0) OR push_bit 8 (ucast (buf ! 1)) OR push_bit 16 (ucast (buf ! 2)) OR
     push_bit 24 (ucast (buf ! 3))"

definition messageBody :: "'j json_api \<Rightarrow> 'j message \<Rightarrow> string result" where
  "messageBody J m =
     j_dump J (j_object J
       [(''type'', j_string J (messageTypeToString (msg_type m))),
        (''payload'', if j_is_null J (msg_payload m) then j_object J [] else msg_payload m)])"

definition serializeMessage :: "'j json_api \<Rightarrow> 'j message \<Rightarrow> bytes result" where
  "serializeMessage J m =
     bind_e (messageBody J m) (\<lambda>body.
       let len = (word_of_nat (length body) :: u32);
           size = unat (4 + len)
       in if size < 4 + length body then Inl (BadAccess ''copy past the end of the message buffer'')
          else Inr (encodeLength len @ string_bytes body))"

definition deserializeMessage :: "'j json_api \<Rightarrow> string \<Rightarrow> 'j message result" where
  "deserializeMessage J jsonBody =
     bind_e (j_parse J jsonBody) (\<lambda>j.
     bind_e (bind_e (at_string J j ''type'') messageTypeFromString) (\<lambda>t.
     bind_e (j_value J j ''payload'' (j_object J [])) (\<lambda>payload.
       Inr \<lparr>msg_type = t, msg_payload = payload\<rparr>)))"

section \<open>Message types\<close>

instantiation message_type :: enum
begin

definition "Enum.enum = [PING, PONG, NEW_BLOCK, NEW_TX, GET_BLOCKS, BLOCKS]"
definition "Enum.enum_all P \<longleftrightarrow> P PING \<and> P PONG \<and> P NEW_BLOCK \<and> P NEW_TX \<and> P GET_BLOCKS \<and> P BLOCKS"
definition "Enum.enum_ex P \<longleftrightarrow> P PING \<or> P PONG \<or> P NEW_BLOCK \<or> P NEW_TX \<or> P GET_BLOCKS \<or> P BLOCKS"

instance
proof
  show "(UNIV :: message_type set) = set Enum.enum"
    using message_type.exhaust by (auto simp: enum_message_type_def)
  show "distinct (Enum.enum :: message_type list)"
    by (simp add: enum_message_type_def)
  show "Enum.enum_all P \<longleftrightarrow> Ball (UNIV :: message_type set) P" for P
    by (metis UNIV_I enum_all_message_type_def message_type.exhaust)
  show "Enum.enum_ex P \<longleftrightarrow> Bex (UNIV :: message_type set) P" for P
    by (metis UNIV_I enum_ex_message_type_def message_type.exhaust)
qed

end

interpretation type_name: codec messageTypeToString messageTypeFromString "\<lambda>_. True"
  by unfold_locales (simp add: messageTypeToString_def messageTypeFromString_def split: message_type.splits)

lemma messageTypeFromString_Inr: "messageTypeFromString s = Inr t \<Longrightarrow> s = messageTypeToString t"
  by (auto simp: messageTypeFromString_def messageTypeToString_def split: if_splits)

lemma ascii_messageType: "ascii (messageTypeToString t)"
  by (cases t) (simp_all add: messageTypeToString_def)

section \<open>Lengths\<close>

lemma length_encodeLength [simp]: "length (encodeLength l) = 4"
  by (simp add: encodeLength_def)

lemma decode_encodeLength [simp]: "decodeLength (encodeLength l) = l"
proof (rule bit_word_eqI)
  fix n :: nat assume n: "n < LENGTH(32)"
  have octet: "bit ((ucast (ucast (x AND 0xFF :: u32) :: byte)) :: u32) i \<longleftrightarrow> i < 8 \<and> bit x i" for x i
  proof -
    have "x AND 0xFF = take_bit 8 x" by (simp add: take_bit_eq_mask mask_eq_exp_minus_1)
    then show ?thesis
      by (auto simp: bit_ucast_iff bit_take_bit_iff)
  qed
  show "bit (decodeLength (encodeLength l)) n \<longleftrightarrow> bit l n"
  proof -
    have bits: "bit (decodeLength (encodeLength l)) n \<longleftrightarrow>
        (n < 8 \<and> bit l n) \<or> (8 \<le> n \<and> n - 8 < 8 \<and> bit l (8 + (n - 8))) \<or>
        (16 \<le> n \<and> n - 16 < 8 \<and> bit l (16 + (n - 16))) \<or> (24 \<le> n \<and> n - 24 < 8 \<and> bit l (24 + (n - 24)))"
      using n by (auto simp: decodeLength_def encodeLength_def bit_or_iff bit_push_bit_iff octet bit_drop_bit_eq
          numeral_3_eq_3)
    consider "n < 8" | "8 \<le> n" "n < 16" | "16 \<le> n" "n < 24" | "24 \<le> n" by linarith
    then show ?thesis using n bits by cases auto
  qed
qed

lemma decodeLength_prefix: "decodeLength (encodeLength l @ xs) = l"
proof -
  have "decodeLength (encodeLength l @ xs) = decodeLength (encodeLength l)"
    by (simp add: decodeLength_def nth_append)
  then show ?thesis by simp
qed

section \<open>Bodies and frames\<close>

text \<open>A null payload is sent as an empty object.\<close>

definition sent_payload :: "'j json_api \<Rightarrow> 'j message \<Rightarrow> 'j" where
  "sent_payload J m = (if j_is_null J (msg_payload m) then j_object J [] else msg_payload m)"

definition envelope :: "'j json_api \<Rightarrow> 'j message \<Rightarrow> 'j" where
  "envelope J m =
     j_object J [(''type'', j_string J (messageTypeToString (msg_type m))), (''payload'', sent_payload J m)]"

definition delivered :: "'j json_api \<Rightarrow> 'j message \<Rightarrow> 'j message" where
  "delivered J m = \<lparr>msg_type = msg_type m, msg_payload = sent_payload J m\<rparr>"

lemma empty_object_plain: "json_plain J (j_object J [])"
  by (rule plain_object) simp_all

lemma envelope_plain:
  assumes "json_plain J (msg_payload m)"
  shows "json_plain J (envelope J m)"
proof -
  have "json_plain J (sent_payload J m)" using assms by (simp add: sent_payload_def empty_object_plain)
  then show ?thesis
    unfolding envelope_def by (intro plain_object) (auto intro: plain_string simp: ascii_messageType)
qed

lemma messageBody_text:
  assumes "json_ok J" and "json_plain J (msg_payload m)"
  shows "messageBody J m = Inr (j_text J (envelope J m))"
  using json_plain_dump [OF assms(1) envelope_plain [OF assms(2)]]
  by (simp add: messageBody_def envelope_def sent_payload_def)

lemma deserialize_body:
  assumes "json_ok J" and "json_plain J (msg_payload m)" and "messageBody J m = Inr body"
  shows "deserializeMessage J body = Inr (delivered J m)"
proof -
  have body: "body = j_text J (envelope J m)" using messageBody_text [OF assms(1,2)] assms(3) by simp
  note access = at_string_object [OF assms(1)] json_value [OF assms(1)]
  have "at_string J (envelope J m) ''type'' = Inr (messageTypeToString (msg_type m))"
    unfolding envelope_def by (rule access) simp_all
  moreover have "j_value J (envelope J m) ''payload'' d = Inr (sent_payload J m)" for d
    unfolding envelope_def by (rule access) simp_all
  ultimately show ?thesis
    using json_parse_text [OF assms(1) envelope_plain [OF assms(2)]]
    by (simp add: deserializeMessage_def body delivered_def type_name.dec_enc)
qed

lemma serializeMessage_frame:
  assumes "messageBody J m = Inr body" and "length body < 2 ^ 32 - 4"
  shows "serializeMessage J m = Inr (encodeLength (word_of_nat (length body)) @ string_bytes body)"
proof -
  have "unat (4 + word_of_nat (length body) :: u32) = 4 + length body"
    using assms(2) by (simp add: unat_word_ariths unat_of_nat)
  then show ?thesis using assms(1) by (simp add: serializeMessage_def Let_def)
qed

lemma serializeMessage_Inr:
  assumes "serializeMessage J m = Inr frame"
  obtains body where "messageBody J m = Inr body" and "length body < 2 ^ 32"
    and "frame = encodeLength (word_of_nat (length body)) @ string_bytes body"
proof -
  obtain body where body: "messageBody J m = Inr body"
      "\<not> unat (4 + word_of_nat (length body) :: u32) < 4 + length body"
      "frame = encodeLength (word_of_nat (length body)) @ string_bytes body"
    using assms by (auto simp: serializeMessage_def Let_def split: if_splits)
  have "unat (4 + word_of_nat (length body) :: u32) < 2 ^ 32"
    using unsigned_less [of "4 + word_of_nat (length body) :: u32", where ?'a = nat] by simp
  then have "length body < 2 ^ 32" using body(2) by linarith
  with body show ?thesis using that by blast
qed

end
