(* ===== verification/Peer_Session.thy ===== *)
theory Peer_Session
  imports Message
begin

text \<open>
  \<open>net/peer_session.hpp\<close> and \<open>net/peer_session.cpp\<close>: one connection. Every handler runs on
  the \<open>io_context\<close> thread, so a session is a state machine whose events are the completions of
  its asynchronous operations and the closures posted by \<open>send\<close> and \<open>close\<close>; its effects are
  the operations it starts and the callbacks it calls. \<open>session_world\<close> adds what asio
  guarantees: only an operation that was started completes, and it completes once. The lemmas
  give the write queue's discipline, the single disconnect and the framing of a byte stream.
\<close>

record peer_session =
  ps_writeQueue :: "bytes list"
  ps_isWriting :: bool
  ps_closed :: bool

datatype pending_read = Header | Body u32

datatype 'j session_effect =
    AsyncRead pending_read
  | AsyncWrite bytes
  | OnMessage "'j message"
  | CloseSocket
  | OnDisconnect

text \<open>A completion carries the bytes read, or nothing when it reports an error.\<close>

datatype session_event =
    Start
  | PostedSend bytes
  | PostedClose
  | HeaderDone "bytes option"
  | BodyDone "bytes option"
  | WriteDone bool

definition newSession :: peer_session where
  "newSession = \<lparr>ps_writeQueue = [], ps_isWriting = False, ps_closed = False\<rparr>"

definition maxBody :: u32 where
  "maxBody = 16 * 1024 * 1024"

text \<open>The text for the log; \<open>endpoint\<close> is what \<open>remote_endpoint\<close> gives, nothing when it throws.\<close>

definition remoteAddress :: "(string \<times> u16) option \<Rightarrow> string" where
  "remoteAddress endpoint =
     (case endpoint of
        Some (address, port) \<Rightarrow> address @ '':'' @ to_string_nat (unat port)
      | None \<Rightarrow> ''<disconnected>'')"

definition disconnect :: "peer_session \<Rightarrow> peer_session \<times> 'j session_effect list" where
  "disconnect s =
     (if ps_closed s then (s, []) else (s\<lparr>ps_closed := True\<rparr>, [CloseSocket, OnDisconnect]))"

definition doWrite :: "peer_session \<Rightarrow> peer_session \<times> 'j session_effect list" where
  "doWrite s =
     (if ps_writeQueue s = [] \<or> ps_closed s then (s\<lparr>ps_isWriting := False\<rparr>, [])
      else (s\<lparr>ps_isWriting := True\<rparr>, [AsyncWrite (hd (ps_writeQueue s))]))"

definition postedSend :: "peer_session \<Rightarrow> bytes \<Rightarrow> peer_session \<times> 'j session_effect list" where
  "postedSend s data =
     (if ps_closed s then (s, [])
      else let s1 = s\<lparr>ps_writeQueue := ps_writeQueue s @ [data]\<rparr>
           in if \<not> ps_isWriting s1 then doWrite s1 else (s1, []))"

definition writeDone :: "peer_session \<Rightarrow> bool \<Rightarrow> peer_session \<times> 'j session_effect list" where
  "writeDone s ok =
     (if \<not> ok then disconnect s else doWrite (s\<lparr>ps_writeQueue := tl (ps_writeQueue s)\<rparr>))"

definition headerDone :: "peer_session \<Rightarrow> bytes option \<Rightarrow> peer_session \<times> 'j session_effect list" where
  "headerDone s r =
     (case r of
        None \<Rightarrow> disconnect s
      | Some headerBuf \<Rightarrow>
          let bodyLen = decodeLength headerBuf
          in if maxBody < bodyLen then disconnect s else (s, [AsyncRead (Body bodyLen)]))"

definition bodyDone ::
  "'j json_api \<Rightarrow> peer_session \<Rightarrow> bytes option \<Rightarrow> peer_session \<times> 'j session_effect list" where
  "bodyDone J s r =
     (case r of
        None \<Rightarrow> disconnect s
      | Some bodyBuf \<Rightarrow>
          (case deserializeMessage J (bytes_string bodyBuf) of
             Inl e \<Rightarrow> (s, [AsyncRead Header])
           | Inr msg \<Rightarrow> (s, [OnMessage msg, AsyncRead Header])))"

fun session_step :: "'j json_api \<Rightarrow> peer_session \<Rightarrow> session_event \<Rightarrow> peer_session \<times> 'j session_effect list" where
  "session_step J s Start = (s, [AsyncRead Header])"
| "session_step J s (PostedSend data) = postedSend s data"
| "session_step J s PostedClose = disconnect s"
| "session_step J s (HeaderDone r) = headerDone s r"
| "session_step J s (BodyDone r) = bodyDone J s r"
| "session_step J s (WriteDone ok) = writeDone s ok"

section \<open>The session among its asynchronous operations\<close>

text \<open>
  \<open>sw_clash\<close> records a second read or write started while one is in flight, which asio
  forbids; \<open>sw_queued\<close> and \<open>sw_sent\<close> are the frames accepted for sending and the frames
  completely written.
\<close>

record session_world =
  sw_session :: peer_session
  sw_read :: "pending_read option"
  sw_write :: "bytes option"
  sw_queued :: "bytes list"
  sw_sent :: "bytes list"
  sw_disconnects :: nat
  sw_clash :: bool

fun perform :: "'j session_effect \<Rightarrow> session_world \<Rightarrow> session_world" where
  "perform (AsyncRead r) w = w\<lparr>sw_clash := sw_clash w \<or> sw_read w \<noteq> None, sw_read := Some r\<rparr>"
| "perform (AsyncWrite d) w = w\<lparr>sw_clash := sw_clash w \<or> sw_write w \<noteq> None, sw_write := Some d\<rparr>"
| "perform (OnMessage m) w = w"
| "perform CloseSocket w = w"
| "perform OnDisconnect w = w\<lparr>sw_disconnects := Suc (sw_disconnects w)\<rparr>"

definition react :: "'j json_api \<Rightarrow> session_event \<Rightarrow> session_world \<Rightarrow> session_world" where
  "react J e w =
     (let (s, effs) = session_step J (sw_session w) e in fold perform effs (w\<lparr>sw_session := s\<rparr>))"

inductive session_run :: "'j json_api \<Rightarrow> session_world \<Rightarrow> bool" for J where
  run_start: "session_run J (react J Start
     \<lparr>sw_session = newSession, sw_read = None, sw_write = None, sw_queued = [], sw_sent = [],
      sw_disconnects = 0, sw_clash = False\<rparr>)"
| run_send: "session_run J w \<Longrightarrow>
     session_run J (react J (PostedSend d)
       (w\<lparr>sw_queued := (if ps_closed (sw_session w) then sw_queued w else sw_queued w @ [d])\<rparr>))"
| run_close: "session_run J w \<Longrightarrow> session_run J (react J PostedClose w)"
| run_header: "session_run J w \<Longrightarrow> sw_read w = Some Header \<Longrightarrow>
     session_run J (react J (HeaderDone r) (w\<lparr>sw_read := None\<rparr>))"
| run_body: "session_run J w \<Longrightarrow> sw_read w = Some (Body n) \<Longrightarrow>
     session_run J (react J (BodyDone r) (w\<lparr>sw_read := None\<rparr>))"
| run_written: "session_run J w \<Longrightarrow> sw_write w = Some d \<Longrightarrow>
     session_run J (react J (WriteDone ok)
       (w\<lparr>sw_write := None, sw_sent := (if ok then sw_sent w @ [d] else sw_sent w)\<rparr>))"

text \<open>The invariant, in three parts.\<close>

definition write_inv :: "session_world \<Rightarrow> bool" where
  "write_inv w \<longleftrightarrow>
     sw_queued w = sw_sent w @ ps_writeQueue (sw_session w) \<and>
     (\<forall>d. sw_write w = Some d \<longrightarrow>
        ps_isWriting (sw_session w) \<and> ps_writeQueue (sw_session w) \<noteq> [] \<and> d = hd (ps_writeQueue (sw_session w))) \<and>
     (sw_write w = None \<longrightarrow> ps_closed (sw_session w) \<or>
        (\<not> ps_isWriting (sw_session w) \<and> ps_writeQueue (sw_session w) = []))"

definition read_inv :: "session_world \<Rightarrow> bool" where
  "read_inv w \<longleftrightarrow>
     (\<not> ps_closed (sw_session w) \<longrightarrow> sw_read w \<noteq> None) \<and>
     (\<forall>n. sw_read w = Some (Body n) \<longrightarrow> n \<le> maxBody)"

definition close_inv :: "session_world \<Rightarrow> bool" where
  "close_inv w \<longleftrightarrow> sw_disconnects w = (if ps_closed (sw_session w) then 1 else 0) \<and> \<not> sw_clash w"

definition session_inv :: "session_world \<Rightarrow> bool" where
  "session_inv w \<longleftrightarrow> write_inv w \<and> read_inv w \<and> close_inv w"

lemmas session_defs = react_def disconnect_def doWrite_def postedSend_def writeDone_def headerDone_def bodyDone_def
lemmas inv_defs = session_inv_def write_inv_def read_inv_def close_inv_def

lemma session_run_inv: "session_run J w \<Longrightarrow> session_inv w"
proof (induction rule: session_run.induct)
  case run_start
  then show ?case by (simp add: session_defs inv_defs newSession_def)
next
  case (run_send w d)
  then show ?case
    by (cases "sw_write w"; cases "ps_closed (sw_session w)") (auto simp: session_defs inv_defs)
next
  case (run_close w)
  then show ?case by (cases "ps_closed (sw_session w)") (auto simp: session_defs inv_defs)
next
  case (run_header w r)
  then show ?case
    by (cases r; cases "ps_closed (sw_session w)") (auto simp: session_defs inv_defs Let_def not_less)
next
  case (run_body w n r)
  then show ?case
    by (cases r; cases "ps_closed (sw_session w)") (auto simp: session_defs inv_defs Let_def split: sum.splits)
next
  case (run_written w d ok)
  then obtain rest where q: "ps_writeQueue (sw_session w) = d # rest"
    by (auto simp: inv_defs neq_Nil_conv)
  then show ?case
    using run_written
    by (cases ok; cases "ps_closed (sw_session w)"; cases rest) (auto simp: session_defs inv_defs)
qed

text \<open>An open session whose writes succeed sends everything it accepted.\<close>

lemma session_drains:
  "session_run J w \<Longrightarrow> \<not> ps_closed (sw_session w) \<Longrightarrow>
     \<exists>w'. session_run J w' \<and> sw_queued w' = sw_queued w \<and> sw_sent w' = sw_queued w \<and> \<not> ps_closed (sw_session w')"
proof (induction "length (ps_writeQueue (sw_session w))" arbitrary: w)
  case 0
  then have "sw_sent w = sw_queued w" using session_run_inv [of J w] by (simp add: inv_defs)
  with 0 show ?case by blast
next
  case (Suc n)
  have inv: "session_inv w" by (rule session_run_inv [OF Suc.prems(1)])
  obtain d rest where q: "ps_writeQueue (sw_session w) = d # rest" "length rest = n"
    using Suc.hyps(2) by (cases "ps_writeQueue (sw_session w)") auto
  then have wr: "sw_write w = Some d" using inv Suc.prems(2) by (cases "sw_write w") (auto simp: inv_defs)
  let ?w = "react J (WriteDone True) (w\<lparr>sw_write := None, sw_sent := sw_sent w @ [d]\<rparr>)"
  have "session_run J ?w" using run_written [OF Suc.prems(1) wr, of True] by simp
  moreover have "ps_writeQueue (sw_session ?w) = rest" "\<not> ps_closed (sw_session ?w)" "sw_queued ?w = sw_queued w"
    using q Suc.prems(2) by (auto simp: session_defs)
  ultimately show ?case using Suc.hyps(1) [of ?w] q(2) by simp
qed

section \<open>Framing a byte stream\<close>

text \<open>
  What the two read handlers make of the bytes of the connection: \<open>async_read\<close> completes
  when it has exactly the bytes asked for, so the messages depend on the stream only, not on
  how TCP cuts it. The result is the session, the messages delivered and the bytes not read.
\<close>

fun read_size :: "pending_read \<Rightarrow> nat" where
  "read_size Header = 4"
| "read_size (Body n) = unat n"

fun read_event :: "pending_read \<Rightarrow> bytes \<Rightarrow> session_event" where
  "read_event Header bs = HeaderDone (Some bs)"
| "read_event (Body n) bs = BodyDone (Some bs)"

fun next_read :: "'j session_effect list \<Rightarrow> pending_read option" where
  "next_read [] = None"
| "next_read (AsyncRead r # es) = Some r"
| "next_read (e # es) = next_read es"

fun messages_in :: "'j session_effect list \<Rightarrow> 'j message list" where
  "messages_in [] = []"
| "messages_in (OnMessage m # es) = m # messages_in es"
| "messages_in (e # es) = messages_in es"

lemma next_after_header:
  "next_read (snd (session_step J s (read_event Header bs))) = Some r \<Longrightarrow> \<exists>n. r = Body n"
  by (auto simp: headerDone_def disconnect_def Let_def split: if_splits)

lemma next_after_body:
  "next_read (snd (session_step J s (read_event (Body n) bs))) = Some r \<Longrightarrow> r = Header"
  by (auto simp: bodyDone_def split: sum.splits)

function feed ::
  "'j json_api \<Rightarrow> peer_session \<Rightarrow> pending_read \<Rightarrow> bytes \<Rightarrow> peer_session \<times> 'j message list \<times> bytes" where
  "feed J s r input =
     (if length input < read_size r then (s, [], input)
      else let step = session_step J s (read_event r (take (read_size r) input));
               rest = drop (read_size r) input
           in case next_read (snd step) of
                None \<Rightarrow> (fst step, messages_in (snd step), rest)
              | Some r' \<Rightarrow>
                  let (s', ms, left) = feed J (fst step) r' rest
                  in (s', messages_in (snd step) @ ms, left))"
  by pat_completeness auto
termination
proof (relation "measure (\<lambda>(J, s, r, input). 2 * length input + (case r of Header \<Rightarrow> 0 | Body n \<Rightarrow> 1))", goal_cases)
  case (2 J s r input step rest r')
  show ?case
  proof (cases r)
    case Header
    then obtain n where "r' = Body n" using 2 next_after_header by blast
    with 2 Header show ?thesis by auto
  next
    case (Body n)
    then have "r' = Header" using 2 next_after_body by blast
    with 2 Body show ?thesis by auto
  qed
qed simp

declare feed.simps [simp del]

lemma feed_frame:
  assumes J: "json_ok J" and plain: "json_plain J (msg_payload m)"
    and frame: "serializeMessage J m = Inr frame" and small: "length frame \<le> 4 + 16 * 1024 * 1024"
  shows "feed J s Header (frame @ rem) =
    (case feed J s Header rem of (s', ms, left) \<Rightarrow> (s', delivered J m # ms, left))"
proof -
  obtain body where body: "messageBody J m = Inr body" "length body < 2 ^ 32"
      "frame = encodeLength (word_of_nat (length body)) @ string_bytes body"
    using serializeMessage_Inr [OF frame] .
  let ?l = "word_of_nat (length body) :: u32"
  have l: "unat ?l = length body" using body(2) by (simp add: unat_of_nat)
  have fits: "\<not> maxBody < ?l"
    using small body(3) l by (simp add: maxBody_def word_less_nat_alt)
  have msg: "deserializeMessage J body = Inr (delivered J m)"
    by (rule deserialize_body [OF J plain body(1)])
  have "feed J s Header (frame @ rem) = feed J s (Body ?l) (string_bytes body @ rem)"
    by (subst feed.simps) (simp add: body(3) headerDone_def fits Let_def)
  also have "\<dots> = (case feed J s Header rem of (s', ms, left) \<Rightarrow> (s', delivered J m # ms, left))"
    by (subst feed.simps) (simp add: l bodyDone_def msg Let_def)
  finally show ?thesis .
qed

lemma feed_frames:
  assumes "json_ok J"
    and "list_all2 (\<lambda>m frame. json_plain J (msg_payload m) \<and> serializeMessage J m = Inr frame \<and>
      length frame \<le> 4 + 16 * 1024 * 1024) ms frames"
  shows "feed J s Header (concat frames) = (s, map (delivered J) ms, [])"
  using assms(2)
proof (induction ms frames rule: list_all2_induct)
  case Nil
  then show ?case by (subst feed.simps) simp
next
  case (Cons m ms frame frames)
  then show ?case using feed_frame [OF assms(1), of m frame s "concat frames"] by simp
qed

text \<open>A length above the limit disconnects at once, whatever follows.\<close>

lemma feed_too_large:
  assumes "maxBody < l"
  shows "feed J s Header (encodeLength l @ rem) = (s\<lparr>ps_closed := True\<rparr>, [], rem)"
  using assms by (subst feed.simps) (simp add: headerDone_def disconnect_def Let_def)

end
