(* ===== verification/Network.thy ===== *)
theory Network
  imports Effects Message
begin

text \<open>
  \<open>net/network_manager.hpp\<close> and \<open>net/network_manager.cpp\<close>: the list of connected peers, the
  broadcast over it and the accept loop. A peer session is its number; \<open>net_posted\<close> is the
  sequence of messages handed to \<open>PeerSession::send\<close>, which serialises at once (and may throw)
  and posts the frame to that session, \<open>net_closing\<close> that of the closures \<open>PeerSession::close\<close>
  posted. \<open>net_accepting\<close> says that an \<open>async_accept\<close> is outstanding, \<open>net_running\<close> that the
  thread runs the \<open>io_context\<close>. The completion handlers take what asio completes with; the
  callback to the node is a parameter. Sockets, name resolution and the thread are asio's.
\<close>

record 'j network =
  net_peers :: "nat list"
  net_posted :: "(nat \<times> 'j message) list"
  net_closing :: "nat list"
  net_accepting :: bool
  net_running :: bool

text \<open>A manager nobody has used.\<close>

definition freshNetwork :: "'j network" where
  "freshNetwork =
     \<lparr>net_peers = [], net_posted = [], net_closing = [], net_accepting = False, net_running = False\<rparr>"

text \<open>
  What the operating system says to a listening socket on a port: nothing, or why it cannot be
  opened, bound or listened on.
\<close>

type_synonym ports_api = "u16 \<Rightarrow> string option"

text \<open>The constructor: the acceptor's throws \<open>std::system_error\<close>, a \<open>std::runtime_error\<close>.\<close>

definition newNetwork :: "ports_api \<Rightarrow> u16 \<Rightarrow> 'j network result" where
  "newNetwork P port = (case P port of Some reason \<Rightarrow> Inl (RuntimeError reason) | None \<Rightarrow> Inr freshNetwork)"

definition addPeer :: "nat \<Rightarrow> 'j network \<Rightarrow> 'j network" where
  "addPeer p n = n\<lparr>net_peers := net_peers n @ [p]\<rparr>"

definition removePeer :: "nat \<Rightarrow> 'j network \<Rightarrow> 'j network" where
  "removePeer p n = n\<lparr>net_peers := filter (\<lambda>q. q \<noteq> p) (net_peers n)\<rparr>"

definition peerCount :: "'j network \<Rightarrow> nat" where
  "peerCount n = length (net_peers n)"

text \<open>\<open>PeerSession::send\<close> up to the \<open>asio::post\<close>.\<close>

definition send_to :: "'j json_api \<Rightarrow> nat \<Rightarrow> 'j message \<Rightarrow> ('j network, unit) proc" where
  "send_to J p m =
     bind_p (eval_p (\<lambda>_. serializeMessage J m)) (\<lambda>_.
       modify_p (\<lambda>n. n\<lparr>net_posted := net_posted n @ [(p, m)]\<rparr>))"

definition broadcast :: "'j json_api \<Rightarrow> 'j message \<Rightarrow> nat option \<Rightarrow> ('j network, unit) proc" where
  "broadcast J m exclude =
     bind_p (read_p net_peers) (\<lambda>peers.
       for_p peers (\<lambda>p. if Some p \<noteq> exclude then send_to J p m else ret ()))"

section \<open>Life cycle\<close>

definition startAccepting :: "'j network \<Rightarrow> 'j network" where
  "startAccepting n = n\<lparr>net_accepting := True\<rparr>"

definition start :: "'j network \<Rightarrow> 'j network" where
  "start n = (startAccepting n)\<lparr>net_running := True\<rparr>"

definition stop :: "'j network \<Rightarrow> 'j network" where
  "stop n = n\<lparr>net_closing := net_closing n @ net_peers n, net_peers := [], net_running := False\<rparr>"

text \<open>
  A connection is registered, its session started and the callback told. \<open>upd\<close> lifts a change
  of the network to the state the callback works on.
\<close>

definition connected ::
  "(('j network \<Rightarrow> 'j network) \<Rightarrow> ('s, unit) proc) \<Rightarrow> (nat \<Rightarrow> ('s, unit) proc) option \<Rightarrow> nat \<Rightarrow> ('s, unit) proc" where
  "connected upd onPeerConnected p =
     then_p (upd (addPeer p))
       (case onPeerConnected of None \<Rightarrow> ret () | Some callback \<Rightarrow> callback p)"

text \<open>The handler of \<open>async_accept\<close>: \<open>None\<close> is any error, after which nothing accepts again.\<close>

definition acceptDone ::
  "(('j network \<Rightarrow> 'j network) \<Rightarrow> ('s, unit) proc) \<Rightarrow> (nat \<Rightarrow> ('s, unit) proc) option \<Rightarrow> nat option \<Rightarrow> ('s, unit) proc" where
  "acceptDone upd onPeerConnected socket =
     then_p (upd (\<lambda>n. n\<lparr>net_accepting := False\<rparr>))
       (case socket of
          None \<Rightarrow> ret ()
        | Some p \<Rightarrow> then_p (connected upd onPeerConnected p) (upd startAccepting))"

text \<open>The handlers of \<open>connectToPeer\<close>: \<open>None\<close> is a failed resolution or connection.\<close>

definition connectDone ::
  "(('j network \<Rightarrow> 'j network) \<Rightarrow> ('s, unit) proc) \<Rightarrow> (nat \<Rightarrow> ('s, unit) proc) option \<Rightarrow> nat option \<Rightarrow> ('s, unit) proc" where
  "connectDone upd onPeerConnected socket =
     (case socket of None \<Rightarrow> ret () | Some p \<Rightarrow> connected upd onPeerConnected p)"

section \<open>Facts\<close>

lemma send_to_peers [simp]: "net_peers (snd (send_to J p m n)) = net_peers n"
  by (auto simp: send_to_def proc_simps bind_p_def split: sum.splits)

lemma send_to_run:
  "serializeMessage J m = Inr f \<Longrightarrow> send_to J p m n = (Inr (), n\<lparr>net_posted := net_posted n @ [(p, m)]\<rparr>)"
  by (simp add: send_to_def proc_simps)

lemma broadcast_loop:
  assumes "serializeMessage J m = Inr f"
  shows "for_p ps (\<lambda>p. if Some p \<noteq> ex then send_to J p m else ret ()) n =
    (Inr (), n\<lparr>net_posted := net_posted n @ map (\<lambda>p. (p, m)) (filter (\<lambda>p. Some p \<noteq> ex) ps)\<rparr>)"
proof (induction ps arbitrary: n)
  case (Cons p ps)
  then show ?case
    by (cases "Some p = ex") (simp_all add: proc_simps send_to_run [OF assms])
qed (simp add: proc_simps)

lemma broadcast_run:
  "serializeMessage J m = Inr f \<Longrightarrow>
     broadcast J m ex n =
       (Inr (), n\<lparr>net_posted := net_posted n @ map (\<lambda>p. (p, m)) (filter (\<lambda>p. Some p \<noteq> ex) (net_peers n))\<rparr>)"
  by (simp add: broadcast_def proc_simps broadcast_loop)

lemma keeps_peers:
  "keeps (\<lambda>n. net_peers n = ps) (send_to J p m)" "keeps (\<lambda>n. net_peers n = ps) (broadcast J m ex)"
proof -
  show send: "keeps (\<lambda>n. net_peers n = ps) (send_to J p m)" for p by (simp add: keeps_def)
  show "keeps (\<lambda>n. net_peers n = ps) (broadcast J m ex)"
    unfolding broadcast_def by (intro keeps_bind keeps_read keeps_for) (auto intro: send)
qed

section \<open>Runs\<close>

text \<open>
  What asio and the callers do with the manager, a callback that does nothing standing for the
  node's: a socket completes an accept only while one is outstanding, and is new.
\<close>

inductive network_run :: "'j network \<Rightarrow> bool" where
  net_new: "network_run freshNetwork"
| net_start: "network_run n \<Longrightarrow> network_run (start n)"
| net_stop: "network_run n \<Longrightarrow> network_run (stop n)"
| net_accept: "network_run n \<Longrightarrow> net_accepting n \<Longrightarrow> (\<And>p. socket = Some p \<Longrightarrow> p \<notin> set (net_peers n)) \<Longrightarrow>
    network_run (snd (acceptDone modify_p None socket n))"
| net_connect: "network_run n \<Longrightarrow> (\<And>p. socket = Some p \<Longrightarrow> p \<notin> set (net_peers n)) \<Longrightarrow>
    network_run (snd (connectDone modify_p None socket n))"
| net_disconnect: "network_run n \<Longrightarrow> network_run (removePeer p n)"
| net_send: "network_run n \<Longrightarrow> network_run (snd (send_to J p m n))"
| net_broadcast: "network_run n \<Longrightarrow> network_run (snd (broadcast J m ex n))"

lemma acceptDone_run:
  "acceptDone modify_p None socket n = (Inr (), case socket of None \<Rightarrow> n\<lparr>net_accepting := False\<rparr>
     | Some p \<Rightarrow> n\<lparr>net_peers := net_peers n @ [p], net_accepting := True\<rparr>)"
  by (simp add: acceptDone_def connected_def proc_simps addPeer_def startAccepting_def split: option.split)

lemma connectDone_run:
  "connectDone modify_p None socket n = (Inr (), case socket of None \<Rightarrow> n | Some p \<Rightarrow> addPeer p n)"
  by (simp add: connectDone_def connected_def proc_simps split: option.split)

lemma network_run_distinct: "network_run n \<Longrightarrow> distinct (net_peers n)"
proof (induction rule: network_run.induct)
  case (net_broadcast n J m ex)
  then show ?case using keepsD [OF keeps_peers(2), of n "net_peers n" J m ex] by simp
qed (auto simp: freshNetwork_def addPeer_def removePeer_def start_def stop_def startAccepting_def
    acceptDone_run connectDone_run split: option.splits)

text \<open>
  A failed accept, whatever the error, is the last: no later handler accepts again, unless the
  manager is started anew.
\<close>

inductive later :: "'j network \<Rightarrow> 'j network \<Rightarrow> bool" where
  later_refl: "later n n"
| later_stop: "later n m \<Longrightarrow> later n (stop m)"
| later_accept: "later n m \<Longrightarrow> net_accepting m \<Longrightarrow> later n (snd (acceptDone modify_p None socket m))"
| later_connect: "later n m \<Longrightarrow> later n (snd (connectDone modify_p None socket m))"
| later_disconnect: "later n m \<Longrightarrow> later n (removePeer p m)"
| later_send: "later n m \<Longrightarrow> later n (snd (send_to J p msg m))"
| later_broadcast: "later n m \<Longrightarrow> later n (snd (broadcast J msg ex m))"

lemma keeps_accepting:
  "keeps (\<lambda>n. net_accepting n = a) (send_to J p m)" "keeps (\<lambda>n. net_accepting n = a) (broadcast J m ex)"
proof -
  show send: "keeps (\<lambda>n. net_accepting n = a) (send_to J p m)" for p
    unfolding send_to_def by (intro keeps_bind keeps_eval keeps_modify) simp
  show "keeps (\<lambda>n. net_accepting n = a) (broadcast J m ex)"
    unfolding broadcast_def by (intro keeps_bind keeps_read keeps_for) (auto intro: send)
qed

lemma accept_error_final:
  assumes "later (snd (acceptDone modify_p None None n)) m"
  shows "\<not> net_accepting m"
  using assms
proof (induction "snd (acceptDone modify_p None None n) :: 'a network" m rule: later.induct)
  case (later_send m J p msg)
  then show ?case using keepsD [OF keeps_accepting(1), of m False J p msg] by simp
next
  case (later_broadcast m J msg ex)
  then show ?case using keepsD [OF keeps_accepting(2), of m False J msg ex] by simp
qed (auto simp: acceptDone_run connectDone_run stop_def removePeer_def addPeer_def split: option.splits)

end
