(* ===== verification/Wire_Properties.thy ===== *)
theory Wire_Properties
  imports Peer_Session Network Samples
begin

text \<open>
  The properties of the wire: frames from one session's write queue to another's message
  callback, the session's discipline, and the broadcast over the peer list.
\<close>

definition frames_of :: "'j json_api \<Rightarrow> 'j message list \<Rightarrow> bytes list \<Rightarrow> bool" where
  "frames_of J = list_all2 (\<lambda>m frame. json_plain J (msg_payload m) \<and> serializeMessage J m = Inr frame \<and>
     length frame \<le> 4 + 16 * 1024 * 1024)"

lemma feed_frames_rest:
  assumes "json_ok J" and "frames_of J ms frames"
  shows "feed J s Header (concat frames @ rem) =
    (case feed J s Header rem of (s', ms', left) \<Rightarrow> (s', map (delivered J) ms @ ms', left))"
  using assms(2) unfolding frames_of_def
proof (induction ms frames rule: list_all2_induct)
  case (Cons m ms frame frames)
  then show ?case
    using feed_frame [OF assms(1), of m frame s "concat frames @ rem"]
    by (simp split: prod.split)
qed simp

lemma feed_bad_body:
  assumes "length body \<le> 16 * 1024 * 1024" and "deserializeMessage J body = Inl e"
  shows "feed J s Header (encodeLength (word_of_nat (length body)) @ string_bytes body @ rem) = feed J s Header rem"
proof -
  let ?l = "word_of_nat (length body) :: u32"
  have l: "unat ?l = length body" using assms(1) by (simp add: unat_of_nat)
  have fits: "\<not> maxBody < ?l" using assms(1) l by (simp add: maxBody_def word_less_nat_alt)
  have "feed J s Header (encodeLength ?l @ string_bytes body @ rem) = feed J s (Body ?l) (string_bytes body @ rem)"
    by (subst feed.simps) (simp add: headerDone_def fits Let_def)
  also have "\<dots> = feed J s Header rem"
    by (subst feed.simps) (simp add: l bodyDone_def assms(2) Let_def split: prod.split)
  finally show ?thesis .
qed

text \<open>A ping, its frame, and a session that has sent it.\<close>

definition sample_ping :: "jval message" where
  "sample_ping = \<lparr>msg_type = PING, msg_payload = JNull\<rparr>"

lemma sample_ping_frame:
  obtains frame where "frames_of demo_json [sample_ping] [frame]"
proof -
  let ?body = "j_text demo_json (envelope demo_json sample_ping)"
  have plain: "json_plain demo_json (msg_payload sample_ping)"
    using plain_null [of demo_json] by (simp add: sample_ping_def)
  have body: "messageBody demo_json sample_ping = Inr ?body"
    by (rule messageBody_text [OF demo_json_ok plain])
  have small: "length ?body < 100"
    by (simp add: envelope_def sample_ping_def sent_payload_def messageTypeToString_def enc_string_def to_string_nat_step)
  have "serializeMessage demo_json sample_ping = Inr (encodeLength (word_of_nat (length ?body)) @ string_bytes ?body)"
    using small by (intro serializeMessage_frame [OF body]) simp
  then show ?thesis
    using that [of "encodeLength (word_of_nat (length ?body)) @ string_bytes ?body"] plain small
    by (simp add: frames_of_def)
qed

lemma sample_session:
  obtains w where "session_run demo_json w" and "sw_queued w = [frame]" and "sw_sent w = []"
    and "sw_write w = Some frame" and "\<not> ps_closed (sw_session w)"
proof -
  let ?w = "react demo_json Start \<lparr>sw_session = newSession, sw_read = None, sw_write = None, sw_queued = [],
     sw_sent = [], sw_disconnects = 0, sw_clash = False\<rparr>"
  have "session_run demo_json ?w" by (rule run_start)
  then have "session_run demo_json (react demo_json (PostedSend frame)
      (?w\<lparr>sw_queued := (if ps_closed (sw_session ?w) then sw_queued ?w else sw_queued ?w @ [frame])\<rparr>))"
    by (rule run_send)
  then show ?thesis
    by (rule that) (simp_all add: session_defs newSession_def)
qed

text \<open>C19. One direction of a connection, end to end: whatever a sender has written so far, in
  any run of its session, is the frames of the first messages handed to \<open>send\<close>, and a
  receiver that reads these bytes calls its message callback with exactly those messages, in
  order, keeping nothing back.\<close>

theorem link_delivers_prefix:
  assumes "session_run J w" and "json_ok J" and "frames_of J ms (sw_queued w)"
  shows "feed J newSession Header (concat (sw_sent w)) =
     (newSession, map (delivered J) (take (length (sw_sent w)) ms), []) \<and> length (sw_sent w) \<le> length ms"
proof -
  have q: "sw_queued w = sw_sent w @ ps_writeQueue (sw_session w)"
    using session_run_inv [OF assms(1)] by (simp add: session_inv_def write_inv_def)
  have "list_all2 P (take (length (sw_sent w)) ms) (sw_sent w)" if "list_all2 P ms (sw_queued w)" for P
    using list_all2_takeI [OF that, of "length (sw_sent w)"] q by simp
  then have "feed J newSession Header (concat (sw_sent w)) =
      (newSession, map (delivered J) (take (length (sw_sent w)) ms), [])"
    using assms(3) unfolding frames_of_def by (intro feed_frames [OF assms(2)])
  moreover have "length (sw_sent w) \<le> length ms"
    using list_all2_lengthD [OF assms(3) [unfolded frames_of_def]] q by simp
  ultimately show ?thesis by simp
qed

theorem link_delivers_prefix_witness:
  "\<exists>w. session_run demo_json w \<and> sw_sent w \<noteq> [] \<and>
     feed demo_json newSession Header (concat (sw_sent w)) = (newSession, [delivered demo_json sample_ping], [])"
proof -
  obtain frame where frame: "frames_of demo_json [sample_ping] [frame]" by (rule sample_ping_frame)
  obtain w where w: "session_run demo_json w" "sw_queued w = [frame]" "sw_sent w = []" "sw_write w = Some frame"
      "\<not> ps_closed (sw_session w)"
    by (rule sample_session)
  obtain w' where w': "session_run demo_json w'" "sw_queued w' = [frame]" "sw_sent w' = [frame]"
    using session_drains [OF w(1,5)] w(2) by metis
  show ?thesis
    using link_delivers_prefix [OF w'(1) demo_json_ok, of "[sample_ping]"] frame w' by auto
qed

text \<open>C34. Bad input is contained: a frame whose body does not decode is skipped without closing
  the session or losing the frames after it, and a length above 16 MB closes the session once
  the messages before it have been delivered, leaving the rest unread.\<close>

theorem bad_frames_isolated:
  assumes "json_ok J" and "frames_of J ms frames" and "frames_of J ms' frames'"
    and "length body \<le> 16 * 1024 * 1024" and "deserializeMessage J body = Inl e" and "16 * 1024 * 1024 < l"
  shows "feed J newSession Header
      (concat frames @ encodeLength (word_of_nat (length body)) @ string_bytes body @
       concat frames' @ encodeLength l @ rest) =
    (newSession\<lparr>ps_closed := True\<rparr>, map (delivered J) (ms @ ms'), rest)"
proof -
  have big: "maxBody < l" using assms(6) by (simp add: maxBody_def)
  show ?thesis
    by (simp add: feed_frames_rest [OF assms(1,2)] feed_frames_rest [OF assms(1,3)]
        feed_bad_body [OF assms(4,5)] feed_too_large [OF big])
qed

theorem bad_frames_isolated_witness:
  "\<exists>frame. feed demo_json newSession Header
     (concat [frame] @ encodeLength (word_of_nat (length ''?'')) @ string_bytes ''?'' @ concat [frame] @
      encodeLength (2 ^ 30) @ []) =
    (newSession\<lparr>ps_closed := True\<rparr>, map (delivered demo_json) ([sample_ping] @ [sample_ping]), [])"
proof -
  obtain frame where frame: "frames_of demo_json [sample_ping] [frame]" by (rule sample_ping_frame)
  have "deserializeMessage demo_json ''?'' = Inl (JsonParseError ''parse error'')"
    by (simp add: deserializeMessage_def demo_parse_def)
  then show ?thesis
    using bad_frames_isolated [OF demo_json_ok frame frame, of "''?''" "JsonParseError ''parse error''" "2 ^ 30" "[]"]
    by auto
qed

text \<open>C33. A session's discipline, in every run: frames leave in the order they were accepted,
  none twice and none skipped; at most one read and one write are in flight at a time; the
  owner is told of the end at most once; an open session always has a read in flight, and
  never for more than 16 MB.\<close>

theorem session_discipline:
  assumes "session_run J w"
  shows "(\<exists>unsent. sw_queued w = sw_sent w @ unsent) \<and> \<not> sw_clash w \<and>
     sw_disconnects w = (if ps_closed (sw_session w) then 1 else 0) \<and>
     (\<not> ps_closed (sw_session w) \<longrightarrow> sw_read w \<noteq> None) \<and>
     (\<forall>n. sw_read w = Some (Body n) \<longrightarrow> unat n \<le> 16 * 1024 * 1024)"
  using session_run_inv [OF assms]
  by (auto simp: inv_defs maxBody_def word_le_nat_alt)

theorem session_discipline_witness:
  "\<exists>w. session_run demo_json w \<and> sw_queued w = [[1]] \<and> sw_disconnects w = 0 \<and> sw_read w \<noteq> None"
proof -
  obtain w where w: "session_run demo_json w" "sw_queued w = [[1]]" "\<not> ps_closed (sw_session w)"
    by (rule sample_session)
  then show ?thesis using session_discipline [OF w(1)] by auto
qed

text \<open>An open session gets its queue out: from any reachable state there is a continuation,
  its writes completing, in which every frame accepted so far has been sent and the session is
  still open.\<close>

theorem session_drains_queue:
  assumes "session_run J w" and "\<not> ps_closed (sw_session w)"
  shows "\<exists>w'. session_run J w' \<and> sw_queued w' = sw_queued w \<and> sw_sent w' = sw_queued w \<and>
     ps_writeQueue (sw_session w') = [] \<and> \<not> ps_closed (sw_session w')"
proof -
  obtain w' where w': "session_run J w'" "sw_queued w' = sw_queued w" "sw_sent w' = sw_queued w"
      "\<not> ps_closed (sw_session w')"
    using session_drains [OF assms] by blast
  then show ?thesis using session_run_inv [OF w'(1)] by (auto simp: inv_defs)
qed

theorem session_drains_queue_witness: "\<exists>w'. session_run demo_json w' \<and> sw_sent w' = [[1]]"
proof -
  obtain w where w: "session_run demo_json w" "sw_queued w = [[1]]" "\<not> ps_closed (sw_session w)"
    by (rule sample_session)
  then show ?thesis using session_drains_queue [OF w(1,3)] by auto
qed

text \<open>A broadcast reaches every connected peer but the excluded one exactly once and nobody
  else, whatever connections, disconnections and messages came before; the peer list stays as
  it is.\<close>

theorem broadcast_once:
  assumes "network_run n" and "serializeMessage J m = Inr frame"
  shows "\<exists>new. broadcast J m exclude n = (Inr (), n\<lparr>net_posted := net_posted n @ new\<rparr>) \<and>
     (\<forall>p q. count_list new (p, q) =
        (if p \<in> set (net_peers n) \<and> Some p \<noteq> exclude \<and> q = m then 1 else 0))"
proof (intro exI conjI allI)
  let ?new = "map (\<lambda>p. (p, m)) (filter (\<lambda>p. Some p \<noteq> exclude) (net_peers n))"
  show "broadcast J m exclude n = (Inr (), n\<lparr>net_posted := net_posted n @ ?new\<rparr>)"
    by (rule broadcast_run [OF assms(2)])
  fix p q
  have dist: "distinct ?new"
    using network_run_distinct [OF assms(1)] by (simp add: distinct_map inj_on_def)
  have "count_list xs x = (if x \<in> set xs then 1 else 0)" if "distinct xs" for xs :: "(nat \<times> 'a message) list" and x
    using that by (induction xs) auto
  from this [OF dist, of "(p, q)"]
  show "count_list ?new (p, q) = (if p \<in> set (net_peers n) \<and> Some p \<noteq> exclude \<and> q = m then 1 else 0)"
    by auto
qed

theorem broadcast_once_witness:
  "let n = snd (broadcast demo_json sample_ping (Some 1) (addPeer 2 (addPeer 1 freshNetwork)))
   in count_list (net_posted n) (2, sample_ping) = 1 \<and> count_list (net_posted n) (1, sample_ping) = 0"
proof -
  let ?n = "addPeer 2 (addPeer 1 freshNetwork) :: jval network"
  have "network_run (snd (connectDone modify_p None (Some 1) (freshNetwork :: jval network)))"
    by (rule net_connect [OF net_new]) (simp add: freshNetwork_def)
  then have "network_run (addPeer 1 freshNetwork :: jval network)" by (simp add: connectDone_run)
  then have "network_run (snd (connectDone modify_p None (Some 2) (addPeer 1 freshNetwork :: jval network)))"
    by (rule net_connect) (auto simp: freshNetwork_def addPeer_def)
  then have run: "network_run ?n" by (simp add: connectDone_run)
  obtain frame where "frames_of demo_json [sample_ping] [frame]" by (rule sample_ping_frame)
  then have "serializeMessage demo_json sample_ping = Inr frame" by (simp add: frames_of_def)
  from broadcast_once [OF run this, of "Some 1"] show ?thesis
    by (auto simp: addPeer_def freshNetwork_def)
qed

end
