(* ===== verification/Node.thy ===== *)
theory Node
  imports Storage Mempool Network
begin

text \<open>
  \<open>net/node.hpp\<close> and \<open>net/node.cpp\<close>: the node that ties chain, state, pool, storage and
  network together. Each public operation and each message handler is one procedure on the
  node's state, which \<open>Node_Threads\<close> shows to be a unit for the threads; an exception leaves the state as it
  was at the throw. The consensus object is the one inside the chain. \<open>now\<close> is the clock
  when a block is created.
\<close>

record ('d, 'j) node =
  nd_keys :: key_pair
  nd_addr :: address
  nd_chain :: blockchain
  nd_state :: state_manager
  nd_mempool :: mempool
  nd_genesisAllocations :: "(address \<times> u64) list"
  nd_storage :: "'d storage option"
  nd_network :: "'j network"
  nd_lastError :: string

section \<open>Calls on the node's parts\<close>

definition chain_add :: "crypto_api \<Rightarrow> 'j json_api \<Rightarrow> block \<Rightarrow> (('d, 'j) node, bool) proc" where
  "chain_add C J b = (\<lambda>n. case addBlock C J (nd_chain n) b of (ok, c) \<Rightarrow> (Inr ok, n\<lparr>nd_chain := c\<rparr>))"

definition state_apply :: "block \<Rightarrow> (('d, 'j) node, bool) proc" where
  "state_apply b = (\<lambda>n. case applyBlock (nd_state n) b of (ok, s) \<Rightarrow> (Inr ok, n\<lparr>nd_state := s\<rparr>))"

definition pool_add :: "crypto_api \<Rightarrow> 'j json_api \<Rightarrow> transaction \<Rightarrow> (('d, 'j) node, bool) proc" where
  "pool_add C J tx =
     (\<lambda>n. case addTransaction C J (nd_state n) (nd_mempool n) tx of (ok, p) \<Rightarrow> (Inr ok, n\<lparr>nd_mempool := p\<rparr>))"

definition on_network :: "('j network, 'a) proc \<Rightarrow> (('d, 'j) node, 'a) proc" where
  "on_network m = on_part nd_network (\<lambda>t n. n\<lparr>nd_network := t\<rparr>) m"

definition on_storage :: "('d storage, 'a) proc \<Rightarrow> (('d, 'j) node, 'a) proc" where
  "on_storage m =
     (\<lambda>n. case nd_storage n of
            None \<Rightarrow> (Inl (BadAccess ''null storage''), n)
          | Some s \<Rightarrow> (case m s of (r, s') \<Rightarrow> (r, n\<lparr>nd_storage := Some s'\<rparr>)))"

section \<open>After a block has been accepted\<close>

definition clean_pool :: "crypto_api \<Rightarrow> 'j json_api \<Rightarrow> block \<Rightarrow> (('d, 'j) node, unit) proc" where
  "clean_pool C J b =
     modify_p (\<lambda>n. n\<lparr>nd_mempool := snd (revalidate C J (nd_state n) (removeMinedTransactions (nd_mempool n) b))\<rparr>)"

definition save_account :: "'d leveldb_api \<Rightarrow> 'j json_api \<Rightarrow> address \<Rightarrow> (('d, 'j) node, unit) proc" where
  "save_account L J a =
     (\<lambda>n. if accountExists (nd_state n) a
          then on_storage (saveAccountState L J a
                 \<lparr>acc_balance = getBalance (nd_state n) a, acc_nonce = getNonce (nd_state n) a\<rparr>) n
          else ret () n)"

definition persist ::
  "crypto_api \<Rightarrow> 'j json_api \<Rightarrow> 'd leveldb_api \<Rightarrow> block \<Rightarrow> (('d, 'j) node, unit) proc" where
  "persist C J L b =
     then_p (on_storage (saveBlock L J b))
    (then_p (\<lambda>n. on_storage (saveChainHeight L (getHeight (nd_chain n))) n)
    (for_p (blk_transactions b) (\<lambda>tx.
       then_p (save_account L J (deriveAddress C (tx_senderPublicKey tx)))
              (save_account L J (tx_recipient tx)))))"

definition afterBlockAccepted ::
  "crypto_api \<Rightarrow> 'j json_api \<Rightarrow> 'd leveldb_api \<Rightarrow> block \<Rightarrow> (('d, 'j) node, unit) proc" where
  "afterBlockAccepted C J L b =
     then_p (clean_pool C J b)
       (\<lambda>n. case nd_storage n of None \<Rightarrow> ret () n | Some s \<Rightarrow> persist C J L b n)"

text \<open>
  The sequence the three places that take a block share: add it to the chain; when it was
  accepted, apply it to the state (the result is not looked at) and clean up.
\<close>

definition acceptBlock ::
  "crypto_api \<Rightarrow> 'j json_api \<Rightarrow> 'd leveldb_api \<Rightarrow> block \<Rightarrow> (('d, 'j) node, bool) proc" where
  "acceptBlock C J L b =
     bind_p (chain_add C J b) (\<lambda>added.
       if \<not> added then ret False
       else then_p (state_apply b) (then_p (afterBlockAccepted C J L b) (ret True)))"

section \<open>Construction and recovery\<close>

fun replay_stored ::
  "crypto_api \<Rightarrow> 'j json_api \<Rightarrow> 'd leveldb_api \<Rightarrow> nat list \<Rightarrow> (('d, 'j) node, unit) proc" where
  "replay_stored C J L [] = ret ()"
| "replay_stored C J L (i # rest) =
     bind_p (\<lambda>n. on_storage (eval_p (loadBlock L J (word_of_nat i))) n) (\<lambda>blockOpt.
       case blockOpt of
         None \<Rightarrow> ret ()
       | Some b \<Rightarrow> bind_p (chain_add C J b) (\<lambda>added.
           if \<not> added then ret () else then_p (state_apply b) (replay_stored C J L rest)))"

definition recoverFromStorage ::
  "crypto_api \<Rightarrow> 'j json_api \<Rightarrow> 'd leveldb_api \<Rightarrow> (('d, 'j) node, unit) proc" where
  "recoverFromStorage C J L =
     (\<lambda>n. case nd_storage n of
            None \<Rightarrow> ret () n
          | Some s \<Rightarrow>
              bind_p (on_storage (eval_p (loadChainHeight L))) (\<lambda>storedHeight.
                if storedHeight \<le> 1 then ret ()
                else replay_stored C J L [1..<unat storedHeight]) n)"

text \<open>
  The constructor up to the network manager, whose place is empty until then; nothing looks at it.
\<close>

definition assembleNode ::
  "crypto_api \<Rightarrow> 'j json_api \<Rightarrow> 'd leveldb_api \<Rightarrow> key_pair \<Rightarrow> key_pair \<Rightarrow> address list \<Rightarrow>
     (address \<times> u64) list \<Rightarrow> string \<Rightarrow> 'd \<Rightarrow> ('d, 'j) node result" where
  "assembleNode C J L nodeKeys genesisValidatorKeys authorities genesisAllocations dataDir files =
     bind_e (newPoAConsensus authorities) (\<lambda>consensus.
     bind_e (newBlockchainPoA C J genesisValidatorKeys consensus) (\<lambda>chain.
       let n = \<lparr>nd_keys = nodeKeys, nd_addr = deriveAddress C (publicKey nodeKeys), nd_chain = chain,
                nd_state = newStateManager genesisAllocations, nd_mempool = newMempool,
                nd_genesisAllocations = genesisAllocations, nd_storage = None,
                nd_network = freshNetwork, nd_lastError = ''''\<rparr>
       in if dataDir = '''' then Inr n
          else bind_e (newStorage L dataDir files) (\<lambda>s.
                 case recoverFromStorage C J L (n\<lparr>nd_storage := Some s\<rparr>) of
                   (Inl e, n') \<Rightarrow> Inl e
                 | (Inr u, n') \<Rightarrow> Inr n')))"

text \<open>The whole constructor: the listening port is opened last, after the chain has been recovered.\<close>

definition newNode ::
  "crypto_api \<Rightarrow> 'j json_api \<Rightarrow> 'd leveldb_api \<Rightarrow> ports_api \<Rightarrow> key_pair \<Rightarrow> key_pair \<Rightarrow> address list \<Rightarrow>
     (address \<times> u64) list \<Rightarrow> u16 \<Rightarrow> string \<Rightarrow> 'd \<Rightarrow> ('d, 'j) node result" where
  "newNode C J L P nodeKeys genesisValidatorKeys authorities genesisAllocations listenPort dataDir files =
     bind_e (assembleNode C J L nodeKeys genesisValidatorKeys authorities genesisAllocations dataDir files) (\<lambda>n.
     bind_e (newNetwork P listenPort) (\<lambda>network.
       Inr (n\<lparr>nd_network := network\<rparr>)))"

section \<open>Submitting transactions, producing blocks\<close>

definition submitTransaction ::
  "crypto_api \<Rightarrow> 'j json_api \<Rightarrow> transaction \<Rightarrow> (('d, 'j) node, bool) proc" where
  "submitTransaction C J tx =
     bind_p (pool_add C J tx) (\<lambda>added.
       if \<not> added
       then then_p (modify_p (\<lambda>n. n\<lparr>nd_lastError := mp_lastError (nd_mempool n)\<rparr>)) (ret False)
       else then_p (on_network (broadcast J \<lparr>msg_type = NEW_TX, msg_payload = transactionToJson J tx\<rparr> None))
              (ret True))"

definition produceBlock ::
  "crypto_api \<Rightarrow> 'j json_api \<Rightarrow> 'd leveldb_api \<Rightarrow> u64 \<Rightarrow> (('d, 'j) node, bool) proc" where
  "produceBlock C J L now =
     (\<lambda>n. case bc_consensus (nd_chain n) of
            None \<Rightarrow> throw (BadAccess ''null consensus'') n
          | Some consensus \<Rightarrow>
              if getProducer consensus (getHeight (nd_chain n)) \<noteq> nd_addr n then ret False n
              else
                let txs = getTransactionsForBlock (nd_mempool n) 100
                in bind_p (eval_p (\<lambda>n. createBlock C J now (nd_keys n) (getLatestBlock (nd_chain n)) txs)) (\<lambda>b.
                   bind_p (acceptBlock C J L b) (\<lambda>added.
                     if \<not> added then ret False
                     else then_p (on_network (broadcast J \<lparr>msg_type = NEW_BLOCK, msg_payload = blockToJson J b\<rparr> None))
                            (ret True))) n)"

section \<open>Message handlers\<close>

definition onNewTx :: "crypto_api \<Rightarrow> 'j json_api \<Rightarrow> 'j \<Rightarrow> nat \<Rightarrow> (('d, 'j) node, unit) proc" where
  "onNewTx C J payload sender =
     bind_p (eval_p (\<lambda>_. transactionFromJson J payload)) (\<lambda>tx n.
       if contains (nd_mempool n) (tx_hash tx) then ret () n
       else bind_p (pool_add C J tx) (\<lambda>accepted.
              if accepted
              then on_network (broadcast J \<lparr>msg_type = NEW_TX, msg_payload = payload\<rparr> (Some sender))
              else ret ()) n)"

definition getBlocksMessage :: "'j json_api \<Rightarrow> u64 \<Rightarrow> 'j message" where
  "getBlocksMessage J height =
     \<lparr>msg_type = GET_BLOCKS, msg_payload = j_object J [(''from'', j_uint J height)]\<rparr>"

definition onNewBlock ::
  "crypto_api \<Rightarrow> 'j json_api \<Rightarrow> 'd leveldb_api \<Rightarrow> 'j \<Rightarrow> nat \<Rightarrow> (('d, 'j) node, unit) proc" where
  "onNewBlock C J L payload sender =
     bind_p (eval_p (\<lambda>_. blockFromJson J payload)) (\<lambda>b n.
       let ourHeight = getHeight (nd_chain n)
       in if ourHeight < blk_index b then on_network (send_to J sender (getBlocksMessage J ourHeight)) n
          else if blk_index b < ourHeight then ret () n
          else bind_p (acceptBlock C J L b) (\<lambda>accepted.
                 if accepted
                 then on_network (broadcast J \<lparr>msg_type = NEW_BLOCK, msg_payload = payload\<rparr> (Some sender))
                 else ret ()) n)"

definition blocksMessage :: "'j json_api \<Rightarrow> 'j list \<Rightarrow> 'j message" where
  "blocksMessage J blocks =
     \<lparr>msg_type = BLOCKS, msg_payload = j_object J [(''blocks'', j_array J blocks)]\<rparr>"

definition onGetBlocks :: "'j json_api \<Rightarrow> 'j \<Rightarrow> nat \<Rightarrow> (('d, 'j) node, unit) proc" where
  "onGetBlocks J payload sender =
     bind_p (eval_p (\<lambda>_. at_uint J payload ''from'')) (\<lambda>fromIndex n.
       let height = getHeight (nd_chain n)
       in if height \<le> fromIndex then on_network (send_to J sender (blocksMessage J [])) n
          else bind_p
                 (eval_p (\<lambda>n. map_e (\<lambda>i. bind_e (getBlock (nd_chain n) (word_of_nat i)) (\<lambda>b. Inr (blockToJson J b)))
                    [unat fromIndex..<unat height]))
                 (\<lambda>blocks. on_network (send_to J sender (blocksMessage J blocks))) n)"

fun sync_blocks ::
  "crypto_api \<Rightarrow> 'j json_api \<Rightarrow> 'd leveldb_api \<Rightarrow> 'j list \<Rightarrow> (('d, 'j) node, unit) proc" where
  "sync_blocks C J L [] = ret ()"
| "sync_blocks C J L (blockJson # rest) =
     bind_p (eval_p (\<lambda>_. blockFromJson J blockJson)) (\<lambda>b n.
       if blk_index b < getHeight (nd_chain n) then sync_blocks C J L rest n
       else if blk_index b \<noteq> getHeight (nd_chain n) then ret () n
       else bind_p (acceptBlock C J L b) (\<lambda>added.
              if added then sync_blocks C J L rest else ret ()) n)"

definition onBlocks ::
  "crypto_api \<Rightarrow> 'j json_api \<Rightarrow> 'd leveldb_api \<Rightarrow> 'j \<Rightarrow> (('d, 'j) node, unit) proc" where
  "onBlocks C J L payload =
     bind_p (eval_p (\<lambda>_. j_at J payload ''blocks'')) (\<lambda>blocksArray. sync_blocks C J L (j_elems J blocksArray))"

definition onPeerConnected :: "'j json_api \<Rightarrow> nat \<Rightarrow> (('d, 'j) node, unit) proc" where
  "onPeerConnected J p = (\<lambda>n. on_network (send_to J p (getBlocksMessage J (getHeight (nd_chain n)))) n)"

definition handleMessage ::
  "crypto_api \<Rightarrow> 'j json_api \<Rightarrow> 'd leveldb_api \<Rightarrow> 'j message \<Rightarrow> nat \<Rightarrow> (('d, 'j) node, unit) proc" where
  "handleMessage C J L msg sender =
     (case msg_type msg of
        PING \<Rightarrow> on_network (send_to J sender \<lparr>msg_type = PONG, msg_payload = j_null J\<rparr>)
      | PONG \<Rightarrow> ret ()
      | NEW_BLOCK \<Rightarrow> onNewBlock C J L (msg_payload msg) sender
      | NEW_TX \<Rightarrow> onNewTx C J (msg_payload msg) sender
      | GET_BLOCKS \<Rightarrow> onGetBlocks J (msg_payload msg) sender
      | BLOCKS \<Rightarrow> onBlocks C J L (msg_payload msg))"

section \<open>Life cycle and connections\<close>

definition node_start :: "(('d, 'j) node, unit) proc" where
  "node_start = on_network (modify_p start)"

definition node_stop :: "(('d, 'j) node, unit) proc" where
  "node_stop = on_network (modify_p stop)"

text \<open>The network's completion handlers, with the callback the constructor wires.\<close>

definition node_acceptDone :: "'j json_api \<Rightarrow> nat option \<Rightarrow> (('d, 'j) node, unit) proc" where
  "node_acceptDone J socket = acceptDone (\<lambda>f. on_network (modify_p f)) (Some (onPeerConnected J)) socket"

definition node_connectDone :: "'j json_api \<Rightarrow> nat option \<Rightarrow> (('d, 'j) node, unit) proc" where
  "node_connectDone J socket = connectDone (\<lambda>f. on_network (modify_p f)) (Some (onPeerConnected J)) socket"

section \<open>Queries\<close>

definition node_getChainHeight :: "('d, 'j) node \<Rightarrow> u64" where
  "node_getChainHeight n = getHeight (nd_chain n)"

definition node_isChainValid :: "crypto_api \<Rightarrow> 'j json_api \<Rightarrow> ('d, 'j) node \<Rightarrow> bool" where
  "node_isChainValid C J n = validateChain C J (nd_chain n)"

definition node_getMempoolSize :: "('d, 'j) node \<Rightarrow> nat" where
  "node_getMempoolSize n = pool_size (nd_mempool n)"

definition node_getPeerCount :: "('d, 'j) node \<Rightarrow> nat" where
  "node_getPeerCount n = peerCount (nd_network n)"

definition node_getBalance :: "('d, 'j) node \<Rightarrow> address \<Rightarrow> u64" where
  "node_getBalance n a = (if \<not> accountExists (nd_state n) a then 0 else getBalance (nd_state n) a)"

definition node_getNonce :: "('d, 'j) node \<Rightarrow> address \<Rightarrow> u64" where
  "node_getNonce n a = (if \<not> accountExists (nd_state n) a then 0 else getNonce (nd_state n) a)"

definition node_getAddress :: "('d, 'j) node \<Rightarrow> address" where
  "node_getAddress n = nd_addr n"

definition node_getBlock :: "('d, 'j) node \<Rightarrow> u64 \<Rightarrow> block result" where
  "node_getBlock n index = getBlock (nd_chain n) index"

definition node_getLastError :: "('d, 'j) node \<Rightarrow> string" where
  "node_getLastError n = nd_lastError n"

end
