(* ===== verification/Node_Steps.thy ===== *)
theory Node_Steps
  imports Node
begin

text \<open>
  The node as a transition system, and how to prove an invariant of it. The first part says
  what accepting a block does and what each procedure leaves alone; \<open>node_step\<close> is one
  operation of the node, called by its owner, by a client or by the network. The locale
  \<open>block_invariant\<close> asks for the four facts the arrival of messages with good blocks reduces to and
  gives preservation by all of it; \<open>node_invariant\<close> adds the block the node makes itself and
  gives preservation by every operation.
\<close>

section \<open>Frames\<close>

lemma on_network_snd: "snd (on_network m n) = n\<lparr>nd_network := snd (m (nd_network n))\<rparr>"
  by (simp add: on_network_def on_part_def split: prod.split)

lemma on_network_frame: "\<exists>t. snd (on_network m n) = n\<lparr>nd_network := t\<rparr>"
  by (auto simp: on_network_def on_part_def split: prod.splits)

lemma same_network: "\<exists>t. n = n\<lparr>nd_network := t\<rparr>" for n :: "('d, 'j) node"
  by (rule exI [of _ "nd_network n"]) simp

lemma same_storage: "\<exists>s. n = n\<lparr>nd_storage := s\<rparr>" for n :: "('d, 'j) node"
  by (rule exI [of _ "nd_storage n"]) simp

lemma on_storage_frame: "\<exists>s. snd (on_storage m n) = n\<lparr>nd_storage := s\<rparr>"
proof (cases "nd_storage n")
  case None
  then show ?thesis using same_storage [of n] by (auto simp: on_storage_def)
next
  case (Some s)
  then show ?thesis by (auto simp: on_storage_def split: prod.splits)
qed

text \<open>A procedure that touches the node's storage only.\<close>

definition storage_only :: "(('d, 'j) node, 'a) proc \<Rightarrow> bool" where
  "storage_only m \<longleftrightarrow> (\<forall>n. \<exists>s. snd (m n) = n\<lparr>nd_storage := s\<rparr>)"

lemma storage_only_ret: "storage_only (ret x)"
  by (simp add: storage_only_def proc_simps same_storage)

lemma storage_only_bind:
  assumes "storage_only m" and "\<And>x. storage_only (f x)"
  shows "storage_only (bind_p m f)"
  unfolding storage_only_def
proof
  fix n
  obtain s where s: "snd (m n) = n\<lparr>nd_storage := s\<rparr>" using assms(1) by (auto simp: storage_only_def)
  show "\<exists>s. snd (bind_p m f n) = n\<lparr>nd_storage := s\<rparr>"
  proof (cases "m n")
    case (Pair r n')
    show ?thesis
    proof (cases r)
      case (Inl e)
      with Pair s show ?thesis by (auto simp: bind_p_def)
    next
      case (Inr x)
      obtain s' where "snd (f x n') = n'\<lparr>nd_storage := s'\<rparr>" using assms(2) by (auto simp: storage_only_def)
      with Pair Inr s show ?thesis by (auto simp: bind_p_def)
    qed
  qed
qed

lemma storage_only_then: "storage_only m \<Longrightarrow> storage_only k \<Longrightarrow> storage_only (then_p m k)"
  unfolding then_p_def by (rule storage_only_bind)

lemma storage_only_for: "(\<And>x. storage_only (body x)) \<Longrightarrow> storage_only (for_p xs body)"
  by (induction xs) (simp_all add: storage_only_ret storage_only_then)

lemma storage_only_save_account: "storage_only (save_account L J a)"
  unfolding storage_only_def
proof
  fix n
  show "\<exists>s. snd (save_account L J a n) = n\<lparr>nd_storage := s\<rparr>"
    using on_storage_frame [of _ n] same_storage [of n]
    by (cases "accountExists (nd_state n) a") (auto simp: save_account_def proc_simps)
qed

lemma storage_only_persist: "storage_only (persist C J L b)"
proof -
  have "storage_only (on_storage (saveBlock L J b))" "storage_only (\<lambda>n. on_storage (saveChainHeight L (getHeight (nd_chain n))) n)"
    using on_storage_frame unfolding storage_only_def by blast+
  then show ?thesis
    unfolding persist_def by (intro storage_only_then storage_only_for storage_only_save_account)
qed

section \<open>Accepting a block\<close>

definition settle :: "crypto_api \<Rightarrow> 'j json_api \<Rightarrow> block \<Rightarrow> ('d, 'j) node \<Rightarrow> ('d, 'j) node" where
  "settle C J b n =
     n\<lparr>nd_chain := snd (addBlock C J (nd_chain n) b), nd_state := snd (applyBlock (nd_state n) b),
       nd_mempool := snd (revalidate C J (snd (applyBlock (nd_state n) b)) (removeMinedTransactions (nd_mempool n) b))\<rparr>"

definition persisted ::
  "crypto_api \<Rightarrow> 'j json_api \<Rightarrow> 'd leveldb_api \<Rightarrow> block \<Rightarrow> ('d, 'j) node \<Rightarrow> unit result \<times> ('d, 'j) node" where
  "persisted C J L b n = (case nd_storage n of None \<Rightarrow> (Inr (), n) | Some s \<Rightarrow> persist C J L b n)"

lemma chain_add_run:
  "chain_add C J b n = (Inr (accepts C J (nd_chain n) b), n\<lparr>nd_chain := snd (addBlock C J (nd_chain n) b)\<rparr>)"
  by (simp add: chain_add_def case_prod_unfold addBlock_fst)

lemma acceptBlock_rejects:
  assumes "\<not> accepts C J (nd_chain n) b"
  shows "acceptBlock C J L b n = (Inr False, n\<lparr>nd_chain := snd (addBlock C J (nd_chain n) b)\<rparr>)"
  using assms by (simp add: acceptBlock_def bind_p_cases chain_add_run proc_simps)

lemma acceptBlock_run:
  assumes "accepts C J (nd_chain n) b" and p: "persisted C J L b (settle C J b n) = (r, n')"
  shows "acceptBlock C J L b n = (case r of Inl e \<Rightarrow> (Inl e, n') | Inr _ \<Rightarrow> (Inr True, n'))"
proof -
  define n1 where "n1 = n\<lparr>nd_chain := snd (addBlock C J (nd_chain n) b)\<rparr>"
  define n2 where "n2 = n1\<lparr>nd_state := snd (applyBlock (nd_state n) b)\<rparr>"
  have "chain_add C J b n = (Inr True, n1)"
    using assms(1) by (simp add: chain_add_run n1_def)
  moreover have "state_apply b n1 = (Inr (fst (applyBlock (nd_state n) b)), n2)"
    by (simp add: state_apply_def n1_def n2_def case_prod_unfold)
  moreover have "clean_pool C J b n2 = (Inr (), settle C J b n)"
    by (simp add: clean_pool_def proc_simps n1_def n2_def settle_def)
  moreover have "(\<lambda>n. case nd_storage n of None \<Rightarrow> ret () n | Some s \<Rightarrow> persist C J L b n) (settle C J b n) = (r, n')"
    using p by (simp add: persisted_def ret_def split: option.splits)
  ultimately show ?thesis
    by (simp add: acceptBlock_def afterBlockAccepted_def then_p_def bind_p_Inr bind_p_cases ret_def split: sum.splits)
qed

lemma persisted_frame: "\<exists>s. snd (persisted C J L b n) = n\<lparr>nd_storage := s\<rparr>"
proof (cases "nd_storage n")
  case None
  then show ?thesis using same_storage [of n] by (auto simp: persisted_def)
next
  case (Some s)
  then show ?thesis
    using storage_only_persist [of C J L b, unfolded storage_only_def] by (simp add: persisted_def)
qed

lemma acceptBlock_cases:
  obtains (reject) "\<not> accepts C J (nd_chain n) b"
      "acceptBlock C J L b n = (Inr False, n\<lparr>nd_chain := snd (addBlock C J (nd_chain n) b)\<rparr>)"
  | (accept) s where "accepts C J (nd_chain n) b"
      "acceptBlock C J L b n = (Inr True, (settle C J b n)\<lparr>nd_storage := s\<rparr>)"
  | (failed) e s where "accepts C J (nd_chain n) b"
      "acceptBlock C J L b n = (Inl e, (settle C J b n)\<lparr>nd_storage := s\<rparr>)"
proof (cases "accepts C J (nd_chain n) b")
  case True
  obtain s where s: "snd (persisted C J L b (settle C J b n)) = (settle C J b n)\<lparr>nd_storage := s\<rparr>"
    using persisted_frame by blast
  obtain r n' where p: "persisted C J L b (settle C J b n) = (r, n')" by (cases "persisted C J L b (settle C J b n)")
  note run = acceptBlock_run [OF True p]
  have n': "n' = (settle C J b n)\<lparr>nd_storage := s\<rparr>" using s p by simp
  show ?thesis
  proof (cases r)
    case (Inl e)
    show ?thesis by (rule failed [OF True]) (simp add: run Inl n')
  next
    case (Inr u)
    show ?thesis by (rule accept [OF True]) (simp add: run Inr n')
  qed
next
  case False
  then show ?thesis by (rule reject) (rule acceptBlock_rejects [OF False])
qed

lemma settle_chain:
  "accepts C J (nd_chain n) b \<Longrightarrow> bc_chain (nd_chain (settle C J b n)) = bc_chain (nd_chain n) @ [b]"
  by (simp add: settle_def addBlock_chain)

lemma settle_frame [simp]:
  "nd_storage (settle C J b n) = nd_storage n" "nd_keys (settle C J b n) = nd_keys n"
  "nd_network (settle C J b n) = nd_network n" "nd_addr (settle C J b n) = nd_addr n"
  "nd_genesisAllocations (settle C J b n) = nd_genesisAllocations n"
  by (simp_all add: settle_def)

section \<open>Operations\<close>

text \<open>
  One operation, however it ends: transactions from clients and peers are of the C++ type
  (\<open>wf_transaction\<close>, which decoding ensures) and leave room for a next nonce.
\<close>

definition node_peerGone :: "nat \<Rightarrow> (('d, 'j) node, unit) proc" where
  "node_peerGone p = on_network (modify_p (removePeer p))"

definition fit_message :: "'j json_api \<Rightarrow> 'j message \<Rightarrow> bool" where
  "fit_message J msg \<longleftrightarrow>
     (\<forall>tx. msg_type msg = NEW_TX \<longrightarrow> transactionFromJson J (msg_payload msg) = Inr tx \<longrightarrow> tx_nonce tx \<noteq> - 1)"

inductive node_step ::
  "crypto_api \<Rightarrow> 'j json_api \<Rightarrow> 'd leveldb_api \<Rightarrow> ('d, 'j) node \<Rightarrow> ('d, 'j) node \<Rightarrow> bool" for C J L where
  step_submit: "wf_transaction tx \<Longrightarrow> tx_nonce tx \<noteq> - 1 \<Longrightarrow> node_step C J L n (snd (submitTransaction C J tx n))"
| step_produce: "node_step C J L n (snd (produceBlock C J L now n))"
| step_message: "fit_message J msg \<Longrightarrow> node_step C J L n (snd (handleMessage C J L msg sender n))"
| step_start: "node_step C J L n (snd (node_start n))"
| step_stop: "node_step C J L n (snd (node_stop n))"
| step_accept: "node_step C J L n (snd (node_acceptDone J socket n))"
| step_connect: "node_step C J L n (snd (node_connectDone J socket n))"
| step_gone: "node_step C J L n (snd (node_peerGone p n))"

text \<open>What the network's part of the node cannot change, its handlers keep.\<close>

lemma keeps_network_handlers:
  fixes I :: "('d, 'j) node \<Rightarrow> bool"
  assumes I: "\<And>m :: ('j network, unit) proc. keeps I (on_network m)"
  shows "keeps I (onPeerConnected J p)" and "keeps I node_start" and "keeps I node_stop"
    and "keeps I (node_acceptDone J socket)" and "keeps I (node_connectDone J socket)"
    and "keeps I (node_peerGone p)"
proof -
  show peer: "keeps I (onPeerConnected J p)" for p
    unfolding onPeerConnected_def by (rule keeps_here) (rule I)
  have conn: "keeps I (connected (\<lambda>f. on_network (modify_p f)) (Some (onPeerConnected J)) p)" for p
    unfolding connected_def by (auto intro: keeps_then I peer)
  show "keeps I (node_connectDone J socket)"
    unfolding node_connectDone_def connectDone_def by (auto intro: conn split: option.split)
  show "keeps I (node_acceptDone J socket)"
    unfolding node_acceptDone_def acceptDone_def by (auto intro!: keeps_then I conn split: option.split)
qed (simp_all add: node_start_def node_stop_def node_peerGone_def I)

section \<open>Invariants of all operations\<close>

text \<open>The blocks a message brings.\<close>

definition carries :: "'j json_api \<Rightarrow> 'j message \<Rightarrow> block \<Rightarrow> bool" where
  "carries J msg b \<longleftrightarrow>
     msg_type msg = NEW_BLOCK \<and> blockFromJson J (msg_payload msg) = Inr b \<or>
     msg_type msg = BLOCKS \<and>
       (\<exists>js. j_at J (msg_payload msg) ''blocks'' = Inr js \<and> (\<exists>j\<in>set (j_elems J js). blockFromJson J j = Inr b))"

text \<open>What survives the arrival of good blocks, and of everything else, survives every message with good blocks.\<close>

locale block_invariant =
  fixes C :: crypto_api and J :: "'j json_api" and L :: "'d leveldb_api" and I :: "('d, 'j) node \<Rightarrow> bool"
    and good :: "block \<Rightarrow> bool"
  assumes network: "\<And>m :: ('j network, unit) proc. keeps I (on_network m)"
    and error: "\<And>n e. I n \<Longrightarrow> I (n\<lparr>nd_lastError := e\<rparr>)"
    and pool: "\<And>tx. wf_transaction tx \<Longrightarrow> tx_nonce tx \<noteq> - 1 \<Longrightarrow> keeps I (pool_add C J tx)"
    and good: "\<And>b. wf_block b \<Longrightarrow> good b \<Longrightarrow> keeps I (acceptBlock C J L b)"
begin

lemma keeps_submit:
  assumes "wf_transaction tx" and "tx_nonce tx \<noteq> - 1"
  shows "keeps I (submitTransaction C J tx)"
  unfolding submitTransaction_def
  by (intro keeps_bind pool assms) (auto intro!: keeps_then keeps_modify error network keeps_ret)

lemma keeps_accept_then:
  assumes "wf_block b \<and> good b" and "\<And>added. keeps I (f added)"
  shows "keeps I (bind_p (acceptBlock C J L b) f)"
  using assms by (intro keeps_bind good) simp_all

lemma keeps_onNewTx:
  assumes "\<And>tx. transactionFromJson J payload = Inr tx \<Longrightarrow> tx_nonce tx \<noteq> - 1"
  shows "keeps I (onNewTx C J payload p)"
  unfolding onNewTx_def
proof (rule keeps_bind_post [where P = "\<lambda>tx. wf_transaction tx \<and> tx_nonce tx \<noteq> - 1"])
  fix tx assume tx: "wf_transaction tx \<and> tx_nonce tx \<noteq> - 1"
  have "keeps I (bind_p (pool_add C J tx) (\<lambda>accepted. if accepted
       then on_network (broadcast J \<lparr>msg_type = NEW_TX, msg_payload = payload\<rparr> (Some p)) else ret ()))"
    using tx by (intro keeps_bind pool) (auto intro!: network keeps_ret)
  then show "keeps I (\<lambda>n. if contains (nd_mempool n) (tx_hash tx) then ret () n
     else bind_p (pool_add C J tx) (\<lambda>accepted. if accepted
            then on_network (broadcast J \<lparr>msg_type = NEW_TX, msg_payload = payload\<rparr> (Some p)) else ret ()) n)"
    by (simp add: keeps_def proc_simps)
qed (auto simp: proc_simps keeps_eval assms dest: transactionFromJson_wf)

lemma keeps_onNewBlock:
  assumes "\<And>b. blockFromJson J payload = Inr b \<Longrightarrow> good b"
  shows "keeps I (onNewBlock C J L payload p)"
  unfolding onNewBlock_def
proof (rule keeps_bind_post [where P = "\<lambda>b. wf_block b \<and> good b"])
  fix b assume b: "wf_block b \<and> good b"
  have "keeps I (bind_p (acceptBlock C J L b) (\<lambda>accepted. if accepted
       then on_network (broadcast J \<lparr>msg_type = NEW_BLOCK, msg_payload = payload\<rparr> (Some p)) else ret ()))"
    by (rule keeps_accept_then [OF b]) (auto intro!: network keeps_ret)
  then show "keeps I (\<lambda>n. let ourHeight = getHeight (nd_chain n)
       in if ourHeight < blk_index b then on_network (send_to J p (getBlocksMessage J ourHeight)) n
          else if blk_index b < ourHeight then ret () n
          else bind_p (acceptBlock C J L b) (\<lambda>accepted. if accepted
                 then on_network (broadcast J \<lparr>msg_type = NEW_BLOCK, msg_payload = payload\<rparr> (Some p)) else ret ()) n)"
    by (simp add: keeps_def proc_simps Let_def keepsD [OF network])
qed (auto simp: proc_simps keeps_eval assms dest: blockFromJson_wf)

lemma keeps_sync:
  assumes "\<And>j b. j \<in> set js \<Longrightarrow> blockFromJson J j = Inr b \<Longrightarrow> good b"
  shows "keeps I (sync_blocks C J L js)"
  using assms
proof (induction js)
  case (Cons j js)
  have rest: "keeps I (sync_blocks C J L js)" by (rule Cons.IH) (use Cons.prems in auto)
  show ?case
    unfolding sync_blocks.simps
  proof (rule keeps_bind_post [where P = "\<lambda>b. wf_block b \<and> good b"])
    fix b assume b: "wf_block b \<and> good b"
    have "keeps I (bind_p (acceptBlock C J L b) (\<lambda>added. if added then sync_blocks C J L js else ret ()))"
      by (rule keeps_accept_then [OF b]) (auto intro!: rest keeps_ret)
    then show "keeps I (\<lambda>n. if blk_index b < getHeight (nd_chain n) then sync_blocks C J L js n
       else if blk_index b \<noteq> getHeight (nd_chain n) then ret () n
       else bind_p (acceptBlock C J L b) (\<lambda>added. if added then sync_blocks C J L js else ret ()) n)"
      using rest by (simp add: keeps_def proc_simps)
  qed (auto simp: proc_simps keeps_eval dest: blockFromJson_wf intro: Cons.prems [OF list.set_intros(1)])
qed (simp add: keeps_ret)

lemma keeps_onGetBlocks: "keeps I (onGetBlocks J payload p)"
  unfolding onGetBlocks_def
proof (intro keeps_bind keeps_eval)
  fix i :: u64
  let ?answer = "\<lambda>n0. let height = getHeight (nd_chain n0)
     in if height \<le> i then on_network (send_to J p (blocksMessage J []))
        else bind_p (eval_p (\<lambda>n. map_e (\<lambda>i. bind_e (getBlock (nd_chain n) (word_of_nat i)) (\<lambda>b. Inr (blockToJson J b)))
                    [unat i..<unat height]))
               (\<lambda>blocks. on_network (send_to J p (blocksMessage J blocks)))"
  have "keeps I (\<lambda>n. ?answer n n)"
    by (rule keeps_here) (simp add: Let_def keeps_bind keeps_eval network)
  then show "keeps I (\<lambda>n. let height = getHeight (nd_chain n)
     in if height \<le> i then on_network (send_to J p (blocksMessage J [])) n
        else bind_p (eval_p (\<lambda>n. map_e (\<lambda>i. bind_e (getBlock (nd_chain n) (word_of_nat i)) (\<lambda>b. Inr (blockToJson J b)))
                    [unat i..<unat height]))
               (\<lambda>blocks. on_network (send_to J p (blocksMessage J blocks))) n)"
    by (simp add: Let_def if_distrib [where f = "\<lambda>m. m _"] cong: if_cong)
qed

lemma keeps_onBlocks:
  assumes "\<And>js j b. j_at J payload ''blocks'' = Inr js \<Longrightarrow> j \<in> set (j_elems J js) \<Longrightarrow> blockFromJson J j = Inr b \<Longrightarrow> good b"
  shows "keeps I (onBlocks C J L payload)"
  unfolding onBlocks_def
  by (rule keeps_bind_post [where P = "\<lambda>js. j_at J payload ''blocks'' = Inr js"])
    (auto simp: proc_simps keeps_eval intro: keeps_sync assms)

lemma keeps_message:
  assumes "fit_message J msg" and "\<And>b. carries J msg b \<Longrightarrow> good b"
  shows "keeps I (handleMessage C J L msg p)"
proof (cases "msg_type msg")
  case NEW_TX
  then show ?thesis
    using keeps_onNewTx [of "msg_payload msg" p] assms by (simp add: handleMessage_def fit_message_def)
next
  case NEW_BLOCK
  then show ?thesis
    using keeps_onNewBlock [of "msg_payload msg" p] assms(2) by (simp add: handleMessage_def carries_def)
next
  case BLOCKS
  then show ?thesis
    using keeps_onBlocks [of "msg_payload msg"] assms(2) by (auto simp: handleMessage_def carries_def)
qed (simp_all add: handleMessage_def network keeps_ret keeps_onGetBlocks)

end

text \<open>And what survives every block, and the block the node itself creates, survives every operation.\<close>

locale node_invariant = block_invariant C J L I "\<lambda>_. True"
  for C :: crypto_api and J :: "'j json_api" and L :: "'d leveldb_api" and I :: "('d, 'j) node \<Rightarrow> bool" +
  assumes produced: "\<And>n now b. I n \<Longrightarrow>
      createBlock C J now (nd_keys n) (getLatestBlock (nd_chain n)) (getTransactionsForBlock (nd_mempool n) 100) = Inr b \<Longrightarrow>
      wf_block b"
begin

lemma accept: "wf_block b \<Longrightarrow> keeps I (acceptBlock C J L b)"
  by (simp add: good)

lemma keeps_handleMessage: "fit_message J msg \<Longrightarrow> keeps I (handleMessage C J L msg p)"
  by (simp add: keeps_message)

lemma keeps_produce: "keeps I (produceBlock C J L now)"
  unfolding keeps_def
proof (intro allI impI)
  fix n assume n: "I n"
  let ?b = "createBlock C J now (nd_keys n) (getLatestBlock (nd_chain n)) (getTransactionsForBlock (nd_mempool n) 100)"
  have "keeps I (bind_p (acceptBlock C J L b) (\<lambda>added.
      if \<not> added then ret False
      else then_p (on_network (broadcast J \<lparr>msg_type = NEW_BLOCK, msg_payload = blockToJson J b\<rparr> None)) (ret True)))"
    if "?b = Inr b" for b
    by (rule keeps_accept_then [OF conjI [OF produced [OF n that] TrueI]]) (auto intro!: keeps_then keeps_ret network)
  then show "I (snd (produceBlock C J L now n))"
    using n by (auto simp: produceBlock_def proc_simps Let_def bind_p_cases [of "eval_p _"] keepsD
        split: option.splits sum.splits)
qed

lemma keeps_step: "node_step C J L n n' \<Longrightarrow> I n \<Longrightarrow> I n'"
  by (induction rule: node_step.induct)
    (auto intro: keepsD keeps_submit keeps_produce keeps_handleMessage keeps_network_handlers [OF network])

lemma keeps_steps: "(node_step C J L)\<^sup>*\<^sup>* n n' \<Longrightarrow> I n \<Longrightarrow> I n'"
  by (induction rule: rtranclp_induct) (auto intro: keeps_step)

end

end
