(* ===== verification/Node_Facts.thy ===== *)
theory Node_Facts
  imports Node_Steps
begin

text \<open>
  The node's invariant: its chain validates and follows the schedule, its account state is the
  replay of its chain from the genesis allocations, its pool can be paid from that state, and
  all it holds has the sizes of the C++ types. Every operation keeps it, construction and
  recovery establish it; a chain determines the state.
\<close>

section \<open>The account state a chain stands for\<close>

definition settle_txs :: "accounts \<Rightarrow> block \<Rightarrow> accounts" where
  "settle_txs accs b = (case run_txs accs (blk_transactions b) of Some accs' \<Rightarrow> accs' | None \<Rightarrow> accs)"

definition replay :: "accounts \<Rightarrow> block list \<Rightarrow> accounts" where
  "replay accs bs = foldl settle_txs accs bs"

lemma replay_snoc [simp]: "replay accs [] = accs" "replay accs (bs @ [b]) = settle_txs (replay accs bs) b"
  by (simp_all add: replay_def)

lemma applyBlock_settle: "st_accounts (snd (applyBlock s b)) = settle_txs (st_accounts s) b"
  by (simp add: applyBlock_accounts settle_txs_def split: option.splits)

lemma settle_supply: "total_supply accs < 2 ^ 64 \<Longrightarrow> total_supply (settle_txs accs b) = total_supply accs"
  by (auto simp: settle_txs_def supply_run split: option.splits)

lemma replay_supply: "total_supply accs < 2 ^ 64 \<Longrightarrow> total_supply (replay accs bs) = total_supply accs"
  by (induction bs rule: rev_induct) (simp_all add: settle_supply)

text \<open>What an address lost, it sent.\<close>

lemma settle_spent:
  assumes "total_supply accs < 2 ^ 64"
  shows "unat (balance_of accs a) \<le>
    unat (balance_of (settle_txs accs b) a) + sum_list (map (unat \<circ> tx_amount) (sent_by a (blk_transactions b)))"
proof (cases "run_txs accs (blk_transactions b)")
  case (Some accs')
  then show ?thesis
    using accounts_ledger.run_spent [OF assms, of "blk_transactions b" accs' a] by (simp add: settle_txs_def run_txs_run_list)
qed (simp add: settle_txs_def)

lemma replay_spent:
  assumes "total_supply accs < 2 ^ 64"
  shows "unat (balance_of accs a) \<le> unat (balance_of (replay accs bs) a) +
    sum_list (map (unat \<circ> tx_amount) (sent_by a (concat (map blk_transactions bs))))"
proof (induction bs rule: rev_induct)
  case (snoc b bs)
  have "total_supply (replay accs bs) < 2 ^ 64" using assms by (simp add: replay_supply)
  from settle_spent [OF this, of a b] snoc.IH show ?case by (simp add: o_def)
qed simp

definition genesis_accounts :: "('d, 'j) node \<Rightarrow> accounts" where
  "genesis_accounts n = st_accounts (newStateManager (nd_genesisAllocations n))"

section \<open>The invariant\<close>

definition chain_inv :: "crypto_api \<Rightarrow> 'j json_api \<Rightarrow> ('d, 'j) node \<Rightarrow> bool" where
  "chain_inv C J n \<longleftrightarrow>
     valid_blocks C J (bc_chain (nd_chain n)) \<and> chain_scheduled (nd_chain n) \<and>
     st_accounts (nd_state n) = replay (genesis_accounts n) (tl (bc_chain (nd_chain n)))"

definition pool_inv :: "crypto_api \<Rightarrow> 'j json_api \<Rightarrow> ('d, 'j) node \<Rightarrow> bool" where
  "pool_inv C J n \<longleftrightarrow>
     pool_ok C J (nd_state n) (nd_mempool n) \<and> (\<forall>tx\<in>set (pooled (nd_mempool n)). tx_nonce tx \<noteq> - 1)"

definition node_inv :: "crypto_api \<Rightarrow> 'j json_api \<Rightarrow> ('d, 'j) node \<Rightarrow> bool" where
  "node_inv C J n \<longleftrightarrow> chain_inv C J n \<and> pool_inv C J n"

lemma node_inv_frame [simp]:
  "node_inv C J (n\<lparr>nd_network := t\<rparr>) = node_inv C J n"
  "node_inv C J (n\<lparr>nd_storage := s\<rparr>) = node_inv C J n"
  "node_inv C J (n\<lparr>nd_lastError := e\<rparr>) = node_inv C J n"
  by (simp_all add: node_inv_def chain_inv_def pool_inv_def genesis_accounts_def)

section \<open>Preservation\<close>

lemma chain_frame_inv:
  assumes "node_inv C J n" and "\<not> accepts C J (nd_chain n) b"
  shows "node_inv C J (n\<lparr>nd_chain := snd (addBlock C J (nd_chain n) b)\<rparr>)"
  using assms addBlock_scheduled [of "nd_chain n" C J b]
  by (simp add: node_inv_def chain_inv_def pool_inv_def genesis_accounts_def addBlock_chain)

lemma settle_inv:
  assumes inv: "node_inv C J n" and acc: "accepts C J (nd_chain n) b"
  shows "node_inv C J (settle C J b n)"
proof -
  have chain: "bc_chain (nd_chain (settle C J b n)) = bc_chain (nd_chain n) @ [b]"
    using acc by (simp add: settle_def addBlock_chain)
  have valid: "valid_blocks C J (bc_chain (nd_chain n))" using inv by (simp add: node_inv_def chain_inv_def)
  then have ne: "bc_chain (nd_chain n) \<noteq> []" by (rule valid_blocks_nonempty)
  have "chain_inv C J (settle C J b n)"
    using inv addBlock_valid_blocks [OF valid, of b] addBlock_scheduled [of "nd_chain n" C J b] acc ne
    by (simp add: node_inv_def chain_inv_def settle_def genesis_accounts_def addBlock_chain applyBlock_settle)
  moreover have "pool_inv C J (settle C J b n)"
  proof -
    let ?p = "removeMinedTransactions (nd_mempool n) b" and ?s = "snd (applyBlock (nd_state n) b)"
    have sub: "set (pooled ?p) \<subseteq> set (pooled (nd_mempool n))"
      by (auto simp: pooled_def removeMined_pending)
    then have nonces: "\<forall>tx\<in>set (pooled ?p). tx_nonce tx \<noteq> - 1"
      using inv by (auto simp: node_inv_def pool_inv_def)
    have "set (pooled (snd (revalidate C J ?s ?p))) \<subseteq> set (pooled ?p)"
      using readd_subset unfolding revalidate_snd by (fastforce simp: pooled_def)
    with nonces revalidate_pool_ok [OF nonces, of C J ?s] show ?thesis
      by (auto simp: pool_inv_def settle_def)
  qed
  ultimately show ?thesis by (simp add: node_inv_def)
qed

lemma acceptBlock_inv: "keeps (node_inv C J) (acceptBlock C J L b)"
  unfolding keeps_def
proof (intro allI impI)
  fix n :: "('a, 'b) node" assume inv: "node_inv C J n"
  show "node_inv C J (snd (acceptBlock C J L b n))"
  proof (cases rule: acceptBlock_cases [of C J n b L])
    case reject
    then show ?thesis using chain_frame_inv [OF inv] by simp
  next
    case (accept s)
    then show ?thesis using settle_inv [OF inv] by simp
  next
    case (failed e s)
    then show ?thesis using settle_inv [OF inv] by simp
  qed
qed

lemma on_network_inv [intro]: "keeps (node_inv C J) (on_network m)"
  unfolding keeps_def using on_network_frame by (metis node_inv_frame(1))

lemma pool_add_inv:
  assumes "tx_nonce tx \<noteq> - 1"
  shows "keeps (node_inv C J) (pool_add C J tx)"
  unfolding keeps_def
proof (intro allI impI)
  fix n :: "('a, 'b) node" assume inv: "node_inv C J n"
  let ?q = "snd (addTransaction C J (nd_state n) (nd_mempool n) tx)"
  have "snd (pool_add C J tx n) = n\<lparr>nd_mempool := ?q\<rparr>"
    by (simp add: pool_add_def case_prod_unfold)
  moreover have "pool_ok C J (nd_state n) ?q"
    using inv assms by (intro addTransaction_pool_ok) (auto simp: node_inv_def pool_inv_def)
  moreover have "\<forall>tx\<in>set (pooled ?q). tx_nonce tx \<noteq> - 1"
  proof (cases rule: addTransaction_cases [of C J "nd_state n" "nd_mempool n" tx])
    case accept
    then have "\<not> contains (nd_mempool n) (tx_hash tx)" using addTransaction_fst by blast
    with accept inv assms show ?thesis by (auto simp: admit_effect node_inv_def pool_inv_def)
  next
    case (reject e)
    with inv show ?thesis by (simp add: node_inv_def pool_inv_def)
  qed
  ultimately show "node_inv C J (snd (pool_add C J tx n))"
    using inv by (simp add: node_inv_def pool_inv_def chain_inv_def genesis_accounts_def)
qed

section \<open>Well-formed values\<close>

text \<open>Fixed sizes, which the C++ types guarantee: of everything pooled and chained.\<close>

definition wf_node :: "crypto_api \<Rightarrow> ('d, 'j) node \<Rightarrow> bool" where
  "wf_node C n \<longleftrightarrow>
     key_pair_ok C (nd_keys n) \<and> nd_addr n = deriveAddress C (publicKey (nd_keys n)) \<and>
     list_all wf_block (bc_chain (nd_chain n)) \<and> list_all wf_transaction (pooled (nd_mempool n))"

lemma selection_subset: "set (getTransactionsForBlock p m) \<subseteq> set (pooled p)"
  using set_take_subset [of m "sort_key sort_key_of (pooled p)"] by (simp add: getTransactionsForBlock_take)

lemma tip_hash_sized:
  assumes "evp_ok C" and "valid_blocks C J (bc_chain c)"
  shows "sized 32 (blk_hash (getLatestBlock c))"
proof -
  have "getLatestBlock c \<in> set (bc_chain c)"
    using valid_blocks_nonempty [OF assms(2)] by (simp add: getLatestBlock_def)
  then show ?thesis
    using valid_blocks_verify [OF assms(2)] verifyBlock_hash_length(1) [OF assms(1)] by blast
qed

text \<open>What a scheduled producer does, storage aside.\<close>

lemma produceBlock_succeeds:
  assumes C: "crypto_ok C" and inv: "node_inv C J n" and wf: "wf_node C n"
    and p: "bc_consensus (nd_chain n) = Some p" and turn: "getProducer p (getHeight (nd_chain n)) = nd_addr n"
  obtains b where "createBlock C J now (nd_keys n) (getLatestBlock (nd_chain n)) (getTransactionsForBlock (nd_mempool n) 100) = Inr b"
    and "accepts C J (nd_chain n) b" and "wf_block b"
    and "produceBlock C J L now n =
      bind_p (acceptBlock C J L b) (\<lambda>added.
         if \<not> added then ret False
         else then_p (on_network (broadcast J \<lparr>msg_type = NEW_BLOCK, msg_payload = blockToJson J b\<rparr> None))
            (ret True)) n"
proof -
  let ?txs = "getTransactionsForBlock (nd_mempool n) 100"
  have keys: "key_pair_ok C (nd_keys n)" and addr: "nd_addr n = deriveAddress C (publicKey (nd_keys n))"
    using wf by (simp_all add: wf_node_def)
  obtain b where b: "createBlock C J now (nd_keys n) (getLatestBlock (nd_chain n)) ?txs = Inr b"
    using createBlock_total [OF C keys] by blast
  have valid: "valid_blocks C J (bc_chain (nd_chain n))" using inv by (simp add: node_inv_def chain_inv_def)
  have txs: "list_all (verifyTransaction C J) ?txs" "list_all wf_transaction ?txs"
    using selection_subset [of "nd_mempool n" 100] inv wf
    by (auto simp: list_all_iff node_inv_def pool_inv_def wf_node_def intro: pool_ok_verified)
  have acc: "accepts C J (nd_chain n) b"
    using p turn addr by (intro createBlock_accepts [OF C keys valid b txs(1)]) simp
  have "wf_block b"
    by (rule createBlock_wf [OF C keys b tip_hash_sized [OF crypto_okD(1) [OF C] valid] txs(2)])
  with b acc show ?thesis
    using p turn by (intro that) (simp_all add: produceBlock_def bind_p_cases proc_simps Let_def)
qed

lemma wf_node_frame [simp]:
  "wf_node C (n\<lparr>nd_network := t\<rparr>) = wf_node C n" "wf_node C (n\<lparr>nd_storage := s\<rparr>) = wf_node C n"
  "wf_node C (n\<lparr>nd_lastError := e\<rparr>) = wf_node C n" "wf_node C (n\<lparr>nd_state := st\<rparr>) = wf_node C n"
  by (simp_all add: wf_node_def)

lemma wf_on_network: "keeps (wf_node C) (on_network m)"
  unfolding keeps_def using on_network_frame by (metis wf_node_frame(1))

lemma wf_on_storage: "keeps (wf_node C) (on_storage m)"
  unfolding keeps_def using on_storage_frame by (metis wf_node_frame(2))

lemma wf_chain_add: "wf_block b \<Longrightarrow> wf_node C n \<Longrightarrow> wf_node C (n\<lparr>nd_chain := snd (addBlock C' J (nd_chain n) b)\<rparr>)"
  by (simp add: wf_node_def addBlock_chain)

lemma settle_wf:
  assumes "wf_block b" and "wf_node C n"
  shows "wf_node C (settle C J b n)"
proof -
  have "set (pooled (nd_mempool (settle C J b n))) \<subseteq> set (pooled (nd_mempool n))"
    using readd_subset [of C J "snd (applyBlock (nd_state n) b)"]
    unfolding settle_def revalidate_snd by (fastforce simp: pooled_def removeMined_pending)
  then show ?thesis
    using assms by (auto simp: wf_node_def settle_def addBlock_chain list_all_iff)
qed

lemma acceptBlock_wf:
  assumes "wf_block b"
  shows "keeps (wf_node C) (acceptBlock C J L b)"
  unfolding keeps_def
proof (intro allI impI)
  fix n :: "('a, 'b) node" assume n: "wf_node C n"
  show "wf_node C (snd (acceptBlock C J L b n))"
    by (cases rule: acceptBlock_cases [of C J n b L]) (simp_all add: wf_chain_add settle_wf assms n)
qed

lemma pool_add_wf:
  assumes "wf_transaction tx"
  shows "keeps (wf_node C) (pool_add C J tx)"
  unfolding keeps_def
proof (intro allI impI)
  fix n :: "('a, 'b) node" assume n: "wf_node C n"
  have "snd (pool_add C J tx n) = n\<lparr>nd_mempool := snd (addTransaction C J (nd_state n) (nd_mempool n) tx)\<rparr>"
    by (simp add: pool_add_def case_prod_unfold)
  moreover have "list_all wf_transaction (pooled (snd (addTransaction C J (nd_state n) (nd_mempool n) tx)))"
  proof (cases rule: addTransaction_cases [of C J "nd_state n" "nd_mempool n" tx])
    case accept
    then have "\<not> contains (nd_mempool n) (tx_hash tx)" using addTransaction_fst by blast
    with accept n assms show ?thesis by (simp add: admit_effect wf_node_def)
  next
    case (reject e)
    with n show ?thesis by (simp add: wf_node_def)
  qed
  ultimately show "wf_node C (snd (pool_add C J tx n))" using n by (simp add: wf_node_def)
qed

section \<open>Every operation keeps the invariant\<close>

definition consistent :: "crypto_api \<Rightarrow> 'j json_api \<Rightarrow> ('d, 'j) node \<Rightarrow> bool" where
  "consistent C J n \<longleftrightarrow> crypto_ok C \<and> node_inv C J n \<and> wf_node C n"

lemma keeps_consistent:
  assumes "crypto_ok C \<Longrightarrow> keeps (node_inv C J) m" and "crypto_ok C \<Longrightarrow> keeps (wf_node C) m"
  shows "keeps (consistent C J) m"
  using assms by (auto simp: keeps_def consistent_def)

lemma consistent_block_wf:
  assumes "consistent C J n"
    and "createBlock C J now (nd_keys n) (getLatestBlock (nd_chain n)) (getTransactionsForBlock (nd_mempool n) 100) = Inr b"
  shows "wf_block b"
proof -
  have C: "crypto_ok C" and valid: "valid_blocks C J (bc_chain (nd_chain n))" and wf: "wf_node C n"
    using assms(1) by (simp_all add: consistent_def node_inv_def chain_inv_def)
  have "list_all wf_transaction (getTransactionsForBlock (nd_mempool n) 100)"
    using selection_subset [of "nd_mempool n" 100] wf by (auto simp: list_all_iff wf_node_def)
  moreover have "sized 32 (blk_hash (getLatestBlock (nd_chain n)))"
    by (rule tip_hash_sized [OF crypto_okD(1) [OF C] valid])
  ultimately show ?thesis
    using wf by (intro createBlock_wf [OF C _ assms(2)]) (simp_all add: wf_node_def)
qed

interpretation consistency: node_invariant C J L "consistent C J :: ('d, 'j) node \<Rightarrow> bool"
  for C :: crypto_api and J :: "'j json_api" and L :: "'d leveldb_api"
proof unfold_locales
  show "keeps (consistent C J :: ('d, 'j) node \<Rightarrow> bool) (on_network m)" for m :: "('j network, unit) proc"
    by (intro keeps_consistent on_network_inv wf_on_network)
  show "keeps (consistent C J :: ('d, 'j) node \<Rightarrow> bool) (pool_add C J tx)"
    if "wf_transaction tx" "tx_nonce tx \<noteq> - 1" for tx
    using that by (intro keeps_consistent pool_add_inv pool_add_wf)
  show "keeps (consistent C J :: ('d, 'j) node \<Rightarrow> bool) (acceptBlock C J L b)" if "wf_block b" for b
    using that by (intro keeps_consistent acceptBlock_inv acceptBlock_wf)
qed (auto simp: consistent_def intro: consistent_block_wf [unfolded consistent_def])

section \<open>Construction\<close>

definition fresh_inv :: "crypto_api \<Rightarrow> 'j json_api \<Rightarrow> ('d, 'j) node \<Rightarrow> bool" where
  "fresh_inv C J n \<longleftrightarrow> chain_inv C J n \<and> nd_mempool n = newMempool"

lemma fresh_inv_node_inv: "fresh_inv C J n \<Longrightarrow> node_inv C J n"
  by (simp add: fresh_inv_def node_inv_def pool_inv_def pool_ok_empty newMempool_def pooled_def)

lemma fresh_inv_storage [simp]: "fresh_inv C J (n\<lparr>nd_storage := s\<rparr>) = fresh_inv C J n"
  by (simp add: fresh_inv_def chain_inv_def genesis_accounts_def)

lemma fresh_inv_on_storage: "keeps (fresh_inv C J) (on_storage m)"
  unfolding keeps_def using on_storage_frame by (metis fresh_inv_storage)

definition replay_step :: "crypto_api \<Rightarrow> 'j json_api \<Rightarrow> block \<Rightarrow> ('d, 'j) node \<Rightarrow> ('d, 'j) node" where
  "replay_step C J b n =
     n\<lparr>nd_chain := snd (addBlock C J (nd_chain n) b), nd_state := snd (applyBlock (nd_state n) b)\<rparr>"

lemma replay_step_inv:
  assumes "fresh_inv C J n" and "accepts C J (nd_chain n) b"
  shows "fresh_inv C J (replay_step C J b n)"
proof -
  have valid: "valid_blocks C J (bc_chain (nd_chain n))" using assms(1) by (simp add: fresh_inv_def chain_inv_def)
  then have ne: "bc_chain (nd_chain n) \<noteq> []" by (rule valid_blocks_nonempty)
  show ?thesis
    using assms ne addBlock_valid_blocks [OF valid, of b] addBlock_scheduled [of "nd_chain n" C J b]
    by (simp add: fresh_inv_def chain_inv_def replay_step_def genesis_accounts_def addBlock_chain applyBlock_settle)
qed

lemma replay_block_run:
  "bind_p (chain_add C J b) (\<lambda>added. if \<not> added then ret () else then_p (state_apply b) m) n =
     (if accepts C J (nd_chain n) b then m (replay_step C J b n)
      else (Inr (), n\<lparr>nd_chain := snd (addBlock C J (nd_chain n) b)\<rparr>))"
  by (simp add: bind_p_cases chain_add_run proc_simps state_apply_def replay_step_def case_prod_unfold)

lemma replay_stored_inv: "keeps (fresh_inv C J) (replay_stored C J L is)"
proof (induction "is")
  case (Cons i "is")
  have step: "keeps (fresh_inv C J) (bind_p (chain_add C J b) (\<lambda>added.
      if \<not> added then ret () else then_p (state_apply b) (replay_stored C J L is)))" for b
    unfolding keeps_def
  proof (intro allI impI)
    fix n :: "('a, 'b) node" assume n: "fresh_inv C J n"
    have "fresh_inv C J (n\<lparr>nd_chain := snd (addBlock C J (nd_chain n) b)\<rparr>)" if "\<not> accepts C J (nd_chain n) b"
      using n that addBlock_scheduled [of "nd_chain n" C J b]
      by (simp add: fresh_inv_def chain_inv_def genesis_accounts_def addBlock_chain)
    with n show "fresh_inv C J (snd (bind_p (chain_add C J b) (\<lambda>added.
        if \<not> added then ret () else then_p (state_apply b) (replay_stored C J L is)) n))"
      using keepsD [OF Cons replay_step_inv [OF n]] by (simp add: replay_block_run)
  qed
  show ?case
    by (simp del: not_not)
      (intro keeps_bind fresh_inv_on_storage, auto split: option.split intro: keeps_ret step)
qed (simp add: keeps_ret)

lemma recover_inv: "keeps (fresh_inv C J) (recoverFromStorage C J L)"
proof -
  have "keeps (fresh_inv C J) (bind_p (on_storage (eval_p (loadChainHeight L))) (\<lambda>storedHeight.
      if storedHeight \<le> 1 then ret () else replay_stored C J L [1..<unat storedHeight]))"
    by (intro keeps_bind fresh_inv_on_storage) (auto intro: keeps_ret replay_stored_inv)
  then show ?thesis
    by (auto simp: keeps_def recoverFromStorage_def proc_simps split: option.splits)
qed

text \<open>What survives each of its assignments survives the recovery.\<close>

lemma keeps_recover:
  assumes sto: "\<And>n s. I n \<Longrightarrow> I (n\<lparr>nd_storage := s\<rparr>)"
    and chain: "\<And>n b. I n \<Longrightarrow> I (n\<lparr>nd_chain := snd (addBlock C J (nd_chain n) b)\<rparr>)"
    and state: "\<And>n s. I n \<Longrightarrow> I (n\<lparr>nd_state := s\<rparr>)"
  shows "keeps I (recoverFromStorage C J L)"
proof -
  have on_sto: "keeps I (on_storage m)" for m
    unfolding keeps_def using on_storage_frame sto by metis
  have step: "I (replay_step C J b n)" if "I n" for b n
    using state [OF chain [OF that]] by (simp add: replay_step_def)
  have "keeps I (replay_stored C J L is)" for "is"
  proof (induction "is")
    case (Cons i "is")
    have "keeps I (bind_p (chain_add C J b) (\<lambda>added.
        if \<not> added then ret () else then_p (state_apply b) (replay_stored C J L is)))" for b
      unfolding keeps_def replay_block_run using keepsD [OF Cons step] chain by simp
    then show ?case
      by (simp del: not_not) (intro keeps_bind on_sto, auto split: option.split intro: keeps_ret)
  qed (simp add: keeps_ret)
  then have "keeps I (bind_p (on_storage (eval_p (loadChainHeight L))) (\<lambda>storedHeight.
      if storedHeight \<le> 1 then ret () else replay_stored C J L [1..<unat storedHeight]))"
    by (intro keeps_bind on_sto) (auto intro: keeps_ret)
  then show ?thesis
    by (auto simp: keeps_def recoverFromStorage_def proc_simps split: option.splits)
qed

lemma assemble_parts:
  assumes "assembleNode C J L keys gkeys auths allocs dataDir files = Inr n"
  obtains p c where "newPoAConsensus auths = Inr p" and "newBlockchainPoA C J gkeys p = Inr c"
  using assms by (auto simp: assembleNode_def)

definition blank_node ::
  "crypto_api \<Rightarrow> key_pair \<Rightarrow> blockchain \<Rightarrow> (address \<times> u64) list \<Rightarrow> ('d, 'j) node" where
  "blank_node C keys c allocs =
     \<lparr>nd_keys = keys, nd_addr = deriveAddress C (publicKey keys), nd_chain = c,
      nd_state = newStateManager allocs, nd_mempool = newMempool, nd_genesisAllocations = allocs,
      nd_storage = None, nd_network = freshNetwork, nd_lastError = ''''\<rparr>"

lemma blank_node_inv:
  assumes "crypto_ok C" and "key_pair_ok C gkeys" and "poa_ok p" and "newBlockchainPoA C J gkeys p = Inr c"
  shows "fresh_inv C J (blank_node C keys c allocs)"
proof -
  have c: "chain_reachable C J c" by (rule reach_poa [OF assms])
  obtain g where "bc_chain c = [g]" using newBlockchainPoA_chain [OF assms(4)] by blast
  with chain_reachable_valid [OF c] chain_reachable_scheduled [OF c] show ?thesis
    by (simp add: fresh_inv_def chain_inv_def blank_node_def genesis_accounts_def)
qed

lemma assemble_run:
  assumes "newPoAConsensus auths = Inr p" and "newBlockchainPoA C J gkeys p = Inr c"
  shows "assembleNode C J L keys gkeys auths allocs dataDir files =
    (if dataDir = '''' then Inr (blank_node C keys c allocs)
     else bind_e (newStorage L dataDir files) (\<lambda>s.
       case recoverFromStorage C J L ((blank_node C keys c allocs)\<lparr>nd_storage := Some s\<rparr>) of
         (Inl e, n') \<Rightarrow> Inl e | (Inr u, n') \<Rightarrow> Inr n'))"
  using assms by (simp add: assembleNode_def blank_node_def)

lemma assemble_network:
  fixes n :: "('d, 'j) node"
  assumes "assembleNode C J L keys gkeys auths allocs dataDir files = Inr n"
  shows "nd_network n = freshNetwork"
proof -
  obtain p c where pc: "newPoAConsensus auths = Inr p" "newBlockchainPoA C J gkeys p = Inr c"
    by (rule assemble_parts [OF assms])
  have rec: "keeps (\<lambda>n :: ('d, 'j) node. nd_network n = freshNetwork) (recoverFromStorage C J L)"
    by (rule keeps_recover) simp_all
  show ?thesis
  proof (cases "dataDir = ''''")
    case True
    with assms show ?thesis by (auto simp: assemble_run [OF pc] blank_node_def)
  next
    case False
    obtain s where "(case recoverFromStorage C J L ((blank_node C keys c allocs)\<lparr>nd_storage := Some s\<rparr>) of
         (Inl e, n') \<Rightarrow> Inl e | (Inr u, n') \<Rightarrow> Inr n') = Inr n"
      using assms [unfolded assemble_run [OF pc] if_not_P [OF False]] by (rule bind_e_InrE) (rule that)
    then show ?thesis
      using keepsD [OF rec, of "(blank_node C keys c allocs)\<lparr>nd_storage := Some s\<rparr>"]
      by (auto simp: blank_node_def split: prod.splits sum.splits unit.splits)
  qed
qed

text \<open>Construction ends with the port: a node that could be assembled starts exactly when the port is free.\<close>

lemma newNode_outcome:
  "newNode C J L P keys gkeys auths allocs port dataDir files =
     (case assembleNode C J L keys gkeys auths allocs dataDir files of
        Inl e \<Rightarrow> Inl e
      | Inr n \<Rightarrow> (case P port of None \<Rightarrow> Inr n | Some reason \<Rightarrow> Inl (RuntimeError reason)))"
proof (cases "assembleNode C J L keys gkeys auths allocs dataDir files")
  case (Inr n)
  then have "n\<lparr>nd_network := freshNetwork\<rparr> = n" using assemble_network [OF Inr] by (cases n) simp
  with Inr show ?thesis by (simp add: newNode_def newNetwork_def split: option.split)
qed (simp add: newNode_def)

lemma newNode_iff:
  "newNode C J L P keys gkeys auths allocs port dataDir files = Inr n \<longleftrightarrow>
     P port = None \<and> assembleNode C J L keys gkeys auths allocs dataDir files = Inr n"
  by (auto simp: newNode_outcome split: sum.split option.split)

lemma newNode_assembled:
  "newNode C J L P keys gkeys auths allocs port dataDir files = Inr n \<Longrightarrow>
     assembleNode C J L keys gkeys auths allocs dataDir files = Inr n"
  by (simp add: newNode_iff)

lemma assemble_inv:
  fixes n :: "('d, 'j) node"
  assumes "crypto_ok C" and "key_pair_ok C gkeys"
    and new: "assembleNode C J L keys gkeys auths allocs dataDir files = Inr n"
  shows "fresh_inv C J n"
proof -
  obtain p c where pc: "newPoAConsensus auths = Inr p" "newBlockchainPoA C J gkeys p = Inr c"
    by (rule assemble_parts [OF new])
  have blank: "fresh_inv C J (blank_node C keys c allocs :: ('d, 'j) node)"
    using newPoAConsensus_ok [OF pc(1)] by (intro blank_node_inv [OF assms(1,2) _ pc(2)]) simp
  show ?thesis
  proof (cases "dataDir = ''''")
    case True
    with new blank show ?thesis by (simp add: assemble_run [OF pc])
  next
    case False
    obtain s where s: "(case recoverFromStorage C J L ((blank_node C keys c allocs)\<lparr>nd_storage := Some s\<rparr>) of
         (Inl e, n') \<Rightarrow> Inl e | (Inr u, n') \<Rightarrow> Inr n') = Inr n"
      using new [unfolded assemble_run [OF pc] if_not_P [OF False]] by (rule bind_e_InrE) (rule that)
    obtain r n' where run: "recoverFromStorage C J L ((blank_node C keys c allocs)\<lparr>nd_storage := Some s\<rparr>) = (r, n')"
      by (cases "recoverFromStorage C J L ((blank_node C keys c allocs)\<lparr>nd_storage := Some s\<rparr>)")
    have eq: "n' = n" using s unfolding run by (cases r) (simp_all split: unit.splits)
    show ?thesis
      using keepsD [OF recover_inv, of C J "(blank_node C keys c allocs)\<lparr>nd_storage := Some s\<rparr>" L] blank run eq by simp
  qed
qed

lemma wf_replay_step: "wf_block b \<Longrightarrow> wf_node C n \<Longrightarrow> wf_node C (replay_step C' J b n)"
  by (simp add: wf_node_def replay_step_def addBlock_chain)

lemma replay_stored_wf: "keeps (wf_node C) (replay_stored C' J L is)"
proof (induction "is")
  case (Cons i "is")
  have step: "keeps (wf_node C) (bind_p (chain_add C' J b) (\<lambda>added.
      if \<not> added then ret () else then_p (state_apply b) (replay_stored C' J L is)))" if "wf_block b" for b
    unfolding keeps_def replay_block_run
    using keepsD [OF Cons wf_replay_step [OF that]] by (auto intro: wf_chain_add [OF that])
  show ?case
    unfolding replay_stored.simps
  proof (rule keeps_bind_post [where P = "\<lambda>r. \<forall>b. r = Some b \<longrightarrow> wf_block b"])
    fix r s s'
    assume "on_storage (eval_p (loadBlock L J (word_of_nat i))) s = (Inr r, s')"
    then show "\<forall>b. r = Some b \<longrightarrow> wf_block b"
      by (auto simp: on_storage_def proc_simps dest: loadBlock_wf split: option.splits)
  qed (auto split: option.split intro: keeps_ret step wf_on_storage)
qed (simp add: keeps_ret)

lemma recover_wf: "keeps (wf_node C) (recoverFromStorage C' J L)"
proof -
  have "keeps (wf_node C) (bind_p (on_storage (eval_p (loadChainHeight L))) (\<lambda>storedHeight.
      if storedHeight \<le> 1 then ret () else replay_stored C' J L [1..<unat storedHeight]))"
    by (intro keeps_bind wf_on_storage) (auto intro: keeps_ret replay_stored_wf)
  then show ?thesis
    by (auto simp: keeps_def recoverFromStorage_def proc_simps split: option.splits)
qed

lemma assemble_wf:
  fixes n :: "('d, 'j) node"
  assumes C: "crypto_ok C" and keys: "key_pair_ok C keys" and gkeys: "key_pair_ok C gkeys"
    and new: "assembleNode C J L keys gkeys auths allocs dataDir files = Inr n"
  shows "wf_node C n"
proof -
  obtain p c where pc: "newPoAConsensus auths = Inr p" "newBlockchainPoA C J gkeys p = Inr c"
    by (rule assemble_parts [OF new])
  obtain g where g: "createGenesisBlock C J gkeys = Inr g" "bc_chain c = [g]"
    using newBlockchainPoA_chain [OF pc(2)] by blast
  have blank: "wf_node C (blank_node C keys c allocs :: ('d, 'j) node)"
    using createGenesisBlock_wf [OF C gkeys g(1)] keys g(2)
    by (simp add: wf_node_def blank_node_def newMempool_def pooled_def)
  show ?thesis
  proof (cases "dataDir = ''''")
    case True
    with new blank show ?thesis by (simp add: assemble_run [OF pc])
  next
    case False
    obtain s where s: "(case recoverFromStorage C J L ((blank_node C keys c allocs)\<lparr>nd_storage := Some s\<rparr>) of
         (Inl e, n') \<Rightarrow> Inl e | (Inr u, n') \<Rightarrow> Inr n') = Inr n"
      using new [unfolded assemble_run [OF pc] if_not_P [OF False]] by (rule bind_e_InrE) (rule that)
    obtain r n' where run: "recoverFromStorage C J L ((blank_node C keys c allocs)\<lparr>nd_storage := Some s\<rparr>) = (r, n')"
      by (cases "recoverFromStorage C J L ((blank_node C keys c allocs)\<lparr>nd_storage := Some s\<rparr>)")
    have eq: "n' = n" using s unfolding run by (cases r) simp_all
    show ?thesis
      using keepsD [OF recover_wf, of C "(blank_node C keys c allocs)\<lparr>nd_storage := Some s\<rparr>" C J L] blank run eq by simp
  qed
qed

section \<open>Reachable nodes\<close>

text \<open>A node after any sequence of operations, with whatever files it was started on.\<close>

inductive node_run ::
  "crypto_api \<Rightarrow> 'j json_api \<Rightarrow> 'd leveldb_api \<Rightarrow> ('d, 'j) node \<Rightarrow> bool" for C J L where
  node_new: "crypto_ok C \<Longrightarrow> key_pair_ok C keys \<Longrightarrow> key_pair_ok C gkeys \<Longrightarrow>
     newNode C J L P keys gkeys auths allocs port dataDir files = Inr n \<Longrightarrow> node_run C J L n"
| node_more: "node_run C J L n \<Longrightarrow> node_step C J L n n' \<Longrightarrow> node_run C J L n'"

lemma assemble_consistent:
  assumes "crypto_ok C" and "key_pair_ok C keys" and "key_pair_ok C gkeys"
    and "assembleNode C J L keys gkeys auths allocs dataDir files = Inr n"
  shows "consistent C J n"
  using assms assemble_wf [OF assms] fresh_inv_node_inv [OF assemble_inv [OF assms(1,3,4)]]
  by (simp add: consistent_def)

lemma node_run_consistent: "node_run C J L n \<Longrightarrow> consistent C J n"
  by (induction rule: node_run.induct) (auto intro: assemble_consistent newNode_assembled consistency.keeps_step)

lemma consistentD:
  assumes "consistent C J n"
  shows "crypto_ok C" and "node_inv C J n" and "chain_inv C J n" and "wf_node C n"
    and "valid_blocks C J (bc_chain (nd_chain n))" and "bc_chain (nd_chain n) \<noteq> []"
    and "chain_scheduled (nd_chain n)"
  using assms valid_blocks_nonempty by (auto simp: consistent_def node_inv_def chain_inv_def)

section \<open>A chain determines the state\<close>

lemma same_chain_same_state:
  assumes "chain_inv C J m" and "chain_inv C J n" and "genesis_accounts m = genesis_accounts n"
    and "bc_chain (nd_chain m) = bc_chain (nd_chain n)"
  shows "st_accounts (nd_state m) = st_accounts (nd_state n)"
  using assms by (simp add: chain_inv_def)

section \<open>Chains under one schedule\<close>

definition same_schedule :: "blockchain \<Rightarrow> blockchain \<Rightarrow> bool" where
  "same_schedule c d \<longleftrightarrow>
     map_option poa_authorities (bc_consensus c) = map_option poa_authorities (bc_consensus d)"

lemma next_block_accepts:
  assumes valid: "valid_blocks C J (bc_chain c @ b # rest)" and ne: "bc_chain c \<noteq> []"
    and sched: "\<And>p. bc_consensus c = Some p \<Longrightarrow> scheduled p (bc_chain c @ b # rest)"
  shows "accepts C J c b"
proof -
  have "valid_blocks C J (bc_chain c @ [b])"
    using valid_blocks_take [of C J "bc_chain c @ [b]" rest] valid by simp
  then have "blk_index b = getHeight c" "blk_previousHash b = blk_hash (getLatestBlock c)" "verifyBlock C J b"
    using ne by (simp_all add: valid_blocks_snoc getHeight_def getLatestBlock_def)
  moreover have "blk_validator b = getProducer p (blk_index b)" if "bc_consensus c = Some p" for p
  proof -
    have "blk_validator ((bc_chain c @ b # rest) ! length (bc_chain c)) = getProducer p (word_of_nat (length (bc_chain c)))"
      using sched [OF that, unfolded scheduled_def, rule_format, of "length (bc_chain c)"] ne by simp
    then show ?thesis using calculation(1) by (simp add: getHeight_def)
  qed
  ultimately show ?thesis by (simp add: accepts_def)
qed

lemma settle_schedule:
  "map_option poa_authorities (bc_consensus (nd_chain (settle C J b n))) =
   map_option poa_authorities (bc_consensus (nd_chain n))"
  by (simp add: settle_def addBlock_authorities)

end
