(* ===== verification/Node_Recovery.thy ===== *)
theory Node_Recovery
  imports Node_Facts
begin

text \<open>
  The node and its storage: what an accepted block writes, what a database holds for a node,
  the synchronisation with a longer
  chain, and the recovery of chain and accounts after a restart.
\<close>

section \<open>What storage holds\<close>

text \<open>The chain after genesis, block by block, and its height.\<close>

definition chain_stored :: "'d leveldb_api \<Rightarrow> 'j json_api \<Rightarrow> ('d, 'j) node \<Rightarrow> bool" where
  "chain_stored L J n \<longleftrightarrow>
     (\<exists>s sp. nd_storage n = Some s \<and> store_rep L J s sp \<and>
        (\<forall>i. 0 < i \<and> i < length (bc_chain (nd_chain n)) \<longrightarrow>
           ss_block sp (word_of_nat i) = Some (bc_chain (nd_chain n) ! i)) \<and>
        (case ss_height sp of None \<Rightarrow> length (bc_chain (nd_chain n)) = 1
         | Some h \<Rightarrow> h = getHeight (nd_chain n)))"

definition blocks_in :: "store_spec \<Rightarrow> block list \<Rightarrow> bool" where
  "blocks_in sp bs \<longleftrightarrow> (\<forall>i. 0 < i \<and> i < length bs \<longrightarrow> ss_block sp (word_of_nat i) = Some (bs ! i))"

text \<open>Recovery from a database that holds the rest of a valid scheduled chain.\<close>

lemma recover_follows:
  assumes J: "json_ok J" and rep: "store_rep L J s sp"
  shows "nd_storage n = Some s \<Longrightarrow> bc_chain (nd_chain n) \<noteq> [] \<Longrightarrow>
    valid_blocks C J (bc_chain (nd_chain n) @ rest) \<Longrightarrow>
    (\<And>p. bc_consensus (nd_chain n) = Some p \<Longrightarrow> scheduled p (bc_chain (nd_chain n) @ rest)) \<Longrightarrow>
    blocks_in sp (bc_chain (nd_chain n) @ rest) \<Longrightarrow>
    \<exists>n'. replay_stored C J L [length (bc_chain (nd_chain n))..<length (bc_chain (nd_chain n) @ rest)] n = (Inr (), n') \<and>
      bc_chain (nd_chain n') = bc_chain (nd_chain n) @ rest \<and> nd_storage n' = Some s"
proof (induction rest arbitrary: n)
  case Nil
  then show ?case by (simp add: proc_simps)
next
  case (Cons b rest)
  let ?k = "length (bc_chain (nd_chain n))"
  have acc: "accepts C J (nd_chain n) b"
    using Cons.prems by (intro next_block_accepts) auto
  have "ss_block sp (word_of_nat ?k) = Some b"
    using Cons.prems(2,5) unfolding blocks_in_def
    by (metis length_append length_greater_0_conv less_add_same_cancel1 list.distinct(1) nth_append_length)
  then have load: "on_storage (eval_p (loadBlock L J (word_of_nat ?k))) n = (Inr (Some b), n)"
    using Cons.prems(1) loadBlock_rep [OF J rep] by (simp add: on_storage_def proc_simps)
  let ?n = "replay_step C J b n"
  have chain: "bc_chain (nd_chain ?n) = bc_chain (nd_chain n) @ [b]"
    using acc by (simp add: replay_step_def addBlock_chain)
  have "\<exists>n'. replay_stored C J L [length (bc_chain (nd_chain ?n))..<length (bc_chain (nd_chain ?n) @ rest)] ?n = (Inr (), n') \<and>
      bc_chain (nd_chain n') = bc_chain (nd_chain ?n) @ rest \<and> nd_storage n' = Some s"
  proof (rule Cons.IH)
    show "nd_storage ?n = Some s" using Cons.prems(1) by (simp add: replay_step_def)
    fix p assume "bc_consensus (nd_chain ?n) = Some p"
    then obtain q where "bc_consensus (nd_chain n) = Some q" "poa_authorities q = poa_authorities p"
      using addBlock_authorities [of C J "nd_chain n" b]
      by (auto simp: replay_step_def map_option_case split: option.splits)
    then show "scheduled p (bc_chain (nd_chain ?n) @ rest)"
      using Cons.prems(4) scheduled_cong [of q p] by (simp add: chain)
  qed (use Cons.prems in \<open>simp_all add: chain\<close>)
  moreover have "[?k..<length (bc_chain (nd_chain n) @ b # rest)] =
      ?k # [length (bc_chain (nd_chain ?n))..<length (bc_chain (nd_chain ?n) @ rest)]"
    by (simp add: chain upt_conv_Cons del: upt_Suc)
  ultimately show ?case
    using acc load by (simp add: bind_p_Inr replay_block_run chain)
qed

lemma on_storage_Inr:
  assumes "on_storage m n = (Inr x, n')"
  obtains s s' where "nd_storage n = Some s" and "m s = (Inr x, s')" and "n' = n\<lparr>nd_storage := Some s'\<rparr>"
  using assms by (auto simp: on_storage_def split: option.splits prod.splits)

text \<open>A database standing for some maps with the given blocks and height.\<close>

definition holds_blocks ::
  "'d leveldb_api \<Rightarrow> 'j json_api \<Rightarrow> (u64 \<rightharpoonup> block) \<Rightarrow> u64 option \<Rightarrow> ('d, 'j) node \<Rightarrow> bool" where
  "holds_blocks L J bm h n \<longleftrightarrow>
     (\<exists>s sp. nd_storage n = Some s \<and> store_rep L J s sp \<and> ss_block sp = bm \<and> ss_height sp = h)"

lemma save_account_holds:
  assumes "leveldb_ok L" and "json_ok J" and "length a = 20" and "holds_blocks L J bm h n"
    and "save_account L J a n = (Inr (), n')"
  shows "holds_blocks L J bm h n'"
proof (cases "accountExists (nd_state n) a")
  case True
  let ?acct = "\<lparr>acc_balance = getBalance (nd_state n) a, acc_nonce = getNonce (nd_state n) a\<rparr>"
  have "on_storage (saveAccountState L J a ?acct) n = (Inr (), n')"
    using assms(5) True by (simp add: save_account_def)
  then obtain s s' where s: "nd_storage n = Some s" "saveAccountState L J a ?acct s = (Inr (), s')"
      "n' = n\<lparr>nd_storage := Some s'\<rparr>"
    by (rule on_storage_Inr)
  obtain sp where sp: "store_rep L J s sp" "ss_block sp = bm" "ss_height sp = h"
    using assms(4) s(1) by (auto simp: holds_blocks_def)
  have "store_rep L J s' (spec_account a ?acct sp)"
    using saveAccountState_rep [OF assms(1,2) sp(1) assms(3) s(2)] by simp
  then show ?thesis using sp s(3) by (auto simp: holds_blocks_def spec_account_def)
next
  case False
  with assms show ?thesis by (simp add: save_account_def proc_simps)
qed

lemma save_accounts_holds:
  assumes "leveldb_ok L" and "json_ok J" and "evp_ok C"
  shows "list_all wf_transaction txs \<Longrightarrow> holds_blocks L J bm h n \<Longrightarrow>
    for_p txs (\<lambda>tx. then_p (save_account L J (deriveAddress C (tx_senderPublicKey tx)))
       (save_account L J (tx_recipient tx))) n = (Inr (), n') \<Longrightarrow> holds_blocks L J bm h n'"
proof (induction txs arbitrary: n)
  case (Cons tx txs)
  from Cons.prems(3) obtain n1 n2 where
    "save_account L J (deriveAddress C (tx_senderPublicKey tx)) n = (Inr (), n1)"
    "save_account L J (tx_recipient tx) n1 = (Inr (), n2)"
    "for_p txs (\<lambda>tx. then_p (save_account L J (deriveAddress C (tx_senderPublicKey tx)))
       (save_account L J (tx_recipient tx))) n2 = (Inr (), n')"
    by (auto simp: then_p_def elim!: bind_p_InrE)
  moreover have "length (tx_recipient tx) = 20"
    using Cons.prems(1) by (simp add: wf_transaction_def sized_def)
  ultimately show ?case
    using Cons.prems(1,2) save_account_holds [OF assms(1,2)] length_deriveAddress [OF assms(3)] Cons.IH [of n2]
    by (metis list.pred_inject(2))
qed (simp add: proc_simps)

lemma persist_holds:
  assumes L: "leveldb_ok L" and J: "json_ok J" and C: "evp_ok C" and wf: "wf_block b"
    and holds: "holds_blocks L J bm h n" and run: "persist C J L b n = (Inr (), n')"
  shows "holds_blocks L J (bm(blk_index b \<mapsto> b)) (Some (getHeight (nd_chain n))) n'"
proof -
  from run obtain n1 n2 where n1: "on_storage (saveBlock L J b) n = (Inr (), n1)"
    and n2: "on_storage (saveChainHeight L (getHeight (nd_chain n1))) n1 = (Inr (), n2)"
    and n3: "for_p (blk_transactions b) (\<lambda>tx. then_p (save_account L J (deriveAddress C (tx_senderPublicKey tx)))
       (save_account L J (tx_recipient tx))) n2 = (Inr (), n')"
    by (auto simp: persist_def then_p_def elim!: bind_p_InrE)
  obtain s s1 where s: "nd_storage n = Some s" "saveBlock L J b s = (Inr (), s1)" "n1 = n\<lparr>nd_storage := Some s1\<rparr>"
    using n1 by (rule on_storage_Inr)
  obtain sp where sp: "store_rep L J s sp" "ss_block sp = bm" using holds s(1) by (auto simp: holds_blocks_def)
  have r1: "store_rep L J s1 (spec_block b sp)" using saveBlock_rep [OF L J sp(1) wf s(2)] by simp
  obtain s2 where s2: "saveChainHeight L (getHeight (nd_chain n1)) s1 = (Inr (), s2)" "n2 = n1\<lparr>nd_storage := Some s2\<rparr>"
    using on_storage_Inr [OF n2] s(3) by (metis node.select_convs(7) node.surjective node.update_convs(7) option.inject)
  have "store_rep L J s2 (spec_height (getHeight (nd_chain n1)) (spec_block b sp))"
    using saveChainHeight_rep [OF L r1 s2(1)] by simp
  then have "holds_blocks L J (bm(blk_index b \<mapsto> b)) (Some (getHeight (nd_chain n))) n2"
    using sp(2) s(3) s2(2) by (auto simp: holds_blocks_def spec_height_def spec_block_def)
  then show ?thesis
    using save_accounts_holds [OF L J C _ _ n3] wf by (simp add: wf_block_def)
qed

lemma chain_stored_holds:
  "chain_stored L J n \<longleftrightarrow>
     (\<exists>bm h. holds_blocks L J bm h n \<and>
        (\<forall>i. 0 < i \<and> i < length (bc_chain (nd_chain n)) \<longrightarrow> bm (word_of_nat i) = Some (bc_chain (nd_chain n) ! i)) \<and>
        (case h of None \<Rightarrow> length (bc_chain (nd_chain n)) = 1 | Some h \<Rightarrow> h = getHeight (nd_chain n)))"
  unfolding chain_stored_def holds_blocks_def by auto

lemma acceptBlock_stores:
  assumes L: "leveldb_ok L" and J: "json_ok J" and C: "evp_ok C" and wf: "wf_block b"
    and stored: "chain_stored L J n" and run: "acceptBlock C J L b n = (Inr True, n')"
    and room: "length (bc_chain (nd_chain n)) < 2 ^ 64"
  shows "chain_stored L J n'"
proof -
  have acc: "accepts C J (nd_chain n) b"
    using run by (cases "accepts C J (nd_chain n) b") (simp_all add: acceptBlock_rejects)
  let ?n = "settle C J b n"
  obtain bm h where bm: "holds_blocks L J bm h n"
    "\<forall>i. 0 < i \<and> i < length (bc_chain (nd_chain n)) \<longrightarrow> bm (word_of_nat i) = Some (bc_chain (nd_chain n) ! i)"
    using stored by (auto simp: chain_stored_holds)
  obtain r m where m: "persisted C J L b ?n = (r, m)" by (cases "persisted C J L b ?n")
  then have r: "r = Inr ()" "n' = m" using run acceptBlock_run [OF acc m] by (auto split: sum.splits)
  have "persist C J L b ?n = (Inr (), n')"
    using bm(1) m r by (auto simp: persisted_def holds_blocks_def)
  moreover have "holds_blocks L J bm h ?n" using bm(1) by (simp add: holds_blocks_def)
  ultimately have new: "holds_blocks L J (bm(blk_index b \<mapsto> b)) (Some (getHeight (nd_chain ?n))) n'"
    using persist_holds [OF L J C wf] by blast
  obtain s where "n' = ?n\<lparr>nd_storage := s\<rparr>"
    using persisted_frame [of C J L b ?n] m r by auto
  then have chain: "nd_chain n' = nd_chain ?n" by simp
  have idx: "blk_index b = word_of_nat (length (bc_chain (nd_chain n)))"
    using acc by (simp add: accepts_def getHeight_def)
  have "(bm(blk_index b \<mapsto> b)) (word_of_nat i) = Some (bc_chain (nd_chain n') ! i)"
    if i: "0 < i" "i < length (bc_chain (nd_chain n'))" for i
  proof (cases "i = length (bc_chain (nd_chain n))")
    case True
    then show ?thesis using acc idx chain by (simp add: settle_chain)
  next
    case False
    then have less: "i < length (bc_chain (nd_chain n))" using i acc chain by (simp add: settle_chain)
    have "(word_of_nat i :: u64) \<noteq> word_of_nat (length (bc_chain (nd_chain n)))"
    proof
      assume "(word_of_nat i :: u64) = word_of_nat (length (bc_chain (nd_chain n)))"
      then have "unat (word_of_nat i :: u64) = unat (word_of_nat (length (bc_chain (nd_chain n))) :: u64)" by simp
      then show False using less room by (simp add: unat_of_nat)
    qed
    then show ?thesis using bm(2) i(1) less idx acc chain by (simp add: settle_chain nth_append)
  qed
  then show ?thesis
    unfolding chain_stored_holds using new chain by (intro exI conjI) auto
qed

text \<open>The allocations and the schedule of a node are those it was created with.\<close>

definition configured :: "address list \<Rightarrow> (address \<times> u64) list \<Rightarrow> ('d, 'j) node \<Rightarrow> bool" where
  "configured auths allocs n \<longleftrightarrow>
     map_option poa_authorities (bc_consensus (nd_chain n)) = Some auths \<and> nd_genesisAllocations n = allocs"

lemma recover_configured: "keeps (configured auths allocs) (recoverFromStorage C J L)"
  by (rule keeps_recover) (simp_all add: configured_def addBlock_authorities)

lemma assemble_configured:
  fixes n :: "('d, 'j) node"
  assumes "assembleNode C J L keys gkeys auths allocs dataDir files = Inr n"
  shows "configured auths allocs n"
proof -
  obtain p c where pc: "newPoAConsensus auths = Inr p" "newBlockchainPoA C J gkeys p = Inr c"
    by (rule assemble_parts [OF assms])
  have blank: "configured auths allocs ((blank_node C keys c allocs)\<lparr>nd_storage := s\<rparr> :: ('d, 'j) node)" for s
    using newBlockchainPoA_chain [OF pc(2)] newPoAConsensus_ok [OF pc(1)]
    by (auto simp: configured_def blank_node_def)
  show ?thesis
  proof (cases "dataDir = ''''")
    case True
    with assms have "n = (blank_node C keys c allocs)\<lparr>nd_storage := None\<rparr>"
      by (auto simp: assemble_run [OF pc] blank_node_def)
    then show ?thesis using blank by simp
  next
    case False
    obtain s where "(case recoverFromStorage C J L ((blank_node C keys c allocs)\<lparr>nd_storage := Some s\<rparr>) of
         (Inl e, n') \<Rightarrow> Inl e | (Inr u, n') \<Rightarrow> Inr n') = Inr n"
      using assms [unfolded assemble_run [OF pc] if_not_P [OF False]] by (rule bind_e_InrE) (rule that)
    then show ?thesis
      using keepsD [OF recover_configured blank, of C J L "Some s"]
      by (auto split: prod.splits sum.splits unit.splits)
  qed
qed

lemma recovery:
  fixes n :: "('d, 'j) node"
  assumes C: "crypto_ok C" and J: "json_ok J" and L: "leveldb_ok L"
    and inv: "chain_inv C J n" and stored: "chain_stored L J n" and room: "length (bc_chain (nd_chain n)) < 2 ^ 64"
    and s: "nd_storage n = Some s" and st: "newStorage L dataDir (sto_files s) = Inr st"
    and auths: "map_option poa_authorities (bc_consensus (nd_chain n)) = Some auths"
    and c: "newPoAConsensus auths = Inr p" "newBlockchainPoA C J gkeys p = Inr c"
    and genesis: "bc_chain c = [hd (bc_chain (nd_chain n))]" and dir: "dataDir \<noteq> ''''"
    and gkeys: "key_pair_ok C gkeys"
  shows "\<exists>n'. assembleNode C J L keys gkeys auths (nd_genesisAllocations n) dataDir (sto_files s) = Inr n' \<and>
    bc_chain (nd_chain n') = bc_chain (nd_chain n) \<and> st_accounts (nd_state n') = st_accounts (nd_state n) \<and>
    chain_stored L J n'"
proof -
  let ?chain = "bc_chain (nd_chain n)" let ?m = "(blank_node C keys c (nd_genesisAllocations n))\<lparr>nd_storage := Some st\<rparr> :: ('d, 'j) node"
  have valid: "valid_blocks C J ?chain" and sched: "chain_scheduled (nd_chain n)"
    using inv by (simp_all add: chain_inv_def)
  have ne: "?chain \<noteq> []" by (rule valid_blocks_nonempty [OF valid])
  then have split: "bc_chain c @ tl ?chain = ?chain" using genesis by simp
  obtain sp where sp: "store_rep L J s sp" "blocks_in sp ?chain"
      "case ss_height sp of None \<Rightarrow> length ?chain = 1 | Some h \<Rightarrow> h = getHeight (nd_chain n)"
    using stored s by (auto simp: chain_stored_def blocks_in_def)
  have rep: "store_rep L J st sp"
    using sp(1) by (intro newStorage_rep [OF L _ st]) (simp add: store_rep_def)
  define h where "h = (case ss_height sp of None \<Rightarrow> 0 | Some h \<Rightarrow> h)"
  have load: "on_storage (eval_p (loadChainHeight L)) ?m = (Inr h, ?m)"
    using loadChainHeight_rep [OF rep] by (simp add: on_storage_def proc_simps h_def)
  have run: "recoverFromStorage C J L ?m = (if h \<le> 1 then ret () else replay_stored C J L [1..<unat h]) ?m"
    unfolding recoverFromStorage_def
    by (subst bind_p_Inr [where m = "on_storage (eval_p (loadChainHeight L))" and s = ?m, OF load]) simp
  have mchain: "bc_chain (nd_chain ?m) @ tl ?chain = ?chain" "length (bc_chain (nd_chain ?m)) = 1"
    using split genesis by (simp_all add: blank_node_def)
  have cons: "bc_consensus c = Some p" using newBlockchainPoA_chain [OF c(2)] by auto
  have "\<exists>n'. recoverFromStorage C J L ?m = (Inr (), n') \<and> bc_chain (nd_chain n') = ?chain \<and> nd_storage n' = Some st"
  proof (cases "length ?chain = 1")
    case True
    then have "h \<le> 1" using sp(3) by (auto simp: h_def getHeight_def split: option.splits)
    moreover have "bc_chain c = ?chain" using True split genesis by (cases ?chain) auto
    ultimately show ?thesis
      unfolding run by (simp add: proc_simps blank_node_def)
  next
    case False
    then have h: "h = word_of_nat (length ?chain)" using sp(3) by (auto simp: h_def getHeight_def split: option.splits)
    then have uh: "unat h = length ?chain" using room by (simp add: unat_of_nat)
    have big: "\<not> h \<le> 1" using uh False ne by (cases ?chain) (auto simp: word_le_nat_alt)
    have "\<exists>n'. replay_stored C J L [length (bc_chain (nd_chain ?m))..<length (bc_chain (nd_chain ?m) @ tl ?chain)] ?m = (Inr (), n') \<and>
      bc_chain (nd_chain n') = bc_chain (nd_chain ?m) @ tl ?chain \<and> nd_storage n' = Some st"
    proof (rule recover_follows [OF J rep])
      fix q assume "bc_consensus (nd_chain ?m) = Some q"
      then have "poa_authorities q = auths"
        using cons newPoAConsensus_ok [OF c(1)] by (simp add: blank_node_def)
      then obtain q' where "bc_consensus (nd_chain n) = Some q'" "poa_authorities q' = poa_authorities q"
        using auths by (auto simp: map_option_case split: option.splits)
      then show "scheduled q (bc_chain (nd_chain ?m) @ tl ?chain)"
        using sched scheduled_cong [of q' q] split by (simp add: chain_scheduled_def blank_node_def)
    qed (use valid sp(2) split genesis in \<open>simp_all add: blank_node_def\<close>)
    then show ?thesis
      unfolding run if_not_P [OF big] uh mchain .
  qed
  then obtain n' where n': "recoverFromStorage C J L ?m = (Inr (), n')" "bc_chain (nd_chain n') = ?chain"
      "nd_storage n' = Some st"
    by blast
  have same: "getHeight (nd_chain n') = getHeight (nd_chain n)" using n'(2) by (simp add: getHeight_def)
  have "chain_stored L J n'"
    unfolding chain_stored_def n'(2) same using n'(3) rep sp(2,3) unfolding blocks_in_def by (intro exI conjI)
  have new: "assembleNode C J L keys gkeys auths (nd_genesisAllocations n) dataDir (sto_files s) = Inr n'"
    using assemble_run [OF c, of L keys "nd_genesisAllocations n" dataDir "sto_files s"] dir st n'(1) by simp
  have "fresh_inv C J n'" by (rule assemble_inv [OF C gkeys new])
  moreover have "genesis_accounts n' = genesis_accounts n"
    using assemble_configured [OF new] by (simp add: genesis_accounts_def configured_def)
  ultimately have "st_accounts (nd_state n') = st_accounts (nd_state n)"
    using inv n'(2) by (intro same_chain_same_state [of C J]) (simp_all add: fresh_inv_def)
  with new n'(2) \<open>chain_stored L J n'\<close> show ?thesis by blast
qed

section \<open>Nodes on a database that does not fail\<close>

text \<open>Procedures that end normally whenever the node's store is open, and leave it open.\<close>

definition store_open :: "('d, 'j) node \<Rightarrow> bool" where
  "store_open n \<longleftrightarrow> (\<exists>s. nd_storage n = Some s \<and> sto_open s)"

definition completes :: "(('d, 'j) node, unit) proc \<Rightarrow> bool" where
  "completes m \<longleftrightarrow> (\<forall>n. store_open n \<longrightarrow> (\<exists>n'. m n = (Inr (), n') \<and> store_open n'))"

lemma completes_ret: "completes (ret ())"
  by (simp add: completes_def proc_simps)

lemma completes_then: "completes m \<Longrightarrow> completes k \<Longrightarrow> completes (then_p m k)"
  unfolding completes_def then_p_def by (metis bind_p_Inr)

lemma completes_for: "(\<And>x. completes (body x)) \<Longrightarrow> completes (for_p xs body)"
  by (induction xs) (simp_all add: completes_ret completes_then)

lemma completes_here: "(\<And>k. completes (f k)) \<Longrightarrow> completes (\<lambda>n. f n n)"
  by (simp add: completes_def)

lemma completes_on_storage:
  "(\<And>s. sto_open s \<Longrightarrow> \<exists>s'. m s = (Inr (), s') \<and> sto_open s') \<Longrightarrow> completes (on_storage m)"
  by (fastforce simp: completes_def store_open_def on_storage_def)

lemma completes_persist:
  fixes L :: "'d leveldb_api" and J :: "'j json_api"
  assumes "leveldb_reliable L" and "json_ok J"
  shows "completes (persist C J L b)"
proof -
  note total = save_total [OF assms]
  have put: "completes (on_storage (saveAccountState L J a acct) :: (('d, 'j) node, unit) proc)" for a acct
    by (rule completes_on_storage) (rule total(2))
  have "completes (save_account L J a :: (('d, 'j) node, unit) proc)" for a
    unfolding completes_def
  proof (intro allI impI)
    fix n :: "('d, 'j) node" assume "store_open n"
    then show "\<exists>n'. save_account L J a n = (Inr (), n') \<and> store_open n'"
      using put [unfolded completes_def, rule_format, of n]
      by (cases "accountExists (nd_state n) a") (simp_all add: save_account_def proc_simps)
  qed
  moreover have "completes (on_storage (saveBlock L J b) :: (('d, 'j) node, unit) proc)"
    by (rule completes_on_storage) (rule total(1))
  moreover have "completes ((\<lambda>n. on_storage (saveChainHeight L (getHeight (nd_chain n))) n) :: (('d, 'j) node, unit) proc)"
    by (rule completes_here, rule completes_on_storage) (rule total(3))
  ultimately show ?thesis
    unfolding persist_def by (intro completes_then completes_for)
qed

text \<open>The node keeps its whole chain in the database.\<close>

definition recoverable :: "crypto_api \<Rightarrow> 'j json_api \<Rightarrow> 'd leveldb_api \<Rightarrow> ('d, 'j) node \<Rightarrow> bool" where
  "recoverable C J L n \<longleftrightarrow> consistent C J n \<and> json_ok J \<and> leveldb_reliable L \<and>
     (length (bc_chain (nd_chain n)) < 2 ^ 64 \<longrightarrow> chain_stored L J n)"

lemma chain_stored_open: "chain_stored L J n \<Longrightarrow> store_open n"
  by (auto simp: chain_stored_def store_open_def store_rep_def)

lemma acceptBlock_completes:
  assumes "leveldb_reliable L" and "json_ok J" and "store_open n" and "accepts C J (nd_chain n) b"
  shows "\<exists>n'. acceptBlock C J L b n = (Inr True, n')"
proof -
  obtain s where s: "nd_storage n = Some s" using assms(3) by (auto simp: store_open_def)
  have "store_open (settle C J b n)" using assms(3) by (simp add: store_open_def)
  then obtain n' where "persist C J L b (settle C J b n) = (Inr (), n')"
    using completes_persist [OF assms(1,2), of C b] unfolding completes_def by blast
  then have "persisted C J L b (settle C J b n) = (Inr (), n')" using s by (simp add: persisted_def)
  from acceptBlock_run [OF assms(4) this] show ?thesis by simp
qed

lemma chain_stored_cong:
  assumes "nd_storage m = nd_storage n" and "bc_chain (nd_chain m) = bc_chain (nd_chain n)"
  shows "chain_stored L J m = chain_stored L J n"
proof -
  have "getHeight (nd_chain m) = getHeight (nd_chain n)" using assms(2) by (simp add: getHeight_def)
  then show ?thesis by (simp only: chain_stored_def assms)
qed

lemma acceptBlock_recoverable:
  assumes n: "recoverable C J L n" and b: "wf_block b"
  shows "recoverable C J L (snd (acceptBlock C J L b n))"
proof -
  let ?m = "snd (acceptBlock C J L b n)"
  have C: "consistent C J n" and J: "json_ok J" and L: "leveldb_reliable L"
    and stored: "length (bc_chain (nd_chain n)) < 2 ^ 64 \<longrightarrow> chain_stored L J n"
    using n by (simp_all add: recoverable_def)
  have "chain_stored L J ?m" if room: "length (bc_chain (nd_chain ?m)) < 2 ^ 64"
  proof (cases "accepts C J (nd_chain n) b")
    case True
    have "length (bc_chain (nd_chain ?m)) = Suc (length (bc_chain (nd_chain n)))"
      using True by (cases rule: acceptBlock_cases [of C J n b L]) (simp_all add: settle_chain)
    with room stored have less: "length (bc_chain (nd_chain n)) < 2 ^ 64" and old: "chain_stored L J n" by simp_all
    obtain n' where n': "acceptBlock C J L b n = (Inr True, n')"
      using acceptBlock_completes [OF L J chain_stored_open [OF old] True] by blast
    have "leveldb_ok L" using L by (simp add: leveldb_reliable_def)
    from acceptBlock_stores [OF this J crypto_okD(1) [OF consistentD(1) [OF C]] b old n' less]
    show ?thesis using n' by simp
  next
    case False
    let ?c = "snd (addBlock C J (nd_chain n) b)"
    have m: "?m = n\<lparr>nd_chain := ?c\<rparr>" using acceptBlock_rejects [OF False, of L] by simp
    have same: "bc_chain ?c = bc_chain (nd_chain n)" using False by (simp add: addBlock_chain)
    have "chain_stored L J (n\<lparr>nd_chain := ?c\<rparr>) = chain_stored L J n"
      by (rule chain_stored_cong) (simp_all add: same)
    then show ?thesis using stored room same unfolding m by simp
  qed
  then show ?thesis
    using C J L keepsD [OF consistency.accept [OF b] C, of L] by (simp add: recoverable_def)
qed

lemma keeps_recoverable:
  assumes "keeps (consistent C J) m"
    and "\<And>n. nd_storage (snd (m n)) = nd_storage n \<and> bc_chain (nd_chain (snd (m n))) = bc_chain (nd_chain n)"
  shows "keeps (recoverable C J L) m"
  using assms chain_stored_cong unfolding keeps_def recoverable_def by metis

interpretation recoverability: node_invariant C J L "recoverable C J L :: ('d, 'j) node \<Rightarrow> bool"
  for C :: crypto_api and J :: "'j json_api" and L :: "'d leveldb_api"
proof unfold_locales
  show "keeps (recoverable C J L :: ('d, 'j) node \<Rightarrow> bool) (on_network m)" for m :: "('j network, unit) proc"
    by (intro keeps_recoverable consistency.network) (simp add: on_network_def on_part_def split: prod.split)
  show "keeps (recoverable C J L :: ('d, 'j) node \<Rightarrow> bool) (pool_add C J tx)"
    if "wf_transaction tx" "tx_nonce tx \<noteq> - 1" for tx
    using that by (intro keeps_recoverable consistency.pool) (simp_all add: pool_add_def split: prod.split)
  show "recoverable C J L (n\<lparr>nd_lastError := e\<rparr>)" if "recoverable C J L n" for n :: "('d, 'j) node" and e
    using that consistency.error [of C J n e] chain_stored_cong [of "n\<lparr>nd_lastError := e\<rparr>" n L J]
    by (simp add: recoverable_def)
  show "keeps (recoverable C J L :: ('d, 'j) node \<Rightarrow> bool) (acceptBlock C J L b)" if "wf_block b" for b
    using that acceptBlock_recoverable unfolding keeps_def by blast
qed (auto intro: consistency.produced simp: recoverable_def)

section \<open>Producing and receiving the next block\<close>

lemma accepts_cong:
  assumes "same_schedule c d" and "bc_chain c = bc_chain d"
  shows "accepts C J c b = accepts C J d b"
proof (cases "bc_consensus c")
  case None
  then show ?thesis using assms by (simp add: accepts_def same_schedule_def getHeight_def getLatestBlock_def)
next
  case (Some p)
  then obtain q where q: "bc_consensus d = Some q" "poa_authorities q = poa_authorities p"
    using assms(1) by (auto simp: same_schedule_def map_option_case split: option.splits)
  then show ?thesis
    using Some assms(2) getProducer_cong [OF q(2), of "blk_index b"]
    by (simp add: accepts_def getHeight_def getLatestBlock_def)
qed

text \<open>A block's effect on chain and accounts, whatever happens to network and storage.\<close>

definition took :: "crypto_api \<Rightarrow> 'j json_api \<Rightarrow> block \<Rightarrow> ('d, 'j) node \<Rightarrow> ('d, 'j) node \<Rightarrow> bool" where
  "took C J b n n' \<longleftrightarrow>
     nd_chain n' = nd_chain (settle C J b n) \<and> nd_state n' = nd_state (settle C J b n) \<and>
     nd_mempool n' = nd_mempool (settle C J b n)"

lemma took_chain: "took C J b n n' \<Longrightarrow> accepts C J (nd_chain n) b \<Longrightarrow> bc_chain (nd_chain n') = bc_chain (nd_chain n) @ [b]"
  by (simp add: took_def settle_chain)

lemma took_accounts: "took C J b n n' \<Longrightarrow> st_accounts (nd_state n') = settle_txs (st_accounts (nd_state n)) b"
  by (simp add: took_def settle_def applyBlock_settle)

lemma on_network_parts:
  "nd_chain (snd (on_network m n)) = nd_chain n" "nd_state (snd (on_network m n)) = nd_state n"
  "nd_mempool (snd (on_network m n)) = nd_mempool n"
  by (simp_all add: on_network_def on_part_def split: prod.split)

lemma onNewBlock_next:
  assumes acc: "accepts C J (nd_chain n) b" and J: "json_ok J" and wf: "wf_block b"
  shows "took C J b n (snd (onNewBlock C J L (blockToJson J b) p n))"
proof -
  have dec: "blockFromJson J (blockToJson J b) = Inr b" by (rule blockFromJson_toJson [OF J wf])
  have idx: "blk_index b = getHeight (nd_chain n)" using acc by (simp add: accepts_def)
  show ?thesis
    using dec idx
    by (cases rule: acceptBlock_cases [of C J n b L])
      (simp_all add: acc onNewBlock_def bind_p_cases proc_simps took_def on_network_parts)
qed

lemma handleNewBlock_next:
  assumes "accepts C J (nd_chain n) b" and "json_ok J" and "wf_block b"
  shows "took C J b n (snd (handleMessage C J L \<lparr>msg_type = NEW_BLOCK, msg_payload = blockToJson J b\<rparr> p n))"
  using onNewBlock_next [OF assms] by (simp add: handleMessage_def)

lemma produceBlock_made:
  fixes n :: "('d, 'j) node"
  assumes n: "consistent C J n" and p: "bc_consensus (nd_chain n) = Some p"
    and turn: "getProducer p (getHeight (nd_chain n)) = nd_addr n"
  obtains b where "createBlock C J now (nd_keys n) (getLatestBlock (nd_chain n))
      (getTransactionsForBlock (nd_mempool n) 100) = Inr b"
    and "accepts C J (nd_chain n) b" and "wf_block b" and "took C J b n (snd (produceBlock C J L now n))"
proof -
  obtain b where b: "createBlock C J now (nd_keys n) (getLatestBlock (nd_chain n))
        (getTransactionsForBlock (nd_mempool n) 100) = Inr b"
      "accepts C J (nd_chain n) b" "wf_block b"
      "produceBlock C J L now n =
        bind_p (acceptBlock C J L b) (\<lambda>added.
         if \<not> added then ret False
         else then_p (on_network (broadcast J \<lparr>msg_type = NEW_BLOCK, msg_payload = blockToJson J b\<rparr> None))
            (ret True)) n"
    by (rule produceBlock_succeeds [OF consistentD(1,2,4) [OF n] p turn])
  have net: "snd (then_p (on_network m) (ret True) k) = snd (on_network m k)"
    for m :: "('j network, unit) proc" and k :: "('d, 'j) node"
    by (simp add: proc_simps bind_p_cases split: prod.split sum.split)
  have "took C J b n (snd (produceBlock C J L now n))"
    by (cases rule: acceptBlock_cases [of C J n b L])
      (simp_all add: b(2,4) bind_p_cases took_def on_network_parts net)
  with b(1-3) show ?thesis by (rule that)
qed

lemma produceBlock_took:
  assumes n: "consistent C J n" and p: "bc_consensus (nd_chain n) = Some p"
    and turn: "getProducer p (getHeight (nd_chain n)) = nd_addr n"
  obtains b where "accepts C J (nd_chain n) b" and "wf_block b"
    and "blk_transactions b = getTransactionsForBlock (nd_mempool n) 100"
    and "took C J b n (snd (produceBlock C J L now n))"
  using produceBlock_made [OF assms, of now L] createBlock_Inr(4) by metis

section \<open>Following another chain\<close>

text \<open>
  A node that runs in memory or on a database that does not fail, and whose chain is a prefix
  of a valid chain under its schedule, takes the missing blocks one after the other.
\<close>

definition store_ready :: "'d leveldb_api \<Rightarrow> ('d, 'j) node \<Rightarrow> bool" where
  "store_ready L n \<longleftrightarrow> nd_storage n = None \<or> (leveldb_reliable L \<and> store_open n)"

lemma acceptBlock_ready:
  assumes "store_ready L n" and "json_ok J" and acc: "accepts C J (nd_chain n) b"
  obtains s where "acceptBlock C J L b n = (Inr True, (settle C J b n)\<lparr>nd_storage := s\<rparr>)"
    and "store_ready L ((settle C J b n)\<lparr>nd_storage := s\<rparr>)"
proof (cases "nd_storage n")
  case None
  then show ?thesis
    using that [of None] acceptBlock_run [OF acc, of L "Inr ()" "settle C J b n"]
    by (simp add: persisted_def store_ready_def settle_def)
next
  case (Some s)
  then have L: "leveldb_reliable L" and opened: "store_open (settle C J b n)"
    using assms(1) by (simp_all add: store_ready_def store_open_def)
  obtain n' where n': "persist C J L b (settle C J b n) = (Inr (), n')" "store_open n'"
    using completes_persist [OF L assms(2), of C b] opened unfolding completes_def by blast
  then have p: "persisted C J L b (settle C J b n) = (Inr (), n')" using Some by (simp add: persisted_def)
  obtain t where t: "n' = (settle C J b n)\<lparr>nd_storage := t\<rparr>"
    using persisted_frame [of C J L b "settle C J b n"] p by auto
  show ?thesis
    using that [of t] acceptBlock_run [OF acc p] L n'(2) unfolding t by (simp add: store_ready_def)
qed

lemma sync_follows:
  assumes J: "json_ok J"
  shows "bc_chain (nd_chain n) \<noteq> [] \<Longrightarrow> store_ready L n \<Longrightarrow>
    valid_blocks C J (bc_chain (nd_chain n) @ rest) \<Longrightarrow>
    (\<And>p. bc_consensus (nd_chain n) = Some p \<Longrightarrow> scheduled p (bc_chain (nd_chain n) @ rest)) \<Longrightarrow>
    list_all wf_block rest \<Longrightarrow>
    \<exists>n'. sync_blocks C J L (map (blockToJson J) rest) n = (Inr (), n') \<and>
      bc_chain (nd_chain n') = bc_chain (nd_chain n) @ rest"
proof (induction rest arbitrary: n)
  case Nil
  then show ?case by (simp add: proc_simps)
next
  case (Cons b rest)
  have acc: "accepts C J (nd_chain n) b"
    using Cons.prems by (intro next_block_accepts) auto
  then have idx: "blk_index b = getHeight (nd_chain n)" by (simp add: accepts_def)
  have dec: "blockFromJson J (blockToJson J b) = Inr b"
    using Cons.prems by (intro blockFromJson_toJson [OF J]) simp
  obtain s where run: "acceptBlock C J L b n = (Inr True, (settle C J b n)\<lparr>nd_storage := s\<rparr>)"
      and ready: "store_ready L ((settle C J b n)\<lparr>nd_storage := s\<rparr>)"
    by (rule acceptBlock_ready [OF Cons.prems(2) J acc])
  let ?n = "(settle C J b n)\<lparr>nd_storage := s\<rparr>"
  have "\<exists>n'. sync_blocks C J L (map (blockToJson J) rest) ?n = (Inr (), n') \<and>
      bc_chain (nd_chain n') = bc_chain (nd_chain ?n) @ rest"
  proof (rule Cons.IH [OF _ ready])
    fix p assume "bc_consensus (nd_chain ?n) = Some p"
    then obtain q where "bc_consensus (nd_chain n) = Some q" "poa_authorities q = poa_authorities p"
      using settle_schedule [of C J b n] by (auto simp: map_option_case split: option.splits)
    then show "scheduled p (bc_chain (nd_chain ?n) @ rest)"
      using Cons.prems(4) scheduled_cong [of q p] by (simp add: settle_chain [OF acc])
  qed (use Cons.prems in \<open>simp_all add: settle_chain [OF acc]\<close>)
  then show ?case
    using idx dec run by (simp add: bind_p_cases proc_simps settle_chain [OF acc])
qed

lemma getBlocks_range:
  assumes "bc_chain c = xs @ rest" and "length (bc_chain c) < 2 ^ 64"
  shows "map_e (\<lambda>i. bind_e (getBlock c (word_of_nat i)) (\<lambda>b. Inr (f b))) [length xs..<length (bc_chain c)] =
    Inr (map f rest)"
proof -
  have "map_e (\<lambda>i. bind_e (getBlock c (word_of_nat i)) (\<lambda>b. Inr (f b))) [length xs..<length (bc_chain c)] =
      Inr (map (\<lambda>i. f (bc_chain c ! i)) [length xs..<length (bc_chain c)])"
    using assms(2) by (intro map_e_all_Inr) (auto simp: getBlock_def unat_of_nat)
  moreover have "map (\<lambda>i. f (bc_chain c ! i)) [length xs..<length (bc_chain c)] = map f rest"
    using assms(1) by (intro nth_equalityI) (simp_all add: nth_append)
  ultimately show ?thesis by simp
qed

lemma blocksMessage_plain: "json_plain J (msg_payload (blocksMessage J (map (blockToJson J) bs)))"
proof -
  have "json_plain J (j_array J (map (blockToJson J) bs))"
    by (rule plain_array) (auto intro: blockToJson_plain)
  then show ?thesis unfolding blocksMessage_def by (auto intro: plain_object)
qed

lemma answers_sends:
  assumes J: "json_ok J" and chain: "bc_chain (nd_chain a) = xs @ rest" and room: "length (bc_chain (nd_chain a)) < 2 ^ 64"
    and from_height: "h = word_of_nat (length xs)"
  shows "handleMessage C J L (getBlocksMessage J h) peer a =
    on_network (send_to J peer (blocksMessage J (map (blockToJson J) rest))) a"
proof -
  have "at_uint J (msg_payload (getBlocksMessage J h)) ''from'' = Inr h"
    by (simp add: getBlocksMessage_def at_uint_object [OF J])
  moreover have "unat (getHeight (nd_chain a)) = length (bc_chain (nd_chain a))"
    using room by (simp add: getHeight_def unat_of_nat)
  moreover have "unat h = length xs" using room chain by (simp add: from_height unat_of_nat)
  moreover have "(getHeight (nd_chain a) \<le> h) = (rest = [])"
    using calculation(2,3) chain by (simp add: word_le_nat_alt)
  ultimately show ?thesis
    using getBlocks_range [OF chain room, of "blockToJson J"] chain
    by (cases "rest = []")
      (simp_all add: handleMessage_def getBlocksMessage_def onGetBlocks_def bind_p_cases proc_simps Let_def)
qed

lemma answers_rest:
  assumes "json_ok J" and "bc_chain (nd_chain a) = xs @ rest" and "length (bc_chain (nd_chain a)) < 2 ^ 64"
    and "serializeMessage J (blocksMessage J (map (blockToJson J) rest)) = Inr frame"
    and "h = word_of_nat (length xs)"
  shows "handleMessage C J L (getBlocksMessage J h) peer a =
    (Inr (), a\<lparr>nd_network := (nd_network a)\<lparr>net_posted := net_posted (nd_network a) @
       [(peer, blocksMessage J (map (blockToJson J) rest))]\<rparr>\<rparr>)"
  using answers_sends [OF assms(1-3,5)] by (simp add: on_network_def on_part_def send_to_run [OF assms(4)])

lemma takes_rest:
  assumes J: "json_ok J" and b: "consistent C J b" and a: "consistent C J a" and ready: "store_ready L b"
    and chain: "bc_chain (nd_chain a) = bc_chain (nd_chain b) @ rest"
    and sched: "same_schedule (nd_chain b) (nd_chain a)"
  shows "\<exists>b'. handleMessage C J L (blocksMessage J (map (blockToJson J) rest)) sender b = (Inr (), b') \<and>
    bc_chain (nd_chain b') = bc_chain (nd_chain a)"
proof -
  have "\<exists>b'. sync_blocks C J L (map (blockToJson J) rest) b = (Inr (), b') \<and>
      bc_chain (nd_chain b') = bc_chain (nd_chain b) @ rest"
  proof (rule sync_follows [OF J consistentD(6) [OF b] ready])
    show "valid_blocks C J (bc_chain (nd_chain b) @ rest)" using consistentD(5) [OF a] chain by simp
    show "list_all wf_block rest" using consistentD(4) [OF a] chain by (simp add: wf_node_def)
    fix p assume "bc_consensus (nd_chain b) = Some p"
    then obtain q where "bc_consensus (nd_chain a) = Some q" "poa_authorities q = poa_authorities p"
      using sched by (auto simp: same_schedule_def map_option_case split: option.splits)
    then show "scheduled p (bc_chain (nd_chain b) @ rest)"
      using consistentD(7) [OF a] scheduled_cong [of q p] chain by (simp add: chain_scheduled_def)
  qed
  moreover have "j_at J (msg_payload (blocksMessage J (map (blockToJson J) rest))) ''blocks'' =
      Inr (j_array J (map (blockToJson J) rest))"
    by (simp add: blocksMessage_def json_at [OF J])
  ultimately show ?thesis
    using chain by (simp add: handleMessage_def blocksMessage_def onBlocks_def bind_p_cases proc_simps json_leaf [OF J])
qed

section \<open>What no operation changes\<close>

text \<open>The genesis block, the schedule and the allocations.\<close>

definition rooted ::
  "crypto_api \<Rightarrow> 'j json_api \<Rightarrow> block \<Rightarrow> address list \<Rightarrow> (address \<times> u64) list \<Rightarrow> ('d, 'j) node \<Rightarrow> bool" where
  "rooted C J g auths allocs n \<longleftrightarrow>
     consistent C J n \<and> hd (bc_chain (nd_chain n)) = g \<and> configured auths allocs n"

lemma acceptBlock_rooted:
  assumes n: "rooted C J g auths allocs n" and b: "wf_block b"
  shows "rooted C J g auths allocs (snd (acceptBlock C J L b n))"
proof -
  have C: "consistent C J n" using n by (simp add: rooted_def)
  note new = keepsD [OF consistency.accept [OF b] C, of L]
  show ?thesis
    using n new consistentD(6) [OF C]
    by (cases rule: acceptBlock_cases [of C J n b L])
      (simp_all add: rooted_def configured_def settle_chain settle_schedule addBlock_chain addBlock_authorities)
qed

lemma keeps_rooted:
  assumes "keeps (consistent C J) m"
    and "\<And>n. nd_chain (snd (m n)) = nd_chain n \<and> nd_genesisAllocations (snd (m n)) = nd_genesisAllocations n"
  shows "keeps (rooted C J g auths allocs) m"
  using assms unfolding keeps_def rooted_def configured_def by metis

interpretation rootedness: node_invariant C J L "rooted C J g auths allocs :: ('d, 'j) node \<Rightarrow> bool"
  for C :: crypto_api and J :: "'j json_api" and L :: "'d leveldb_api" and g auths allocs
proof unfold_locales
  show "keeps (rooted C J g auths allocs :: ('d, 'j) node \<Rightarrow> bool) (on_network m)" for m :: "('j network, unit) proc"
    by (intro keeps_rooted consistency.network) (simp add: on_network_def on_part_def split: prod.split)
  show "keeps (rooted C J g auths allocs :: ('d, 'j) node \<Rightarrow> bool) (pool_add C J tx)"
    if "wf_transaction tx" "tx_nonce tx \<noteq> - 1" for tx
    using that by (intro keeps_rooted consistency.pool) (simp_all add: pool_add_def split: prod.split)
  show "keeps (rooted C J g auths allocs :: ('d, 'j) node \<Rightarrow> bool) (acceptBlock C J L b)" if "wf_block b" for b
    using that acceptBlock_rooted unfolding keeps_def by blast
qed (auto intro: consistency.produced consistency.error simp: rooted_def configured_def)

lemma node_run_rooted: "node_run C J L n \<Longrightarrow> \<exists>auths. rooted C J (hd (bc_chain (nd_chain n))) auths (nd_genesisAllocations n) n"
proof (induction rule: node_run.induct)
  case (node_new keys gkeys P auths allocs port dataDir files n)
  then show ?case
    using assemble_configured [OF newNode_assembled [OF node_new(4)]] assemble_consistent [OF node_new(1-3) newNode_assembled [OF node_new(4)]] by (auto simp: rooted_def configured_def)
next
  case (node_more n n')
  then obtain auths where "rooted C J (hd (bc_chain (nd_chain n))) auths (nd_genesisAllocations n) n'"
    using rootedness.keeps_step by blast
  then show ?case by (auto simp: rooted_def configured_def)
qed

section \<open>Lives of a node\<close>

lemma recover_empty:
  assumes "store_rep L J s empty_store" and "nd_storage m = Some s"
  shows "recoverFromStorage C J L m = (Inr (), m)"
proof -
  have "on_storage (eval_p (loadChainHeight L)) m = (Inr 0, m)"
    using loadChainHeight_rep [OF assms(1)] assms(2) by (simp add: on_storage_def proc_simps empty_store_def)
  then show ?thesis
    using assms(2) by (simp add: recoverFromStorage_def bind_p_cases ret_def)
qed

lemma assemble_empty_run:
  fixes n :: "('d, 'j) node"
  assumes L: "leveldb_ok L" and empty: "\<forall>k. ldb_get L files k = NotFound" and dir: "dataDir \<noteq> ''''"
    and new: "assembleNode C J L keys gkeys auths allocs dataDir files = Inr n"
    and pc: "newPoAConsensus auths = Inr p" "newBlockchainPoA C J gkeys p = Inr c"
  obtains s where "store_rep L J s empty_store" and "n = (blank_node C keys c allocs)\<lparr>nd_storage := Some s\<rparr>"
proof -
  let ?m = "\<lambda>s. (blank_node C keys c allocs)\<lparr>nd_storage := Some s\<rparr> :: ('d, 'j) node"
  obtain s where s: "newStorage L dataDir files = Inr s"
      "(case recoverFromStorage C J L (?m s) of (Inl e, n') \<Rightarrow> Inl e | (Inr u, n') \<Rightarrow> Inr n') = Inr n"
    using new [unfolded assemble_run [OF pc] if_not_P [OF dir]] by (rule bind_e_InrE)
  have "ldb_get L files = (\<lambda>_. NotFound)" using empty by (simp add: fun_eq_iff)
  then have rep: "store_rep L J s empty_store"
    using newStorage_rep [OF L _ s(1)] get_rep_empty by metis
  then have "recoverFromStorage C J L (?m s) = (Inr (), ?m s)" by (rule recover_empty) simp
  with s(2) rep show ?thesis using that by simp
qed

lemma assemble_empty_chain:
  assumes "leveldb_ok L" and "\<forall>k. ldb_get L files k = NotFound" and "dataDir \<noteq> ''''"
    and "assembleNode C J L keys gkeys auths allocs dataDir files = Inr n"
    and "newPoAConsensus auths = Inr p" and "newBlockchainPoA C J gkeys p = Inr c"
  shows "bc_chain (nd_chain n) = bc_chain c"
  by (rule assemble_empty_run [OF assms]) (simp add: blank_node_def)

lemma assemble_empty:
  fixes n :: "('d, 'j) node"
  assumes L: "leveldb_ok L" and empty: "\<forall>k. ldb_get L files k = NotFound" and dir: "dataDir \<noteq> ''''"
    and new: "assembleNode C J L keys gkeys auths allocs dataDir files = Inr n"
  shows "chain_stored L J n"
proof -
  obtain p c where pc: "newPoAConsensus auths = Inr p" "newBlockchainPoA C J gkeys p = Inr c"
    by (rule assemble_parts [OF new])
  obtain s where s: "store_rep L J s empty_store" "n = (blank_node C keys c allocs)\<lparr>nd_storage := Some s\<rparr>"
    by (rule assemble_empty_run [OF L empty dir new pc])
  obtain g where "bc_chain c = [g]" using newBlockchainPoA_chain [OF pc(2)] by blast
  then show ?thesis
    unfolding s(2) chain_stored_def using s(1)
    by (intro exI [of _ s] exI [of _ empty_store]) (auto simp: empty_store_def blank_node_def)
qed

text \<open>
  A node started on an empty directory with a database that does not fail, operated, and
  stopped and started again any number of times, with the genesis configuration it began with
  (and fewer than 2^64 blocks).
\<close>

inductive node_life ::
  "crypto_api \<Rightarrow> 'j json_api \<Rightarrow> 'd leveldb_api \<Rightarrow> key_pair \<Rightarrow> key_pair \<Rightarrow> address list \<Rightarrow> (address \<times> u64) list \<Rightarrow>
     string \<Rightarrow> ('d, 'j) node \<Rightarrow> bool"
  for C J L keys gkeys auths allocs dataDir where
  life_born: "\<forall>k. ldb_get L files k = NotFound \<Longrightarrow> newNode C J L P keys gkeys auths allocs port dataDir files = Inr n \<Longrightarrow>
     node_life C J L keys gkeys auths allocs dataDir n"
| life_step: "node_life C J L keys gkeys auths allocs dataDir n \<Longrightarrow> node_step C J L n n' \<Longrightarrow>
     node_life C J L keys gkeys auths allocs dataDir n'"
| life_restart: "node_life C J L keys gkeys auths allocs dataDir n \<Longrightarrow> nd_storage n = Some s \<Longrightarrow>
     length (bc_chain (nd_chain n)) < 2 ^ 64 \<Longrightarrow>
     newNode C J L P keys gkeys auths allocs port dataDir (sto_files s) = Inr n' \<Longrightarrow>
     node_life C J L keys gkeys auths allocs dataDir n'"

text \<open>
  Throughout its life the node is consistent, keeps its chain in the database, and has the
  genesis block, the schedule and the allocations it was born with; a restart gives back the
  chain and the accounts.
\<close>

lemma assemble_genesis:
  assumes "assembleNode C J L keys gkeys auths allocs dataDir files = Inr n"
  obtains p c g where "newPoAConsensus auths = Inr p" and "newBlockchainPoA C J gkeys p = Inr c"
    and "createGenesisBlock C J gkeys = Inr g" and "bc_chain c = [g]"
proof -
  obtain p c where pc: "newPoAConsensus auths = Inr p" "newBlockchainPoA C J gkeys p = Inr c"
    by (rule assemble_parts [OF assms])
  then show ?thesis using that newBlockchainPoA_chain [OF pc(2)] by blast
qed

lemma restart:
  fixes n :: "('d, 'j) node"
  assumes C: "crypto_ok C" and gkeys: "key_pair_ok C gkeys" and dir: "dataDir \<noteq> ''''" and ne: "auths \<noteq> []"
    and rec: "recoverable C J L n" and root: "rooted C J g auths allocs n"
    and g: "createGenesisBlock C J gkeys = Inr g"
    and room: "length (bc_chain (nd_chain n)) < 2 ^ 64" and s: "nd_storage n = Some s"
  shows "\<exists>n'. assembleNode C J L keys gkeys auths allocs dataDir (sto_files s) = Inr n' \<and>
    bc_chain (nd_chain n') = bc_chain (nd_chain n) \<and> st_accounts (nd_state n') = st_accounts (nd_state n) \<and>
    chain_stored L J n'"
proof -
  have L: "leveldb_reliable L" and J: "json_ok J" and stored: "chain_stored L J n" and cons: "consistent C J n"
    using rec room by (simp_all add: recoverable_def)
  have allocs: "nd_genesisAllocations n = allocs"
    and sched: "map_option poa_authorities (bc_consensus (nd_chain n)) = Some auths"
    and hd: "hd (bc_chain (nd_chain n)) = g"
    using root by (simp_all add: rooted_def configured_def)
  obtain d where "ldb_open L (sto_files s) = Inr d" using L unfolding leveldb_reliable_def by blast
  then obtain st where st: "newStorage L dataDir (sto_files s) = Inr st" by (simp add: newStorage_def)
  obtain p where p: "newPoAConsensus auths = Inr p"
    using ne by (auto simp: newPoAConsensus_def)
  obtain c where c: "newBlockchainPoA C J gkeys p = Inr c" by (rule newBlockchainPoA_total [OF C gkeys])
  then have gen: "bc_chain c = [hd (bc_chain (nd_chain n))]" using newBlockchainPoA_chain [OF c] g hd by auto
  show ?thesis
    using recovery [OF C J _ consistentD(3) [OF cons] stored room s st sched p c gen dir gkeys] L
    unfolding allocs leveldb_reliable_def by blast
qed

lemma assemble_born:
  fixes n :: "('d, 'j) node"
  assumes C: "crypto_ok C" and J: "json_ok J" and L: "leveldb_reliable L"
    and keys: "key_pair_ok C keys" and gkeys: "key_pair_ok C gkeys" and dir: "dataDir \<noteq> ''''"
    and empty: "\<forall>k. ldb_get L files k = NotFound"
    and new: "assembleNode C J L keys gkeys auths allocs dataDir files = Inr n"
  shows "recoverable C J L n" and "\<exists>g. createGenesisBlock C J gkeys = Inr g \<and> bc_chain (nd_chain n) = [g]"
proof -
  obtain p c g where pc: "newPoAConsensus auths = Inr p" "newBlockchainPoA C J gkeys p = Inr c"
      "createGenesisBlock C J gkeys = Inr g" "bc_chain c = [g]"
    by (rule assemble_genesis [OF new])
  have ok: "leveldb_ok L" using L by (simp add: leveldb_reliable_def)
  show "recoverable C J L n"
    using assemble_consistent [OF C keys gkeys new] assemble_empty [OF ok empty dir new] J L
    by (simp add: recoverable_def)
  show "\<exists>g. createGenesisBlock C J gkeys = Inr g \<and> bc_chain (nd_chain n) = [g]"
    using assemble_empty_chain [OF ok empty dir new pc(1,2)] pc(3,4) by simp
qed

lemma node_life_inv:
  fixes n :: "('d, 'j) node"
  assumes life: "node_life C J L keys gkeys auths allocs dataDir n"
    and C: "crypto_ok C" and J: "json_ok J" and L: "leveldb_reliable L"
    and keys: "key_pair_ok C keys" and gkeys: "key_pair_ok C gkeys" and dir: "dataDir \<noteq> ''''"
  shows "recoverable C J L n \<and> auths \<noteq> [] \<and>
    (\<exists>g. createGenesisBlock C J gkeys = Inr g \<and> rooted C J g auths allocs n)"
  using life
proof (induction rule: node_life.induct)
  case (life_born files P port n)
  note new = newNode_assembled [OF life_born(2)]
  note born = assemble_born [OF C J L keys gkeys dir life_born(1) new]
  obtain p where "newPoAConsensus auths = Inr p" by (rule assemble_genesis [OF new])
  then have "auths \<noteq> []" by (auto simp: newPoAConsensus_def)
  moreover have "\<exists>g. createGenesisBlock C J gkeys = Inr g \<and> rooted C J g auths allocs n"
    using born assemble_configured [OF new] by (auto simp: rooted_def recoverable_def)
  ultimately show ?case using born(1) by blast
next
  case (life_step n n')
  then show ?case using recoverability.keeps_step rootedness.keeps_step by metis
next
  case (life_restart n s P port n')
  then obtain g where g: "createGenesisBlock C J gkeys = Inr g" "rooted C J g auths allocs n"
      and rec: "recoverable C J L n" and ne: "auths \<noteq> []"
    by blast
  note new = newNode_assembled [OF life_restart(4)]
  have n': "bc_chain (nd_chain n') = bc_chain (nd_chain n)" "chain_stored L J n'"
    using restart [where keys = keys, OF C gkeys dir ne rec g(2,1) life_restart(3,2)] new by auto
  have cons: "consistent C J n'" by (rule assemble_consistent [OF C keys gkeys new])
  then have "recoverable C J L n'" using n'(2) J L by (simp add: recoverable_def)
  moreover have "rooted C J g auths allocs n'"
    using g(2) n'(1) cons assemble_configured [OF new] by (simp add: rooted_def)
  ultimately show ?case using g(1) ne by blast
qed

text \<open>What a restart in such a life gives back.\<close>

lemma node_life_restart:
  assumes "node_life C J L keys gkeys auths allocs dataDir n" and "crypto_ok C" and "json_ok J"
    and "leveldb_reliable L" and "key_pair_ok C keys" and "key_pair_ok C gkeys" and "dataDir \<noteq> []"
    and "length (bc_chain (nd_chain n)) < 2 ^ 64"
  shows "\<exists>s n'. nd_storage n = Some s \<and>
     newNode C J L P keys gkeys auths allocs port dataDir (sto_files s) =
       (case P port of None \<Rightarrow> Inr n' | Some reason \<Rightarrow> Inl (RuntimeError reason)) \<and>
     bc_chain (nd_chain n') = bc_chain (nd_chain n) \<and>
     (\<forall>a. node_getBalance n' a = node_getBalance n a \<and> node_getNonce n' a = node_getNonce n a)"
proof -
  obtain g where inv: "recoverable C J L n" "auths \<noteq> []" "createGenesisBlock C J gkeys = Inr g"
      "rooted C J g auths allocs n"
    using node_life_inv [OF assms(1-7)] by blast
  obtain s where s: "nd_storage n = Some s"
    using inv(1) assms(8) by (auto simp: recoverable_def chain_stored_def)
  show ?thesis
    using restart [where keys = keys, OF assms(2,6,7) inv(2,1,4,3) assms(8) s] s
    by (fastforce simp: newNode_outcome node_getBalance_def node_getNonce_def accountExists_def getBalance_def getNonce_def)
qed

text \<open>A node on an empty database that does not fail.\<close>

lemma assemble_runs:
  assumes "crypto_ok C" and "key_pair_ok C gkeys" and L: "leveldb_reliable L"
    and auths: "auths \<noteq> []" and dir: "dataDir \<noteq> ''''" and empty: "\<forall>k. ldb_get L files k = NotFound"
  shows "\<exists>(n :: ('d, 'j) node) c g s. assembleNode C J L keys gkeys auths allocs dataDir files = Inr n \<and>
    n = (blank_node C keys c allocs)\<lparr>nd_storage := Some s\<rparr> \<and> bc_chain c = [g] \<and> createGenesisBlock C J gkeys = Inr g \<and>
    map_option poa_authorities (bc_consensus c) = Some auths"
proof -
  obtain p where p: "newPoAConsensus auths = Inr p" "poa_authorities p = auths"
    using auths by (simp add: newPoAConsensus_def)
  obtain c where c: "newBlockchainPoA C J gkeys p = Inr c"
    by (rule newBlockchainPoA_total [OF assms(1,2)])
  obtain g where g: "createGenesisBlock C J gkeys = Inr g" "bc_chain c = [g]" "bc_consensus c = Some p"
    using newBlockchainPoA_chain [OF c] by blast
  have ok: "leveldb_ok L" using L by (simp add: leveldb_reliable_def)
  obtain d where "ldb_open L files = Inr d" using L unfolding leveldb_reliable_def by blast
  then obtain s where s: "newStorage L dataDir files = Inr s" by (simp add: newStorage_def)
  let ?n = "(blank_node C keys c allocs)\<lparr>nd_storage := Some s\<rparr> :: ('d, 'j) node"
  have "ldb_get L files = (\<lambda>_. NotFound)" using empty by (simp add: fun_eq_iff)
  then have "store_rep L J s empty_store" using newStorage_rep [OF ok _ s] get_rep_empty by metis
  then have "recoverFromStorage C J L ?n = (Inr (), ?n)" by (rule recover_empty) simp
  then have "assembleNode C J L keys gkeys auths allocs dataDir files = Inr ?n"
    by (simp add: assemble_run [OF p(1) c] s dir)
  then show ?thesis using p(2) g by auto
qed

end
