(* ===== verification/Node_Properties.thy ===== *)
theory Node_Properties
  imports Node_Recovery Peer_Session Samples
begin

text \<open>
  The properties of the node and of nodes together: consistency of chain, accounts and pool in
  every run, agreement, block propagation, synchronisation over the wire, restarts, and what
  happens to a block that cannot be paid.
\<close>

section \<open>Sample nodes\<close>

definition sample_dir :: string where
  "sample_dir = ''db''"

lemma sample_node:
  obtains n :: "((string \<times> string) list, jval) node"
  where "newNode demo_crypto demo_json demo_leveldb (\<lambda>_. None) sample_keys sample_keys [sample_alice] [(sample_alice, 100)] port [] [] = Inr n"
    and "node_run demo_crypto demo_json demo_leveldb n" and "nd_storage n = None"
    and "\<exists>p. bc_consensus (nd_chain n) = Some p \<and> getProducer p (getHeight (nd_chain n)) = nd_addr n"
    and "st_accounts (nd_state n) = st_accounts sample_state" and "genesis_accounts n = st_accounts sample_state"
    and "length (bc_chain (nd_chain n)) = 1" and "nd_mempool n = newMempool" and "nd_keys n = sample_keys"
    and "nd_network n = freshNetwork"
proof -
  obtain p where p: "newPoAConsensus [sample_alice] = Inr p" "poa_authorities p = [sample_alice]"
    by (simp add: newPoAConsensus_def)
  obtain c where c: "newBlockchainPoA demo_crypto demo_json sample_keys p = Inr c"
    by (rule newBlockchainPoA_total [OF demo_crypto_ok sample_keys_ok])
  obtain g where g: "bc_chain c = [g]" "bc_consensus c = Some p"
    using newBlockchainPoA_chain [OF c] by blast
  let ?n = "blank_node demo_crypto sample_keys c [(sample_alice, 100)] :: ((string \<times> string) list, jval) node"
  have new: "newNode demo_crypto demo_json demo_leveldb (\<lambda>_. None) sample_keys sample_keys [sample_alice] [(sample_alice, 100)] port [] [] = Inr ?n"
    by (simp add: newNode_iff assemble_run [OF p(1) c])
  have "node_run demo_crypto demo_json demo_leveldb ?n"
    by (rule node_new [OF demo_crypto_ok sample_keys_ok sample_keys_ok new])
  then show ?thesis
    by (rule that [OF new])
      (use g p(2) in \<open>simp_all add: blank_node_def genesis_accounts_def sample_state_def getProducer_def sample_alice_def\<close>)
qed

lemma sample_stored_node:
  obtains n :: "((string \<times> string) list, jval) node"
  where "newNode demo_crypto demo_json demo_leveldb (\<lambda>_. None) sample_keys sample_keys [sample_alice] [(sample_alice, 100)] port sample_dir [] = Inr n"
    and "\<exists>p. bc_consensus (nd_chain n) = Some p \<and> getProducer p (getHeight (nd_chain n)) = nd_addr n"
    and "length (bc_chain (nd_chain n)) = 1"
proof -
  obtain p where p: "newPoAConsensus [sample_alice] = Inr p" "poa_authorities p = [sample_alice]"
    by (simp add: newPoAConsensus_def)
  obtain c where c: "newBlockchainPoA demo_crypto demo_json sample_keys p = Inr c"
    by (rule newBlockchainPoA_total [OF demo_crypto_ok sample_keys_ok])
  obtain g where g: "bc_chain c = [g]" "bc_consensus c = Some p"
    using newBlockchainPoA_chain [OF c] by blast
  let ?s = "\<lparr>sto_path = sample_dir, sto_files = [], sto_open = True\<rparr>"
  let ?n = "(blank_node demo_crypto sample_keys c [(sample_alice, 100)])\<lparr>nd_storage := Some ?s\<rparr> ::
    ((string \<times> string) list, jval) node"
  have open_db: "newStorage demo_leveldb sample_dir [] = Inr ?s" by (simp add: newStorage_def demo_leveldb_def)
  have "ldb_get demo_leveldb [] = (\<lambda>_. NotFound)" by (simp add: demo_leveldb_def demo_get_def fun_eq_iff)
  then have "store_rep demo_leveldb demo_json ?s empty_store"
    using get_rep_empty by (intro newStorage_rep [OF demo_leveldb_ok _ open_db]) simp
  then have "recoverFromStorage demo_crypto demo_json demo_leveldb ?n = (Inr (), ?n)"
    by (rule recover_empty) simp
  then have "newNode demo_crypto demo_json demo_leveldb (\<lambda>_. None) sample_keys sample_keys [sample_alice] [(sample_alice, 100)] port sample_dir [] = Inr ?n"
    by (simp add: newNode_iff assemble_run [OF p(1) c] open_db sample_dir_def [symmetric]) (simp add: sample_dir_def)
  then show ?thesis
    by (rule that) (use g p(2) in \<open>simp_all add: blank_node_def getProducer_def sample_alice_def\<close>)
qed

section \<open>One node\<close>

text \<open>C7. At every moment of every run, a node's chain passes \<open>validateChain\<close>, its balances and
  nonces are the replay of its chain from the genesis allocations, no coin having appeared or
  vanished, and every transaction it would select for a block can be paid from them.\<close>

theorem node_consistent:
  assumes "node_run C J L n" and "total_supply (genesis_accounts n) < 2 ^ 64"
  shows "node_isChainValid C J n \<and>
     st_accounts (nd_state n) = replay (genesis_accounts n) (tl (bc_chain (nd_chain n))) \<and>
     total_supply (st_accounts (nd_state n)) = total_supply (genesis_accounts n) \<and>
     pool_ok C J (nd_state n) (nd_mempool n) \<and>
     run_txs (st_accounts (nd_state n)) (getTransactionsForBlock (nd_mempool n) k) \<noteq> None"
proof -
  have inv: "node_inv C J n" by (rule consistentD(2) [OF node_run_consistent [OF assms(1)]])
  then have accs: "st_accounts (nd_state n) = replay (genesis_accounts n) (tl (bc_chain (nd_chain n)))"
    and pool: "pool_ok C J (nd_state n) (nd_mempool n)"
    and valid: "valid_blocks C J (bc_chain (nd_chain n))"
    by (simp_all add: node_inv_def chain_inv_def pool_inv_def)
  have total: "total_supply (st_accounts (nd_state n)) = total_supply (genesis_accounts n)"
    unfolding accs by (rule replay_supply [OF assms(2)])
  show ?thesis
    using accs pool valid total selection_runs [OF pool, of k] assms(2)
    by (simp add: node_isChainValid_def validateChain_valid_blocks)
qed

theorem node_consistent_witness:
  "\<exists>n :: ((string \<times> string) list, jval) node. length (bc_chain (nd_chain n)) = 1 \<and>
     node_isChainValid demo_crypto demo_json n \<and> total_supply (st_accounts (nd_state n)) = 100"
proof -
  obtain n :: "((string \<times> string) list, jval) node"
    where n: "node_run demo_crypto demo_json demo_leveldb n" "genesis_accounts n = st_accounts sample_state"
      "length (bc_chain (nd_chain n)) = 1"
    by (rule sample_node)
  then show ?thesis
    using node_consistent [OF n(1)] sample_supply by auto
qed

text \<open>A good signature: 64 bytes that libsecp256k1 reads and verifies under the key.\<close>

definition signed_by :: "crypto_api \<Rightarrow> hash32 \<Rightarrow> signature_bytes \<Rightarrow> public_key \<Rightarrow> bool" where
  "signed_by C h signature key \<longleftrightarrow>
     length signature = 64 \<and>
     (\<exists>sg pk. sig_parse C signature = Some sg \<and> pubkey_parse C key = Some pk \<and> ecdsa_verify C sg h pk)"

lemma node_balance: "node_getBalance n a = balance_of (st_accounts (nd_state n)) a"
  by (simp add: node_getBalance_def query_accounts known_def balance_of_def)

lemma signed_by_verify: "verify C h signature key \<longleftrightarrow> signed_by C h signature key"
  by (auto simp: verify_def signed_by_def split: option.splits)

text \<open>C38. Nobody else can spend an address's coins: at every moment of every run, an address has
  lost no more of its genesis allocation than the amounts of the transfers sent from it on the chain,
  and each of those carries a good signature over its own hash under a key the address is derived
  from.\<close>

theorem spending_is_signed:
  assumes "node_run C J L n" and "total_supply (genesis_accounts n) < 2 ^ 64"
  shows "let sent = filter (\<lambda>tx. tx_sender tx = a) (concat (map blk_transactions (tl (bc_chain (nd_chain n)))))
    in unat (balance_of (genesis_accounts n) a) \<le> unat (node_getBalance n a) + sum_list (map (unat \<circ> tx_amount) sent) \<and>
       (\<forall>tx\<in>set sent. a = deriveAddress C (tx_senderPublicKey tx) \<and>
          signed_by C (computeTransactionHash C J tx) (tx_signature tx) (tx_senderPublicKey tx))"
proof -
  have n: "consistent C J n" by (rule node_run_consistent [OF assms(1)])
  have accs: "st_accounts (nd_state n) = replay (genesis_accounts n) (tl (bc_chain (nd_chain n)))"
    using consistentD(3) [OF n] by (simp add: chain_inv_def)
  have "tx_sender tx = deriveAddress C (tx_senderPublicKey tx) \<and>
      signed_by C (computeTransactionHash C J tx) (tx_signature tx) (tx_senderPublicKey tx)"
    if tx: "tx \<in> set (concat (map blk_transactions (tl (bc_chain (nd_chain n)))))" for tx
  proof -
    obtain b where b: "b \<in> set (bc_chain (nd_chain n))" "tx \<in> set (blk_transactions b)"
      using tx list.set_sel(2) [OF consistentD(6) [OF n]] by auto
    from valid_blocks_verify [OF consistentD(5) [OF n] b(1)] b(2) have "verifyTransaction C J tx"
      by (simp add: verifyBlock_iff list_all_iff)
    then show ?thesis unfolding verifyTransaction_iff signed_by_verify by auto
  qed
  then show ?thesis
    using replay_spent [OF assms(2), of a "tl (bc_chain (nd_chain n))"]
    by (auto simp: Let_def accs sent_by_def node_balance)
qed

text \<open>A node that has put its own transfer of 30 on the chain.\<close>

lemma sample_spending:
  obtains n :: "((string \<times> string) list, jval) node"
  where "node_run demo_crypto demo_json demo_leveldb n" and "genesis_accounts n = st_accounts sample_state"
    and "node_getBalance n sample_alice = 70"
proof -
  obtain n :: "((string \<times> string) list, jval) node" and p
    where n: "node_run demo_crypto demo_json demo_leveldb n" "bc_consensus (nd_chain n) = Some p"
      "getProducer p (getHeight (nd_chain n)) = nd_addr n" "st_accounts (nd_state n) = st_accounts sample_state"
      "genesis_accounts n = st_accounts sample_state" "nd_mempool n = newMempool" "nd_network n = freshNetwork"
    by (metis sample_node)
  define rcp :: address where "rcp = (if sample_alice = replicate 20 7 then replicate 20 8 else replicate 20 7)"
  have len: "sized 20 rcp" by (simp add: rcp_def sized_def)
  have "replicate 20 7 \<noteq> (replicate 20 8 :: address)" by simp
  then have other: "sample_alice \<noteq> rcp" unfolding rcp_def by metis
  obtain tx where tx1: "createTransaction demo_crypto demo_json 5 sample_keys rcp 30 0 = Inr tx"
    using createTransaction_total [OF demo_crypto_ok sample_keys_ok] by blast
  have tx: "tx_sender tx = sample_alice" "tx_amount tx = 30" "tx_nonce tx = 0" "tx_recipient tx = rcp"
    using createTransaction_Inr(1) [OF tx1] by (simp_all add: signable_def sample_alice_def)
  have wf: "wf_transaction tx" and good: "verifyTransaction demo_crypto demo_json tx"
    using createTransaction_wf [OF demo_crypto_ok sample_keys_ok _ tx1] len
      createTransaction_verifies [OF demo_crypto_ok sample_keys_ok tx1] by simp_all
  have "admissible (nd_state n) newMempool tx"
    using n tx by (simp add: admissible_def getPendingNonce_def getPendingBalance_def newMempool_def
        query_accounts sample_state_accounts known_def balance_of_def nonce_of_def)
  then have add: "addTransaction demo_crypto demo_json (nd_state n) newMempool tx = (True, admit (nd_state n) newMempool tx)"
    using good by (intro addTransaction_accept) (simp_all add: contains_def newMempool_def)
  let ?m = "n\<lparr>nd_mempool := admit (nd_state n) newMempool tx\<rparr>"
  have "snd (submitTransaction demo_crypto demo_json tx n) = ?m"
    using add n(6,7) by (simp add: submitTransaction_def pool_add_def bind_p_cases proc_simps on_network_def on_part_def
        broadcast_def freshNetwork_def)
  with node_more [OF n(1) step_submit [OF wf]] tx(3) have m: "node_run demo_crypto demo_json demo_leveldb ?m" by auto
  let ?k = "snd (produceBlock demo_crypto demo_json demo_leveldb 5 ?m)"
  have "bc_consensus (nd_chain ?m) = Some p" "getProducer p (getHeight (nd_chain ?m)) = nd_addr ?m"
    using n(2,3) by simp_all
  then obtain b where b: "blk_transactions b = getTransactionsForBlock (nd_mempool ?m) 100"
      "took demo_crypto demo_json b ?m ?k"
    by (rule produceBlock_took [OF node_run_consistent [OF m]])
  have "pooled (admit (nd_state n) newMempool tx) = [tx]"
    using admit_effect(2) [of newMempool tx "nd_state n"] by (simp add: contains_def newMempool_def pooled_def)
  then have "blk_transactions b = [tx]" using b(1) by (simp add: getTransactionsForBlock_take)
  then have "st_accounts (nd_state ?k) = settle_txs (st_accounts sample_state) (sample_block [tx])"
    using took_accounts [OF b(2)] n(4) by (simp add: settle_txs_def)
  moreover have "can_pay (st_accounts sample_state) tx"
    using tx by (simp add: can_pay_def known_def balance_of_def nonce_of_def sample_state_accounts)
  ultimately have "node_getBalance ?k sample_alice = 70"
    using transfer_effect(1) [of "st_accounts sample_state" tx sample_alice] tx other
    by (simp add: settle_txs_def node_balance) (simp add: balance_of_def sample_state_accounts)
  moreover obtain auths where "rooted demo_crypto demo_json (hd (bc_chain (nd_chain ?m))) auths (nd_genesisAllocations ?m) ?m"
    using node_run_rooted [OF m] by blast
  from keepsD [OF rootedness.keeps_produce this, of demo_leveldb 5] n(5)
  have "genesis_accounts ?k = st_accounts sample_state" by (simp add: rooted_def configured_def genesis_accounts_def)
  ultimately show ?thesis using that [OF node_more [OF m step_produce]] by blast
qed

theorem spending_is_signed_witness:
  "\<exists>(n :: ((string \<times> string) list, jval) node) tx. node_getBalance n sample_alice = 70 \<and>
     tx \<in> set (concat (map blk_transactions (tl (bc_chain (nd_chain n))))) \<and> tx_sender tx = sample_alice \<and>
     signed_by demo_crypto (computeTransactionHash demo_crypto demo_json tx) (tx_signature tx) (tx_senderPublicKey tx)"
proof -
  obtain n :: "((string \<times> string) list, jval) node"
    where n: "node_run demo_crypto demo_json demo_leveldb n" "genesis_accounts n = st_accounts sample_state"
      "node_getBalance n sample_alice = 70"
    by (rule sample_spending)
  let ?sent = "filter (\<lambda>tx. tx_sender tx = sample_alice) (concat (map blk_transactions (tl (bc_chain (nd_chain n)))))"
  have "total_supply (genesis_accounts n) < 2 ^ 64" using n(2) sample_supply by simp
  note spent = spending_is_signed [OF n(1) this, of sample_alice, unfolded Let_def]
  have "30 \<le> sum_list (map (unat \<circ> tx_amount) ?sent)"
    using spent n(2,3) by (simp add: sample_state_accounts balance_of_def)
  then obtain tx where "tx \<in> set ?sent" by (cases ?sent) auto
  with spent n(3) show ?thesis by (intro exI [of _ n] exI [of _ tx]) auto
qed

text \<open>Agreement: two nodes with the same genesis allocations and the same chain report the
  same balance and nonce for every address, whatever transactions, messages and storage
  failures brought each of them there.\<close>

theorem same_chain_same_answers:
  assumes "node_run C J L m" and "node_run C J M n"
    and "nd_genesisAllocations m = nd_genesisAllocations n" and "bc_chain (nd_chain m) = bc_chain (nd_chain n)"
  shows "node_getBalance m a = node_getBalance n a \<and> node_getNonce m a = node_getNonce n a"
proof -
  have "st_accounts (nd_state m) = st_accounts (nd_state n)"
    using consistentD(3) [OF node_run_consistent [OF assms(1)]] consistentD(3) [OF node_run_consistent [OF assms(2)]] assms(3,4)
    by (simp add: chain_inv_def genesis_accounts_def)
  then show ?thesis
    by (simp add: node_getBalance_def node_getNonce_def accountExists_def getBalance_def getNonce_def)
qed

theorem same_chain_same_answers_witness:
  "\<exists>n :: ((string \<times> string) list, jval) node. node_getBalance (snd (node_start n)) sample_alice = 100 \<and>
     node_getBalance n sample_alice = 100"
proof -
  obtain n :: "((string \<times> string) list, jval) node"
    where n: "node_run demo_crypto demo_json demo_leveldb n" "st_accounts (nd_state n) = st_accounts sample_state"
    by (rule sample_node)
  have started: "nd_genesisAllocations (snd (node_start n)) = nd_genesisAllocations n"
      "bc_chain (nd_chain (snd (node_start n))) = bc_chain (nd_chain n)"
    by (simp_all add: node_start_def on_network_def on_part_def modify_p_def)
  have balance: "node_getBalance n sample_alice = 100"
    using n(2) by (simp add: node_getBalance_def accountExists_def getBalance_def sample_state_accounts)
  from same_chain_same_answers [OF node_more [OF n(1) step_start] n(1) started, of sample_alice] balance
  have "node_getBalance (snd (node_start n)) sample_alice = 100" by simp
  with balance show ?thesis by blast
qed

section \<open>Nodes together\<close>

text \<open>C12. A scheduled producer carries the network along: its \<open>produceBlock\<close> extends its chain
  by a block of its pool's selection, all of which is paid, even if announcing it fails; and a
  node with the same chain, schedule and allocations that receives the block has the same chain
  and the same accounts afterwards, even if storing it fails.\<close>

theorem produced_block_followed:
  assumes "node_run C J L n" and "node_run C J M m" and "json_ok J"
    and "bc_consensus (nd_chain n) = Some p" and "getProducer p (getHeight (nd_chain n)) = nd_addr n"
    and "bc_chain (nd_chain m) = bc_chain (nd_chain n)" and "same_schedule (nd_chain m) (nd_chain n)"
    and "nd_genesisAllocations m = nd_genesisAllocations n" and "total_supply (genesis_accounts n) < 2 ^ 64"
  shows "\<exists>b. let n' = snd (produceBlock C J L now n);
            m' = snd (handleMessage C J M \<lparr>msg_type = NEW_BLOCK, msg_payload = blockToJson J b\<rparr> sender m)
        in bc_chain (nd_chain n') = bc_chain (nd_chain n) @ [b] \<and>
           blk_transactions b = getTransactionsForBlock (nd_mempool n) 100 \<and>
           run_txs (st_accounts (nd_state n)) (blk_transactions b) = Some (st_accounts (nd_state n')) \<and>
           bc_chain (nd_chain m') = bc_chain (nd_chain n') \<and>
           st_accounts (nd_state m') = st_accounts (nd_state n')"
proof -
  have n: "consistent C J n" and m: "consistent C J m"
    using assms(1,2) by (simp_all add: node_run_consistent)
  obtain b where b: "accepts C J (nd_chain n) b" "wf_block b"
      "blk_transactions b = getTransactionsForBlock (nd_mempool n) 100"
      "took C J b n (snd (produceBlock C J L now n))"
    by (rule produceBlock_took [OF n assms(4,5)])
  have acc: "accepts C J (nd_chain m) b" using accepts_cong [OF assms(7,6), of C J b] b(1) by simp
  have recv: "took C J b m (snd (handleMessage C J M \<lparr>msg_type = NEW_BLOCK, msg_payload = blockToJson J b\<rparr> sender m))"
    by (rule handleNewBlock_next [OF acc assms(3) b(2)])
  have same: "st_accounts (nd_state m) = st_accounts (nd_state n)"
    using consistentD(3) [OF n] consistentD(3) [OF m] assms(6,8) by (simp add: chain_inv_def genesis_accounts_def)
  obtain accs where accs: "run_txs (st_accounts (nd_state n)) (blk_transactions b) = Some accs"
    using node_consistent [OF assms(1,9), of 100] b(3) by auto
  show ?thesis
    unfolding Let_def
    using took_chain [OF b(4,1)] took_chain [OF recv acc] took_accounts [OF b(4)] took_accounts [OF recv]
      b(3) accs same assms(6)
    by (intro exI [of _ b]) (simp add: settle_txs_def)
qed

theorem produced_block_followed_witness:
  "\<exists>(n :: ((string \<times> string) list, jval) node) b. bc_chain (nd_chain (snd (handleMessage demo_crypto demo_json demo_leveldb
      \<lparr>msg_type = NEW_BLOCK, msg_payload = blockToJson demo_json b\<rparr> 7 n))) = bc_chain (nd_chain n) @ [b]"
proof -
  obtain n :: "((string \<times> string) list, jval) node" and p
    where n: "node_run demo_crypto demo_json demo_leveldb n" "bc_consensus (nd_chain n) = Some p"
      "getProducer p (getHeight (nd_chain n)) = nd_addr n" "genesis_accounts n = st_accounts sample_state"
    by (metis sample_node)
  have "total_supply (genesis_accounts n) < 2 ^ 64" using n(4) sample_supply by simp
  moreover have "same_schedule (nd_chain n) (nd_chain n)" by (simp add: same_schedule_def)
  ultimately obtain b where "bc_chain (nd_chain (snd (handleMessage demo_crypto demo_json demo_leveldb
      \<lparr>msg_type = NEW_BLOCK, msg_payload = blockToJson demo_json b\<rparr> 7 n))) = bc_chain (nd_chain n) @ [b]"
    using produced_block_followed [OF n(1) n(1) demo_json_ok n(2,3) refl _ refl, of 5 7] by (auto simp: Let_def)
  then show ?thesis by blast
qed

text \<open>C8. Synchronisation over the wire: a node asked for the blocks from a peer's height answers
  with exactly the rest of its chain; when that answer fits a frame, the peer's session decodes
  it, and a peer that runs in memory or on a database that does not fail then holds the
  answering node's whole chain and the same accounts.\<close>

theorem sync_catches_up:
  assumes "node_run C J L a" and "node_run C J M b" and "json_ok J" and "store_ready M b"
    and "bc_chain (nd_chain a) = bc_chain (nd_chain b) @ rest" and "length (bc_chain (nd_chain a)) < 2 ^ 64"
    and "same_schedule (nd_chain b) (nd_chain a)" and "nd_genesisAllocations b = nd_genesisAllocations a"
    and "serializeMessage J (blocksMessage J (map (blockToJson J) rest)) = Inr frame"
    and "length frame \<le> 4 + 16 * 1024 * 1024"
  shows "\<exists>answer received b'.
     handleMessage C J L (getBlocksMessage J (node_getChainHeight b)) peer a =
       (Inr (), a\<lparr>nd_network := (nd_network a)\<lparr>net_posted := net_posted (nd_network a) @ [(peer, answer)]\<rparr>\<rparr>) \<and>
     serializeMessage J answer = Inr frame \<and> feed J newSession Header frame = (newSession, [received], []) \<and>
     handleMessage C J M received sender b = (Inr (), b') \<and>
     bc_chain (nd_chain b') = bc_chain (nd_chain a) \<and> st_accounts (nd_state b') = st_accounts (nd_state a)"
proof -
  have a: "consistent C J a" and b: "consistent C J b"
    using assms(1,2) by (simp_all add: node_run_consistent)
  let ?answer = "blocksMessage J (map (blockToJson J) rest)"
  have answers: "handleMessage C J L (getBlocksMessage J (node_getChainHeight b)) peer a =
      (Inr (), a\<lparr>nd_network := (nd_network a)\<lparr>net_posted := net_posted (nd_network a) @ [(peer, ?answer)]\<rparr>\<rparr>)"
    using assms(5,6) by (intro answers_rest [OF assms(3) _ _ assms(9)]) (simp_all add: node_getChainHeight_def getHeight_def)
  have plain: "json_plain J (msg_payload ?answer)"
    by (rule blocksMessage_plain)
  have decoded: "delivered J ?answer = ?answer"
    using assms(3) by (simp add: delivered_def sent_payload_def blocksMessage_def json_leaf)
  have fed: "feed J newSession Header frame = (newSession, [?answer], [])"
    using feed_frames [OF assms(3), of "[?answer]" "[frame]"] plain assms(9,10) decoded by simp
  obtain b' where b': "handleMessage C J M ?answer sender b = (Inr (), b')" "bc_chain (nd_chain b') = bc_chain (nd_chain a)"
    using takes_rest [OF assms(3) b a assms(4,5,7), of sender] by blast
  have "fit_message J ?answer" by (simp add: fit_message_def blocksMessage_def)
  moreover obtain auths where "rooted C J (hd (bc_chain (nd_chain b))) auths (nd_genesisAllocations b) b"
    using node_run_rooted [OF assms(2)] by blast
  ultimately have "rooted C J (hd (bc_chain (nd_chain b))) auths (nd_genesisAllocations b) b'"
    using keepsD [OF rootedness.keeps_handleMessage] b'(1) by (metis snd_conv)
  then have "consistent C J b'" and "nd_genesisAllocations b' = nd_genesisAllocations b"
    by (simp_all add: rooted_def configured_def)
  then have "st_accounts (nd_state b') = st_accounts (nd_state a)"
    using consistentD(3) [OF a] b'(2) assms(8) consistentD(3) [of C J b']
    by (simp add: chain_inv_def genesis_accounts_def)
  then show ?thesis using answers fed b' assms(9) by blast
qed

lemma sample_sync:
  obtains a b :: "((string \<times> string) list, jval) node" and blk frame
  where "node_run demo_crypto demo_json demo_leveldb a" and "node_run demo_crypto demo_json demo_leveldb b"
    and "nd_storage b = None" and "bc_chain (nd_chain a) = bc_chain (nd_chain b) @ [blk]"
    and "length (bc_chain (nd_chain a)) = 2" and "same_schedule (nd_chain b) (nd_chain a)"
    and "nd_genesisAllocations b = nd_genesisAllocations a"
    and "serializeMessage demo_json (blocksMessage demo_json (map (blockToJson demo_json) [blk])) = Inr frame"
    and "length frame \<le> 4 + 16 * 1024 * 1024"
proof -
  obtain b :: "((string \<times> string) list, jval) node" and p
    where b: "node_run demo_crypto demo_json demo_leveldb b" "nd_storage b = None"
      "bc_consensus (nd_chain b) = Some p" "getProducer p (getHeight (nd_chain b)) = nd_addr b"
      "length (bc_chain (nd_chain b)) = 1" "nd_mempool b = newMempool"
    by (metis sample_node)
  let ?a = "snd (produceBlock demo_crypto demo_json demo_leveldb 5 b)"
  obtain blk where blk: "accepts demo_crypto demo_json (nd_chain b) blk" "wf_block blk"
      "blk_transactions blk = getTransactionsForBlock (nd_mempool b) 100"
      "took demo_crypto demo_json blk b ?a"
    by (rule produceBlock_took [OF node_run_consistent [OF b(1)] b(3,4)])
  have a: "node_run demo_crypto demo_json demo_leveldb ?a" by (rule node_more [OF b(1) step_produce])
  have chain: "bc_chain (nd_chain ?a) = bc_chain (nd_chain b) @ [blk]" by (rule took_chain [OF blk(4,1)])
  obtain auths where "rooted demo_crypto demo_json (hd (bc_chain (nd_chain b))) auths (nd_genesisAllocations b) b"
    using node_run_rooted [OF b(1)] by blast
  from keepsD [OF rootedness.keeps_produce this]
  have allocs: "nd_genesisAllocations b = nd_genesisAllocations ?a" by (simp add: rooted_def configured_def)
  have sched: "same_schedule (nd_chain b) (nd_chain ?a)"
    using blk(4) settle_schedule [of demo_crypto demo_json blk b] by (simp add: took_def same_schedule_def)
  have "blk_transactions blk = []"
    using blk(3) b(6) by (simp add: newMempool_def pooled_def getTransactionsForBlock_take)
  moreover have "verifyBlock demo_crypto demo_json blk" using blk(1) by (simp add: accepts_def)
  ultimately have small: "length (enc (blockToJson demo_json blk)) < 1000" by (intro demo_block_text_small blk(2) demo_signature_length)
  let ?m = "blocksMessage demo_json (map (blockToJson demo_json) [blk])"
  have plain: "json_plain demo_json (msg_payload ?m)"
    by (rule blocksMessage_plain)
  let ?body = "j_text demo_json (envelope demo_json ?m)"
  have "messageBody demo_json ?m = Inr ?body" by (rule messageBody_text [OF demo_json_ok plain])
  moreover have len: "length ?body < 2000"
    using small by (simp add: envelope_def sent_payload_def blocksMessage_def messageTypeToString_def enc_string_def to_string_nat_step)
  ultimately have ser: "serializeMessage demo_json ?m = Inr (encodeLength (word_of_nat (length ?body)) @ string_bytes ?body)"
    by (intro serializeMessage_frame) simp_all
  have fits: "length (encodeLength (word_of_nat (length ?body)) @ string_bytes ?body) \<le> 4 + 16 * 1024 * 1024"
    unfolding length_append length_encodeLength string_bytes_length using len by simp
  show ?thesis
    by (rule that [OF a b(1,2) chain _ sched allocs ser fits]) (simp add: chain b(5))
qed

theorem sync_catches_up_witness:
  "\<exists>(a :: ((string \<times> string) list, jval) node) (b :: ((string \<times> string) list, jval) node) received.
     bc_chain (nd_chain b) \<noteq> bc_chain (nd_chain a) \<and>
     bc_chain (nd_chain (snd (handleMessage demo_crypto demo_json demo_leveldb received 3 b))) = bc_chain (nd_chain a)"
proof -
  obtain a b :: "((string \<times> string) list, jval) node" and blk frame
    where ab: "node_run demo_crypto demo_json demo_leveldb a" "node_run demo_crypto demo_json demo_leveldb b"
      "nd_storage b = None" "bc_chain (nd_chain a) = bc_chain (nd_chain b) @ [blk]"
      "length (bc_chain (nd_chain a)) = 2" "same_schedule (nd_chain b) (nd_chain a)"
      "nd_genesisAllocations b = nd_genesisAllocations a"
      "serializeMessage demo_json (blocksMessage demo_json (map (blockToJson demo_json) [blk])) = Inr frame"
      "length frame \<le> 4 + 16 * 1024 * 1024"
    by (rule sample_sync)
  have ready: "store_ready demo_leveldb b" using ab(3) by (simp add: store_ready_def)
  have "length (bc_chain (nd_chain a)) < 2 ^ 64" using ab(5) by simp
  then obtain received b' where "handleMessage demo_crypto demo_json demo_leveldb received 3 b = (Inr (), b')"
      "bc_chain (nd_chain b') = bc_chain (nd_chain a)"
    using sync_catches_up [OF ab(1,2) demo_json_ok ready ab(4) _ ab(6-9), of 2 3] by blast
  with ab(4) show ?thesis by (metis append_self_conv list.distinct(1) snd_conv)
qed

text \<open>C9. Restarts lose nothing of the ledger: take a node born on an empty directory of a
  database that does not fail, through any operations and earlier restarts; building a new
  node on its files, with the same keys and genesis configuration, gives a node with the same chain
  that reports the same balances and nonces, unless the listening port cannot be opened, which is
  the only way it fails.\<close>

theorem restart_restores:
  assumes "node_life C J L keys gkeys auths allocs dataDir n" and "crypto_ok C" and "json_ok J"
    and "leveldb_reliable L" and "key_pair_ok C keys" and "key_pair_ok C gkeys" and "dataDir \<noteq> []"
    and "length (bc_chain (nd_chain n)) < 2 ^ 64"
  shows "\<exists>s n'. nd_storage n = Some s \<and>
     newNode C J L P keys gkeys auths allocs port dataDir (sto_files s) =
       (case P port of None \<Rightarrow> Inr n' | Some reason \<Rightarrow> Inl (RuntimeError reason)) \<and>
     bc_chain (nd_chain n') = bc_chain (nd_chain n) \<and>
     (\<forall>a. node_getBalance n' a = node_getBalance n a \<and> node_getNonce n' a = node_getNonce n a)"
  by (rule node_life_restart [OF assms])

theorem restart_restores_witness:
  "\<exists>(n :: ((string \<times> string) list, jval) node) s n'. nd_storage n = Some s \<and> length (bc_chain (nd_chain n)) = 2 \<and>
     newNode demo_crypto demo_json demo_leveldb (\<lambda>p. if p = 80 then Some ''Permission denied'' else None)
       sample_keys sample_keys [sample_alice] [(sample_alice, 100)] 9000 sample_dir (sto_files s) = Inr (n' :: ((string \<times> string) list, jval) node) \<and>
     bc_chain (nd_chain n') = bc_chain (nd_chain n)"
proof -
  let ?new = "newNode demo_crypto demo_json demo_leveldb (\<lambda>_. None) sample_keys sample_keys [sample_alice] [(sample_alice, 100)] 9000 sample_dir"
  let ?life = "node_life demo_crypto demo_json demo_leveldb sample_keys sample_keys [sample_alice] [(sample_alice, 100)] sample_dir"
  obtain n :: "((string \<times> string) list, jval) node" and p
    where n: "?new [] = Inr n" "bc_consensus (nd_chain n) = Some p" "getProducer p (getHeight (nd_chain n)) = nd_addr n"
      "length (bc_chain (nd_chain n)) = 1"
    by (metis sample_stored_node)
  have empty: "\<forall>k. ldb_get demo_leveldb [] k = NotFound" by (simp add: demo_leveldb_def demo_get_def)
  let ?m = "snd (produceBlock demo_crypto demo_json demo_leveldb 5 n)"
  have m: "?life ?m" by (rule life_step [OF life_born [OF empty n(1)] step_produce])
  have run: "node_run demo_crypto demo_json demo_leveldb n"
    by (rule node_new [OF demo_crypto_ok sample_keys_ok sample_keys_ok n(1)])
  obtain b where b: "accepts demo_crypto demo_json (nd_chain n) b" "took demo_crypto demo_json b n ?m"
    using produceBlock_took [OF node_run_consistent [OF run] n(2,3)] by metis
  have two: "length (bc_chain (nd_chain ?m)) = 2" using took_chain [OF b(2,1)] n(4) by simp
  moreover have "sample_dir \<noteq> []" by (simp add: sample_dir_def)
  ultimately show ?thesis
    using restart_restores [OF m demo_crypto_ok demo_json_ok demo_leveldb_reliable sample_keys_ok sample_keys_ok, where port = 9000
        and P = "\<lambda>p. if p = 80 then Some ''Permission denied'' else None"]
    by fastforce
qed

text \<open>C29. What a node does not check: a block of the scheduled authority whose signatures are
  good but whose transactions cannot be paid is appended to the chain of every node that
  receives it, which still validates, while the accounts stay as they were.\<close>

theorem unpayable_block_kept:
  assumes "node_run C J L n" and "json_ok J" and "wf_block b"
    and "fst (addBlock C J (nd_chain n) b)" and "\<not> fst (applyBlock (nd_state n) b)"
  shows "let n' = snd (handleMessage C J L \<lparr>msg_type = NEW_BLOCK, msg_payload = blockToJson J b\<rparr> sender n)
    in bc_chain (nd_chain n') = bc_chain (nd_chain n) @ [b] \<and> node_isChainValid C J n' \<and>
       st_accounts (nd_state n') = st_accounts (nd_state n)"
proof -
  have acc: "accepts C J (nd_chain n) b" using assms(4) by (simp add: addBlock_fst)
  let ?m = "\<lparr>msg_type = NEW_BLOCK, msg_payload = blockToJson J b\<rparr>"
  have took: "took C J b n (snd (handleMessage C J L ?m sender n))"
    by (rule handleNewBlock_next [OF acc assms(2,3)])
  have "fit_message J ?m" by (simp add: fit_message_def)
  then have after: "consistent C J (snd (handleMessage C J L ?m sender n))"
    by (rule keepsD [OF consistency.keeps_handleMessage node_run_consistent [OF assms(1)]])
  show ?thesis
    using took_chain [OF took acc] took_accounts [OF took] assms(5) consistentD(5) [OF after]
    by (simp add: Let_def settle_txs_def applyBlock_fst node_isChainValid_def validateChain_valid_blocks)
qed

theorem unpayable_block_kept_witness:
  "\<exists>(n :: ((string \<times> string) list, jval) node) b. let n' = snd (handleMessage demo_crypto demo_json demo_leveldb
       \<lparr>msg_type = NEW_BLOCK, msg_payload = blockToJson demo_json b\<rparr> 3 n)
     in map tx_amount (blk_transactions b) = [1000] \<and> getBalance (nd_state n') sample_alice = 100 \<and>
        bc_chain (nd_chain n') = bc_chain (nd_chain n) @ [b]"
proof -
  obtain n :: "((string \<times> string) list, jval) node" and p
    where n: "node_run demo_crypto demo_json demo_leveldb n" "bc_consensus (nd_chain n) = Some p"
      "getProducer p (getHeight (nd_chain n)) = nd_addr n" "st_accounts (nd_state n) = st_accounts sample_state"
      "nd_keys n = sample_keys"
    by (metis sample_node)
  note cons = node_run_consistent [OF n(1)]
  obtain tx where tx: "createTransaction demo_crypto demo_json 5 sample_keys sample_bob 1000 0 = Inr tx"
    using createTransaction_total [OF demo_crypto_ok sample_keys_ok] by blast
  note created = createTransaction_Inr(1) [OF tx]
  have verified: "list_all (verifyTransaction demo_crypto demo_json) [tx]"
    using createTransaction_verifies [OF demo_crypto_ok sample_keys_ok tx] by simp
  have wf: "list_all wf_transaction [tx]"
    using createTransaction_wf [OF demo_crypto_ok sample_keys_ok _ tx] by (simp add: sample_bob_def sized_def)
  obtain b where b: "createBlock demo_crypto demo_json 9 sample_keys (getLatestBlock (nd_chain n)) [tx] = Inr b"
    by (rule createBlock_total [OF demo_crypto_ok sample_keys_ok])
  have "nd_addr n = deriveAddress demo_crypto (publicKey sample_keys)"
    using consistentD(4) [OF cons] n(5) by (simp add: wf_node_def)
  then have acc: "fst (addBlock demo_crypto demo_json (nd_chain n) b)"
    using createBlock_accepts [OF demo_crypto_ok sample_keys_ok consistentD(5) [OF cons] b verified] n(2,3)
    by (auto simp: addBlock_fst)
  have wfb: "wf_block b"
    by (rule createBlock_wf [OF demo_crypto_ok sample_keys_ok b
          tip_hash_sized [OF crypto_okD(1) [OF demo_crypto_ok] consistentD(5) [OF cons]] wf])
  have txs: "blk_transactions b = [tx]" by (rule createBlock_Inr(4) [OF b])
  have fields: "tx_sender tx = sample_alice" "tx_amount tx = 1000"
    using created by (simp_all add: signable_def sample_alice_def)
  then have "\<not> fst (applyBlock (nd_state n) b)"
    using txs n(4) by (simp add: applyBlock_fst can_pay_def balance_of_def sample_state_accounts)
  from unpayable_block_kept [OF n(1) demo_json_ok wfb acc this, of 3] show ?thesis
    using txs fields n(4) by (intro exI [of _ n] exI [of _ b]) (simp add: Let_def getBalance_def sample_state_accounts)
qed

end
