(* ===== verification/Rpc.thy ===== *)
theory Rpc
  imports Node
begin

text \<open>
  \<open>rpc/rpc_server.hpp\<close> and \<open>rpc/rpc_server.cpp\<close>: one POST to \<open>/rpc\<close>, from the body to the
  response text. The node is the state of the procedures; an exception that leaves \<open>handleRpc\<close> is
  answered by the HTTP library, which is not part of the repository, as are the server's thread and
  its sockets. Between two calls on the node another thread may take the node's mutex; here they
  follow one another.
\<close>

section \<open>Errors and responses\<close>

definition PARSE_ERROR :: int where "PARSE_ERROR = - 32700"
definition INVALID_REQUEST :: int where "INVALID_REQUEST = - 32600"
definition METHOD_NOT_FOUND :: int where "METHOD_NOT_FOUND = - 32601"
definition INVALID_PARAMS :: int where "INVALID_PARAMS = - 32602"
definition INTERNAL_ERROR :: int where "INTERNAL_ERROR = - 32603"

lemmas rpc_codes = PARSE_ERROR_def INVALID_REQUEST_def METHOD_NOT_FOUND_def INVALID_PARAMS_def INTERNAL_ERROR_def

text \<open>\<open>e.what()\<close>.\<close>

fun what :: "exn \<Rightarrow> string" where
  "what (RuntimeError m) = m"
| "what (InvalidArgument m) = m"
| "what (OutOfRange m) = m"
| "what (JsonParseError m) = m"
| "what (JsonError m) = m"
| "what (BadAccess m) = m"

definition quoted :: "string \<Rightarrow> string" where
  "quoted s = [CHR 0x27] @ s @ [CHR 0x27]"

definition successResponse :: "'j json_api \<Rightarrow> 'j \<Rightarrow> 'j \<Rightarrow> 'j" where
  "successResponse J result ident =
     j_object J [(''jsonrpc'', j_string J ''2.0''), (''result'', result), (''id'', ident)]"

definition errorResponse :: "'j json_api \<Rightarrow> int \<Rightarrow> string \<Rightarrow> 'j \<Rightarrow> 'j" where
  "errorResponse J code message ident =
     j_object J
       [(''jsonrpc'', j_string J ''2.0''),
        (''error'', j_object J [(''code'', j_int J code), (''message'', j_string J message)]),
        (''id'', ident)]"

text \<open>The object by which a handler reports an error to \<open>handleRpc\<close>.\<close>

definition rpc_error :: "'j json_api \<Rightarrow> int \<Rightarrow> string \<Rightarrow> 'j" where
  "rpc_error J code message =
     j_object J [(''__rpc_error'', j_object J [(''code'', j_int J code), (''message'', j_string J message)])]"

section \<open>Method handlers\<close>

text \<open>\<open>params.contains(key)\<close> and the type test of \<open>params[key]\<close>.\<close>

definition has_param :: "'j json_api \<Rightarrow> ('j \<Rightarrow> bool) \<Rightarrow> 'j \<Rightarrow> string \<Rightarrow> bool result" where
  "has_param J is_type params key =
     (if \<not> j_contains J params key then Inr False
      else bind_e (j_index J params key) (\<lambda>v. Inr (is_type v)))"

definition address_param :: "'j json_api \<Rightarrow> 'j \<Rightarrow> address result" where
  "address_param J params = bind_e (bind_e (j_index J params ''address'') (j_get_string J)) (fromHexFixed 20)"

definition handleGetBalance :: "'j json_api \<Rightarrow> 'j \<Rightarrow> (('d, 'j) node, 'j) proc" where
  "handleGetBalance J params =
     bind_p (eval_p (\<lambda>_. has_param J (j_is_string J) params ''address'')) (\<lambda>ok.
       if \<not> ok then ret (rpc_error J INVALID_PARAMS (''Missing '' @ quoted ''address'' @ '' parameter''))
       else bind_p (eval_p (\<lambda>_. address_param J params)) (\<lambda>addr.
              read_p (\<lambda>n. j_object J [(''balance'', j_uint J (node_getBalance n addr))])))"

definition handleGetNonce :: "'j json_api \<Rightarrow> 'j \<Rightarrow> (('d, 'j) node, 'j) proc" where
  "handleGetNonce J params =
     bind_p (eval_p (\<lambda>_. has_param J (j_is_string J) params ''address'')) (\<lambda>ok.
       if \<not> ok then ret (rpc_error J INVALID_PARAMS (''Missing '' @ quoted ''address'' @ '' parameter''))
       else bind_p (eval_p (\<lambda>_. address_param J params)) (\<lambda>addr.
              read_p (\<lambda>n. j_object J [(''nonce'', j_uint J (node_getNonce n addr))])))"

definition handleGetChainHeight :: "'j json_api \<Rightarrow> (('d, 'j) node, 'j) proc" where
  "handleGetChainHeight J = read_p (\<lambda>n. j_object J [(''height'', j_uint J (node_getChainHeight n))])"

text \<open>Only \<open>std::out_of_range\<close> is caught around \<open>getBlock\<close>.\<close>

definition handleGetBlockByIndex :: "'j json_api \<Rightarrow> 'j \<Rightarrow> (('d, 'j) node, 'j) proc" where
  "handleGetBlockByIndex J params =
     bind_p (eval_p (\<lambda>_. has_param J (j_is_uint J) params ''index'')) (\<lambda>ok.
       if \<not> ok then ret (rpc_error J INVALID_PARAMS (''Missing or invalid '' @ quoted ''index'' @ '' parameter''))
       else bind_p (eval_p (\<lambda>_. bind_e (j_index J params ''index'') (j_get_uint J))) (\<lambda>index.
              eval_p (\<lambda>n. case node_getBlock n index of
                  Inr b \<Rightarrow> Inr (j_object J [(''block'', blockToJson J b)])
                | Inl (OutOfRange m) \<Rightarrow> Inr (rpc_error J INVALID_PARAMS (''Block not found: '' @ m))
                | Inl e \<Rightarrow> Inl e)))"

definition handleGetMempoolSize :: "'j json_api \<Rightarrow> (('d, 'j) node, 'j) proc" where
  "handleGetMempoolSize J = read_p (\<lambda>n. j_object J [(''size'', j_uint J (word_of_nat (node_getMempoolSize n)))])"

definition handleGetPeerCount :: "'j json_api \<Rightarrow> (('d, 'j) node, 'j) proc" where
  "handleGetPeerCount J = read_p (\<lambda>n. j_object J [(''count'', j_uint J (word_of_nat (node_getPeerCount n)))])"

definition handleSubmitTransaction ::
  "crypto_api \<Rightarrow> 'j json_api \<Rightarrow> 'j \<Rightarrow> (('d, 'j) node, 'j) proc" where
  "handleSubmitTransaction C J params =
     bind_p (eval_p (\<lambda>_. has_param J (j_is_object J) params ''transaction'')) (\<lambda>ok.
       if \<not> ok then ret (rpc_error J INVALID_PARAMS (''Missing '' @ quoted ''transaction'' @ '' object''))
       else catch_p
         (bind_p (eval_p (\<lambda>_. bind_e (j_index J params ''transaction'') (transactionFromJson J))) (\<lambda>tx.
          bind_p (submitTransaction C J tx) (\<lambda>accepted.
            if accepted
            then ret (j_object J [(''accepted'', j_bool J True), (''hash'', j_string J (toHex_array (tx_hash tx)))])
            else read_p (\<lambda>n. j_object J [(''accepted'', j_bool J False), (''error'', j_string J (node_getLastError n))]))))
         (\<lambda>e. ret (rpc_error J INVALID_PARAMS (''Invalid transaction: '' @ what e))))"

section \<open>Requests\<close>

definition rpc_dispatch ::
  "crypto_api \<Rightarrow> 'j json_api \<Rightarrow> string \<Rightarrow> 'j \<Rightarrow> (('d, 'j) node, 'j) proc" where
  "rpc_dispatch C J m params =
     (if m = ''getBalance'' then handleGetBalance J params
      else if m = ''getNonce'' then handleGetNonce J params
      else if m = ''getChainHeight'' then handleGetChainHeight J
      else if m = ''getBlockByIndex'' then handleGetBlockByIndex J params
      else if m = ''getMempoolSize'' then handleGetMempoolSize J
      else if m = ''getPeerCount'' then handleGetPeerCount J
      else if m = ''submitTransaction'' then handleSubmitTransaction C J params
      else ret (rpc_error J METHOD_NOT_FOUND (''Unknown method: '' @ m)))"

text \<open>The response to what a handler returned.\<close>

definition rpc_response :: "'j json_api \<Rightarrow> 'j \<Rightarrow> 'j \<Rightarrow> string result" where
  "rpc_response J ident result =
     (if j_contains J result ''__rpc_error''
      then bind_e (bind_e (bind_e (j_index J result ''__rpc_error'') (\<lambda>e. j_index J e ''code'')) (j_get_int J)) (\<lambda>code.
           bind_e (bind_e (bind_e (j_index J result ''__rpc_error'') (\<lambda>e. j_index J e ''message'')) (j_get_string J)) (\<lambda>msg.
             j_dump J (errorResponse J code msg ident)))
      else j_dump J (successResponse J result ident))"

text \<open>From the validation of the request on; the argument of the log line is dumped, too.\<close>

definition rpc_answer :: "crypto_api \<Rightarrow> 'j json_api \<Rightarrow> 'j \<Rightarrow> 'j \<Rightarrow> (('d, 'j) node, string) proc" where
  "rpc_answer C J req ident =
     bind_p (eval_p (\<lambda>_. has_param J (j_is_string J) req ''method'')) (\<lambda>ok.
       if \<not> ok
       then eval_p (\<lambda>_. j_dump J (errorResponse J INVALID_REQUEST (''Missing or invalid '' @ quoted ''method'' @ '' field'') ident))
       else bind_p (eval_p (\<lambda>_. bind_e (j_index J req ''method'') (j_get_string J))) (\<lambda>m.
            bind_p (eval_p (\<lambda>_. j_value J req ''params'' (j_object J []))) (\<lambda>params.
            bind_p (eval_p (\<lambda>_. j_dump J ident)) (\<lambda>_.
            bind_p (rpc_dispatch C J m params) (\<lambda>result.
              eval_p (\<lambda>_. rpc_response J ident result))))))"

text \<open>The two handlers of \<open>handleRpc\<close>; the response they build is dumped outside the \<open>try\<close>.\<close>

definition rpc_failure :: "'j json_api \<Rightarrow> 'j \<Rightarrow> exn \<Rightarrow> ('s, string) proc" where
  "rpc_failure J ident e =
     eval_p (\<lambda>_. case e of
         JsonParseError m \<Rightarrow> j_dump J (errorResponse J PARSE_ERROR (''JSON parse error: '' @ m) ident)
       | _ \<Rightarrow> j_dump J (errorResponse J INTERNAL_ERROR (''Internal error: '' @ what e) ident))"

definition request_id :: "'j json_api \<Rightarrow> 'j \<Rightarrow> 'j result" where
  "request_id J req = (if j_contains J req ''id'' then j_index J req ''id'' else Inr (j_null J))"

definition handleRpc :: "crypto_api \<Rightarrow> 'j json_api \<Rightarrow> string \<Rightarrow> (('d, 'j) node, string) proc" where
  "handleRpc C J body =
     (case bind_e (j_parse J body) (\<lambda>req. bind_e (request_id J req) (\<lambda>ident. Inr (req, ident))) of
        Inl e \<Rightarrow> rescue (rpc_failure J (j_null J)) e
      | Inr (req, ident) \<Rightarrow> catch_p (rpc_answer C J req ident) (rpc_failure J ident))"

end
