(* ===== verification/Rpc_Properties.thy ===== *)
theory Rpc_Properties
  imports Rpc Node_Properties
begin

text \<open>
  The properties of the RPC server: what each method answers, which errors are reported under
  which code, and that nothing but a submission changes the node. The first section evaluates the
  building blocks on JSON objects.
\<close>

section \<open>Requests and responses as JSON\<close>

text \<open>A request as clients write it, and its answer by a node.\<close>

definition request :: "'j json_api \<Rightarrow> string \<Rightarrow> 'j \<Rightarrow> 'j \<Rightarrow> 'j" where
  "request J m params ident =
     j_object J [(''jsonrpc'', j_string J ''2.0''), (''method'', j_string J m), (''params'', params), (''id'', ident)]"

definition rpc_call ::
  "crypto_api \<Rightarrow> 'j json_api \<Rightarrow> string \<Rightarrow> 'j \<Rightarrow> 'j \<Rightarrow> (('d, 'j) node, string) proc" where
  "rpc_call C J m params ident = handleRpc C J (j_text J (request J m params ident))"

lemma request_plain:
  "ascii m \<Longrightarrow> json_plain J params \<Longrightarrow> json_plain J ident \<Longrightarrow> json_plain J (request J m params ident)"
  unfolding request_def by (intro plain_object) (auto intro: plain_string)

lemma successResponse_plain:
  "json_plain J result \<Longrightarrow> json_plain J ident \<Longrightarrow> json_plain J (successResponse J result ident)"
  unfolding successResponse_def by (intro plain_object) (auto intro: plain_string)

lemma errorResponse_plain:
  assumes "- (2 ^ 31) \<le> code" and "code < 0" and "ascii m" and "json_plain J ident"
  shows "json_plain J (errorResponse J code m ident)"
proof -
  have "json_plain J (j_object J [(''code'', j_int J code), (''message'', j_string J m)])"
    using assms by (intro plain_object) (auto intro: plain_string plain_int)
  then show ?thesis
    unfolding errorResponse_def using assms by (intro plain_object) (auto intro: plain_string)
qed

lemma quoted_ascii [simp]: "ascii (quoted s) \<longleftrightarrow> ascii s"
  by (auto simp: quoted_def code_of_def)

lemma has_param_object:
  assumes "json_ok J" and "distinct (map fst kvs)"
  shows "has_param J t (j_object J kvs) k = Inr (case map_of kvs k of None \<Rightarrow> False | Some v \<Rightarrow> t v)"
proof (cases "map_of kvs k")
  case None
  then have "k \<notin> fst ` set kvs" by (simp add: map_of_eq_None_iff)
  with None show ?thesis
    using json_contains [OF assms] by (simp add: has_param_def)
next
  case (Some v)
  then have "k \<in> fst ` set kvs" by (force dest: map_of_SomeD)
  then show ?thesis
    using json_contains [OF assms] json_index [OF assms Some] Some by (simp add: has_param_def)
qed

lemma rpc_response_success:
  assumes "json_ok J" and "distinct (map fst kvs)" and "''__rpc_error'' \<notin> fst ` set kvs"
    and "json_plain J (j_object J kvs)" and "json_plain J ident"
  shows "rpc_response J ident (j_object J kvs) = Inr (j_text J (successResponse J (j_object J kvs) ident))"
  using json_contains [OF assms(1,2)] assms(3) json_plain_dump [OF assms(1) successResponse_plain [OF assms(4,5)]]
  by (simp add: rpc_response_def)

lemma rpc_response_error:
  assumes "json_ok J" and "- (2 ^ 31) \<le> code" and "code < 0" and "ascii m" and "json_plain J ident"
  shows "rpc_response J ident (rpc_error J code m) = Inr (j_text J (errorResponse J code m ident))"
proof -
  have "j_get_int J (j_int J code) = Inr code" using assms(2,3) by (simp add: json_int [OF assms(1)])
  then show ?thesis
    using json_plain_dump [OF assms(1) errorResponse_plain [OF assms(2-5)]]
    by (simp add: rpc_response_def rpc_error_def json_contains [OF assms(1)] json_index [OF assms(1)] json_leaf [OF assms(1)])
qed

text \<open>A well-formed request is dispatched, and what the method returns is answered under its id.\<close>

lemma rpc_call_run:
  fixes n :: "('d, 'j) node"
  assumes "json_ok J" and "ascii m" and "json_plain J params" and "json_plain J ident"
    and "rpc_dispatch C J m params n = (Inr result, n')" and "rpc_response J ident result = Inr text"
  shows "rpc_call C J m params ident n = (Inr text, n')"
proof -
  have "j_parse J (j_text J (request J m params ident)) = Inr (request J m params ident)"
    by (rule json_parse_text [OF assms(1) request_plain [OF assms(2-4)]])
  moreover have "request_id J (request J m params ident) = Inr ident"
    by (simp add: request_id_def request_def json_contains [OF assms(1)] json_index [OF assms(1)])
  moreover have "has_param J (j_is_string J) (request J m params ident) ''method'' = Inr True"
    by (simp add: request_def has_param_object [OF assms(1)] json_leaf [OF assms(1)])
  moreover have "j_index J (request J m params ident) ''method'' = Inr (j_string J m)"
      "j_value J (request J m params ident) ''params'' (j_object J []) = Inr params"
    by (simp_all add: request_def json_index [OF assms(1)] json_value [OF assms(1)])
  ultimately show ?thesis
    using json_plain_dump [OF assms(1,4)] assms(5,6)
    by (simp add: rpc_call_def handleRpc_def rpc_answer_def proc_simps json_leaf [OF assms(1)])
qed

lemma rpc_call_success:
  fixes n :: "('d, 'j) node"
  assumes "json_ok J" and "ascii m" and "json_plain J params" and "json_plain J ident"
    and "rpc_dispatch C J m params n = (Inr (j_object J [(k, v)]), n')" and "ascii k" and "json_plain J v" and "k \<noteq> ''__rpc_error''"
  shows "rpc_call C J m params ident n = (Inr (j_text J (successResponse J (j_object J [(k, v)]) ident)), n')"
proof (rule rpc_call_run [OF assms(1-5)])
  have "json_plain J (j_object J [(k, v)])" using assms(6,7) by (intro plain_object) auto
  then show "rpc_response J ident (j_object J [(k, v)]) = Inr (j_text J (successResponse J (j_object J [(k, v)]) ident))"
    using assms by (intro rpc_response_success) simp_all
qed

section \<open>Queries\<close>

definition address_params :: "'j json_api \<Rightarrow> string \<Rightarrow> 'j" where
  "address_params J h = j_object J [(''address'', j_string J h)]"

definition index_params :: "'j json_api \<Rightarrow> u64 \<Rightarrow> 'j" where
  "index_params J i = j_object J [(''index'', j_uint J i)]"

definition transaction_params :: "'j json_api \<Rightarrow> 'j \<Rightarrow> 'j" where
  "transaction_params J j = j_object J [(''transaction'', j)]"

lemmas params_defs = address_params_def index_params_def transaction_params_def

lemma params_plain:
  "ascii h \<Longrightarrow> json_plain J (address_params J h)" "json_plain J (index_params J i)"
  "json_plain J j \<Longrightarrow> json_plain J (transaction_params J j)"
  by (auto simp: params_defs intro!: plain_object intro: plain_string plain_uint)

lemma address_params_access:
  assumes "json_ok J"
  shows "has_param J (j_is_string J) (address_params J h) ''address'' = Inr True"
    and "address_param J (address_params J h) = fromHexFixed 20 h"
  by (simp_all add: address_params_def address_param_def has_param_object [OF assms] json_index [OF assms] json_leaf [OF assms])

lemma index_params_access:
  assumes "json_ok J"
  shows "has_param J (j_is_uint J) (index_params J i) ''index'' = Inr True"
    and "bind_e (j_index J (index_params J i) ''index'') (j_get_uint J) = Inr i"
  by (simp_all add: index_params_def has_param_object [OF assms] json_index [OF assms] json_leaf [OF assms])

lemma transaction_params_access:
  assumes "json_ok J" and "j_is_object J j"
  shows "has_param J (j_is_object J) (transaction_params J j) ''transaction'' = Inr True"
    and "bind_e (j_index J (transaction_params J j) ''transaction'') f = f j"
  using assms(2) by (simp_all add: transaction_params_def has_param_object [OF assms(1)] json_index [OF assms(1)])

text \<open>C37. What the queries answer: for every address of 20 bytes its balance and its nonce, the
  chain's height, the sizes of pool and peer list, and for every index of the chain the block there,
  each under the request's id and without any effect on the node.\<close>

theorem rpc_queries_answered:
  fixes n :: "('d, 'j) node"
  assumes "json_ok J" and "json_plain J ident" and "length a = 20" and "json_plain J params"
    and "unat i < length (bc_chain (nd_chain n))"
  shows "rpc_call C J ''getBalance'' (address_params J (toHex a)) ident n =
       (Inr (j_text J (successResponse J (j_object J [(''balance'', j_uint J (node_getBalance n a))]) ident)), n) \<and>
     rpc_call C J ''getNonce'' (address_params J (toHex a)) ident n =
       (Inr (j_text J (successResponse J (j_object J [(''nonce'', j_uint J (node_getNonce n a))]) ident)), n) \<and>
     rpc_call C J ''getChainHeight'' params ident n =
       (Inr (j_text J (successResponse J (j_object J [(''height'', j_uint J (node_getChainHeight n))]) ident)), n) \<and>
     rpc_call C J ''getBlockByIndex'' (index_params J i) ident n =
       (Inr (j_text J (successResponse J (j_object J [(''block'', blockToJson J (bc_chain (nd_chain n) ! unat i))]) ident)), n) \<and>
     rpc_call C J ''getMempoolSize'' params ident n =
       (Inr (j_text J (successResponse J (j_object J [(''size'', j_uint J (word_of_nat (pool_size (nd_mempool n))))]) ident)), n) \<and>
     rpc_call C J ''getPeerCount'' params ident n =
       (Inr (j_text J (successResponse J (j_object J [(''count'', j_uint J (word_of_nat (length (net_peers (nd_network n)))))]) ident)), n)"
proof (intro conjI)
  note ok = rpc_call_success [OF assms(1) _ _ assms(2)]
  note access = address_params_access [OF assms(1)] index_params_access [OF assms(1)]
  show "rpc_call C J ''getBalance'' (address_params J (toHex a)) ident n =
       (Inr (j_text J (successResponse J (j_object J [(''balance'', j_uint J (node_getBalance n a))]) ident)), n)"
    using assms(3) by (intro ok) (simp_all add: params_plain plain_uint rpc_dispatch_def handleGetBalance_def proc_simps access)
  show "rpc_call C J ''getNonce'' (address_params J (toHex a)) ident n =
       (Inr (j_text J (successResponse J (j_object J [(''nonce'', j_uint J (node_getNonce n a))]) ident)), n)"
    using assms(3) by (intro ok) (simp_all add: params_plain plain_uint rpc_dispatch_def handleGetNonce_def proc_simps access)
  show "rpc_call C J ''getChainHeight'' params ident n =
       (Inr (j_text J (successResponse J (j_object J [(''height'', j_uint J (node_getChainHeight n))]) ident)), n)"
    by (intro ok assms(4)) (simp_all add: plain_uint rpc_dispatch_def handleGetChainHeight_def proc_simps)
  show "rpc_call C J ''getBlockByIndex'' (index_params J i) ident n =
       (Inr (j_text J (successResponse J (j_object J [(''block'', blockToJson J (bc_chain (nd_chain n) ! unat i))]) ident)), n)"
    using assms(5)
    by (intro ok)
      (simp_all add: params_plain blockToJson_plain rpc_dispatch_def handleGetBlockByIndex_def proc_simps access
        node_getBlock_def getBlock_def)
  show "rpc_call C J ''getMempoolSize'' params ident n =
       (Inr (j_text J (successResponse J (j_object J [(''size'', j_uint J (word_of_nat (pool_size (nd_mempool n))))]) ident)), n)"
    by (intro ok assms(4)) (simp_all add: plain_uint rpc_dispatch_def handleGetMempoolSize_def node_getMempoolSize_def proc_simps)
  show "rpc_call C J ''getPeerCount'' params ident n =
       (Inr (j_text J (successResponse J (j_object J [(''count'', j_uint J (word_of_nat (length (net_peers (nd_network n)))))]) ident)), n)"
    by (intro ok assms(4)) (simp_all add: plain_uint rpc_dispatch_def handleGetPeerCount_def node_getPeerCount_def peerCount_def proc_simps)
qed

theorem rpc_queries_answered_witness:
  "\<exists>n :: ((string \<times> string) list, jval) node.
     fst (rpc_call demo_crypto demo_json ''getBalance'' (address_params demo_json (toHex sample_alice)) (JUint 7) n) =
       Inr (enc (successResponse demo_json (JObj [(''balance'', JUint 100)]) (JUint 7)))"
proof -
  obtain n :: "((string \<times> string) list, jval) node"
    where n: "st_accounts (nd_state n) = st_accounts sample_state" "length (bc_chain (nd_chain n)) = 1"
    by (rule sample_node)
  have plain: "json_plain demo_json (JUint 7)" using plain_uint [of demo_json 7] by simp
  have "length sample_alice = 20" by simp
  moreover have "unat (0 :: u64) < length (bc_chain (nd_chain n))" using n(2) by simp
  ultimately have "rpc_call demo_crypto demo_json ''getBalance'' (address_params demo_json (toHex sample_alice)) (JUint 7) n =
      (Inr (j_text demo_json (successResponse demo_json
         (j_object demo_json [(''balance'', j_uint demo_json (node_getBalance n sample_alice))]) (JUint 7))), n)"
    using rpc_queries_answered [OF demo_json_ok plain _ plain] by blast
  then show ?thesis
    using n(1) by (intro exI [of _ n])
      (simp add: node_getBalance_def getBalance_def accountExists_def sample_state_accounts)
qed

section \<open>Errors\<close>

text \<open>The body is answered by an error of the given code, and the node stays as it is.\<close>

definition rpc_fails ::
  "crypto_api \<Rightarrow> 'j json_api \<Rightarrow> string \<Rightarrow> int \<Rightarrow> 'j \<Rightarrow> ('d, 'j) node \<Rightarrow> bool" where
  "rpc_fails C J body code ident n \<longleftrightarrow>
     (\<exists>msg. handleRpc C J body n = (Inr (j_text J (errorResponse J code msg ident)), n))"

definition rpc_methods :: "string list" where
  "rpc_methods =
     [''getBalance'', ''getNonce'', ''getChainHeight'', ''getBlockByIndex'', ''getMempoolSize'', ''getPeerCount'',
      ''submitTransaction'']"

text \<open>A handler that reports an error, and one that throws.\<close>

lemma rpc_call_error:
  fixes n :: "('d, 'j) node"
  assumes "json_ok J" and "ascii m" and "json_plain J params" and "json_plain J ident"
    and "rpc_dispatch C J m params n = (Inr (rpc_error J code msg), n)" and "ascii msg" and "- (2 ^ 31) \<le> code" and "code < 0"
  shows "rpc_fails C J (j_text J (request J m params ident)) code ident n"
  using rpc_call_run [OF assms(1-5) rpc_response_error [OF assms(1,7,8,6,4)]]
  unfolding rpc_fails_def rpc_call_def by blast

lemma rpc_failure_run:
  assumes "json_ok J" and "json_plain J ident" and "ascii (what e)" and "\<forall>m. e \<noteq> BadAccess m"
  shows "\<exists>msg. rescue (rpc_failure J ident) e n =
    (Inr (j_text J (errorResponse J (case e of JsonParseError _ \<Rightarrow> PARSE_ERROR | _ \<Rightarrow> INTERNAL_ERROR) msg ident)), n)"
proof -
  have dump: "j_dump J (errorResponse J code msg ident) = Inr (j_text J (errorResponse J code msg ident))"
    if "ascii msg" "- (2 ^ 31) \<le> code" "code < 0" for code msg
    using that by (intro json_plain_dump [OF assms(1)] errorResponse_plain assms(2)) simp_all
  show ?thesis
    using assms(3,4) by (cases e) (auto simp: rescue_def rpc_failure_def proc_simps dump rpc_codes code_of_def)
qed

lemma rpc_parse_fails:
  assumes "json_ok J" and "j_parse J body = Inl (JsonParseError m)" and "ascii m"
  shows "rpc_fails C J body PARSE_ERROR (j_null J) n"
  using rpc_failure_run [OF assms(1) plain_null, of "JsonParseError m" n] assms(2,3)
  by (simp add: rpc_fails_def handleRpc_def)

lemma rpc_no_method:
  fixes n :: "('d, 'j) node"
  assumes J: "json_ok J" and "json_plain J ident" and plain: "json_plain J (j_object J kvs)"
    and dist: "distinct (map fst kvs)" and ident: "map_of kvs ''id'' = Some ident"
    and bad: "\<forall>v. map_of kvs ''method'' = Some v \<longrightarrow> \<not> j_is_string J v"
  shows "rpc_fails C J (j_text J (j_object J kvs)) INVALID_REQUEST ident n"
proof -
  have "''id'' \<in> fst ` set kvs" using map_of_SomeD [OF ident] by force
  then have "request_id J (j_object J kvs) = Inr ident"
    using json_index [OF J dist ident] by (simp add: request_id_def json_contains [OF J dist])
  moreover have "has_param J (j_is_string J) (j_object J kvs) ''method'' = Inr False"
    using bad by (simp add: has_param_object [OF J dist] split: option.split)
  moreover have "j_dump J (errorResponse J INVALID_REQUEST (''Missing or invalid '' @ quoted ''method'' @ '' field'') ident) =
      Inr (j_text J (errorResponse J INVALID_REQUEST (''Missing or invalid '' @ quoted ''method'' @ '' field'') ident))"
    using assms(2) by (intro json_plain_dump [OF J] errorResponse_plain) (simp_all add: rpc_codes code_of_def)
  ultimately show ?thesis
    using json_parse_text [OF J plain]
    by (auto simp: rpc_fails_def handleRpc_def rpc_answer_def bind_eval_p proc_simps simp del: append.simps)
qed

lemma rpc_unknown_method:
  fixes n :: "('d, 'j) node"
  assumes "json_ok J" and "json_plain J ident" and "ascii m" and "json_plain J params" and "m \<notin> set rpc_methods"
  shows "rpc_fails C J (j_text J (request J m params ident)) METHOD_NOT_FOUND ident n"
proof (rule rpc_call_error [OF assms(1,3,4,2)])
  show "rpc_dispatch C J m params n = (Inr (rpc_error J METHOD_NOT_FOUND (''Unknown method: '' @ m)), n)"
    using assms(5) by (simp add: rpc_dispatch_def rpc_methods_def proc_simps)
qed (use assms(3) in \<open>simp_all add: rpc_codes code_of_def\<close>)

lemma rpc_balance_params:
  fixes n :: "('d, 'j) node"
  assumes J: "json_ok J" and "json_plain J ident" and plain: "json_plain J (j_object J kvs)" and dist: "distinct (map fst kvs)"
    and bad: "\<forall>v. map_of kvs ''address'' = Some v \<longrightarrow> \<not> j_is_string J v"
  shows "rpc_fails C J (j_text J (request J ''getBalance'' (j_object J kvs) ident)) INVALID_PARAMS ident n"
proof (rule rpc_call_error [OF J _ plain assms(2)])
  have "has_param J (j_is_string J) (j_object J kvs) ''address'' = Inr False"
    using bad by (simp add: has_param_object [OF J dist] split: option.split)
  then show "rpc_dispatch C J ''getBalance'' (j_object J kvs) n = (Inr (rpc_error J INVALID_PARAMS (''Missing '' @ quoted ''address'' @ '' parameter'')), n)"
    unfolding rpc_dispatch_def handleGetBalance_def by (simp add: bind_eval_p proc_simps)
qed (simp_all add: rpc_codes code_of_def)

lemma rpc_nonce_params:
  fixes n :: "('d, 'j) node"
  assumes J: "json_ok J" and "json_plain J ident" and plain: "json_plain J (j_object J kvs)" and dist: "distinct (map fst kvs)"
    and bad: "\<forall>v. map_of kvs ''address'' = Some v \<longrightarrow> \<not> j_is_string J v"
  shows "rpc_fails C J (j_text J (request J ''getNonce'' (j_object J kvs) ident)) INVALID_PARAMS ident n"
proof (rule rpc_call_error [OF J _ plain assms(2)])
  have "has_param J (j_is_string J) (j_object J kvs) ''address'' = Inr False"
    using bad by (simp add: has_param_object [OF J dist] split: option.split)
  then show "rpc_dispatch C J ''getNonce'' (j_object J kvs) n = (Inr (rpc_error J INVALID_PARAMS (''Missing '' @ quoted ''address'' @ '' parameter'')), n)"
    unfolding rpc_dispatch_def handleGetNonce_def by (simp add: bind_eval_p proc_simps)
qed (simp_all add: rpc_codes code_of_def)

lemma rpc_index_params:
  fixes n :: "('d, 'j) node"
  assumes J: "json_ok J" and "json_plain J ident" and plain: "json_plain J (j_object J kvs)" and dist: "distinct (map fst kvs)"
    and bad: "\<forall>v. map_of kvs ''index'' = Some v \<longrightarrow> \<not> j_is_uint J v"
  shows "rpc_fails C J (j_text J (request J ''getBlockByIndex'' (j_object J kvs) ident)) INVALID_PARAMS ident n"
proof (rule rpc_call_error [OF J _ plain assms(2)])
  have "has_param J (j_is_uint J) (j_object J kvs) ''index'' = Inr False"
    using bad by (simp add: has_param_object [OF J dist] split: option.split)
  then show "rpc_dispatch C J ''getBlockByIndex'' (j_object J kvs) n = (Inr (rpc_error J INVALID_PARAMS (''Missing or invalid '' @ quoted ''index'' @ '' parameter'')), n)"
    unfolding rpc_dispatch_def handleGetBlockByIndex_def by (simp add: bind_eval_p proc_simps)
qed (simp_all add: rpc_codes code_of_def)

lemma rpc_transaction_params:
  fixes n :: "('d, 'j) node"
  assumes J: "json_ok J" and "json_plain J ident" and plain: "json_plain J (j_object J kvs)" and dist: "distinct (map fst kvs)"
    and bad: "\<forall>v. map_of kvs ''transaction'' = Some v \<longrightarrow> \<not> j_is_object J v"
  shows "rpc_fails C J (j_text J (request J ''submitTransaction'' (j_object J kvs) ident)) INVALID_PARAMS ident n"
proof (rule rpc_call_error [OF J _ plain assms(2)])
  have "has_param J (j_is_object J) (j_object J kvs) ''transaction'' = Inr False"
    using bad by (simp add: has_param_object [OF J dist] split: option.split)
  then show "rpc_dispatch C J ''submitTransaction'' (j_object J kvs) n = (Inr (rpc_error J INVALID_PARAMS (''Missing '' @ quoted ''transaction'' @ '' object'')), n)"
    unfolding rpc_dispatch_def handleSubmitTransaction_def by (simp add: bind_eval_p proc_simps)
qed (simp_all add: rpc_codes code_of_def)

lemma rpc_bad_index:
  fixes n :: "('d, 'j) node"
  assumes "json_ok J" and "json_plain J ident" and "length (bc_chain (nd_chain n)) \<le> unat i"
  shows "rpc_fails C J (j_text J (request J ''getBlockByIndex'' (index_params J i) ident)) INVALID_PARAMS ident n"
proof -
  obtain msg where "node_getBlock n i = Inl (OutOfRange msg)" "ascii msg"
    using assms(3) by (simp add: node_getBlock_def getBlock_def ascii_digits to_string_nat_all_digits code_of_def)
  then show ?thesis
    by (intro rpc_call_error [OF assms(1) _ params_plain(2) assms(2), where msg = "''Block not found: '' @ msg"])
      (simp_all add: rpc_dispatch_def handleGetBlockByIndex_def proc_simps index_params_access [OF assms(1)] rpc_codes code_of_def)
qed

lemma rpc_bad_transaction:
  fixes n :: "('d, 'j) node"
  assumes "json_ok J" and "json_plain J ident" and "json_plain J j" and "j_is_object J j"
    and "transactionFromJson J j = Inl e" and "ascii (what e)" and "\<forall>m. e \<noteq> BadAccess m"
  shows "rpc_fails C J (j_text J (request J ''submitTransaction'' (transaction_params J j) ident)) INVALID_PARAMS ident n"
proof -
  have "rescue (\<lambda>e. ret (rpc_error J INVALID_PARAMS (''Invalid transaction: '' @ what e))) e n =
      (Inr (rpc_error J INVALID_PARAMS (''Invalid transaction: '' @ what e)), n)"
    using assms(7) by (cases e) (auto simp: rescue_def proc_simps)
  then show ?thesis
    using assms(5,6)
    by (intro rpc_call_error [OF assms(1) _ params_plain(3) [OF assms(3)] assms(2), where msg = "''Invalid transaction: '' @ what e"])
      (simp_all add: rpc_dispatch_def handleSubmitTransaction_def proc_simps transaction_params_access [OF assms(1,4)]
        rpc_codes code_of_def)
qed

text \<open>An exception of a handler is an internal error.\<close>

lemma rpc_bad_address:
  fixes n :: "('d, 'j) node"
  assumes J: "json_ok J" and "json_plain J ident" and "ascii h" and "length (fromHex h) \<noteq> 20"
    and m: "m = ''getBalance'' \<or> m = ''getNonce''"
  shows "rpc_fails C J (j_text J (request J m (address_params J h) ident)) INTERNAL_ERROR ident n"
proof -
  let ?req = "request J m (address_params J h) ident"
  obtain msg where msg: "fromHexFixed 20 h = Inl (InvalidArgument msg)" "ascii msg"
    using assms(4) by (simp add: fromHexFixed_def Let_def ascii_digits to_string_nat_all_digits code_of_def)
  have ascii: "ascii m" using m by (auto simp: code_of_def)
  have "j_parse J (j_text J ?req) = Inr ?req"
    by (rule json_parse_text [OF J request_plain [OF ascii params_plain(1) [OF assms(3)] assms(2)]])
  moreover have "request_id J ?req = Inr ident"
    by (simp add: request_id_def request_def json_contains [OF J] json_index [OF J])
  moreover have "has_param J (j_is_string J) ?req ''method'' = Inr True" "j_index J ?req ''method'' = Inr (j_string J m)"
      "j_value J ?req ''params'' (j_object J []) = Inr (address_params J h)"
    by (simp_all add: request_def has_param_object [OF J] json_leaf [OF J] json_index [OF J] json_value [OF J])
  moreover have "rpc_dispatch C J m (address_params J h) n = (Inl (InvalidArgument msg), n)"
    using m msg(1) address_params_access [OF J, of h]
    by (auto simp: rpc_dispatch_def handleGetBalance_def handleGetNonce_def proc_simps)
  ultimately have "handleRpc C J (j_text J ?req) n = rescue (rpc_failure J ident) (InvalidArgument msg) n"
    using json_plain_dump [OF J assms(2)] by (simp add: handleRpc_def rpc_answer_def proc_simps json_leaf [OF J])
  then show ?thesis
    using rpc_failure_run [OF J assms(2), of "InvalidArgument msg" n] msg(2) by (simp add: rpc_fails_def)
qed

text \<open>C23. Errors are told apart by their codes: a body that does not parse is answered with -32700
  under the id null; an object without a string \<open>method\<close> with -32600, an unknown method with -32601,
  a missing parameter, one of the wrong type, an index beyond the chain and a transaction that cannot
  be decoded with -32602; an address that is not 20 bytes of hex, however, with -32603. All but the
  first carry the id of the request, and none of them changes the node.\<close>

theorem rpc_errors_coded:
  fixes n :: "('d, 'j) node"
  assumes "json_ok J" and "json_plain J ident" and "json_plain J (j_object J kvs)" and "distinct (map fst kvs)"
  shows "(\<forall>body m. j_parse J body = Inl (JsonParseError m) \<longrightarrow> ascii m \<longrightarrow> rpc_fails C J body (- 32700) (j_null J) n) \<and>
     (map_of kvs ''id'' = Some ident \<longrightarrow> (\<forall>v. map_of kvs ''method'' = Some v \<longrightarrow> \<not> j_is_string J v) \<longrightarrow>
        rpc_fails C J (j_text J (j_object J kvs)) (- 32600) ident n) \<and>
     (\<forall>m. ascii m \<longrightarrow> m \<notin> set rpc_methods \<longrightarrow>
        rpc_fails C J (j_text J (request J m (j_object J kvs) ident)) (- 32601) ident n) \<and>
     ((\<forall>v. map_of kvs ''address'' = Some v \<longrightarrow> \<not> j_is_string J v) \<longrightarrow>
        rpc_fails C J (j_text J (request J ''getBalance'' (j_object J kvs) ident)) (- 32602) ident n \<and>
        rpc_fails C J (j_text J (request J ''getNonce'' (j_object J kvs) ident)) (- 32602) ident n) \<and>
     ((\<forall>v. map_of kvs ''index'' = Some v \<longrightarrow> \<not> j_is_uint J v) \<longrightarrow>
        rpc_fails C J (j_text J (request J ''getBlockByIndex'' (j_object J kvs) ident)) (- 32602) ident n) \<and>
     ((\<forall>v. map_of kvs ''transaction'' = Some v \<longrightarrow> \<not> j_is_object J v) \<longrightarrow>
        rpc_fails C J (j_text J (request J ''submitTransaction'' (j_object J kvs) ident)) (- 32602) ident n) \<and>
     (\<forall>i. length (bc_chain (nd_chain n)) \<le> unat i \<longrightarrow>
        rpc_fails C J (j_text J (request J ''getBlockByIndex'' (index_params J i) ident)) (- 32602) ident n) \<and>
     (\<forall>e. transactionFromJson J (j_object J kvs) = Inl e \<longrightarrow> ascii (what e) \<longrightarrow> (\<forall>m. e \<noteq> BadAccess m) \<longrightarrow>
        rpc_fails C J (j_text J (request J ''submitTransaction'' (transaction_params J (j_object J kvs)) ident)) (- 32602) ident n) \<and>
     (\<forall>h. ascii h \<longrightarrow> length (fromHex h) \<noteq> 20 \<longrightarrow>
        rpc_fails C J (j_text J (request J ''getBalance'' (address_params J h) ident)) (- 32603) ident n \<and>
        rpc_fails C J (j_text J (request J ''getNonce'' (address_params J h) ident)) (- 32603) ident n)"
  by (intro conjI allI impI; fold rpc_codes)
    (rule rpc_parse_fails rpc_no_method rpc_unknown_method rpc_balance_params rpc_nonce_params rpc_index_params
      rpc_transaction_params rpc_bad_index rpc_bad_transaction rpc_bad_address;
      (rule assms json_leaf(7) [OF assms(1)] | assumption | simp)+)+

theorem rpc_errors_coded_witness:
  "\<forall>n :: ((string \<times> string) list, jval) node.
     rpc_fails demo_crypto demo_json (enc (request demo_json ''mine'' (JObj []) (JUint 7))) (- 32601) (JUint 7) n"
proof
  fix n :: "((string \<times> string) list, jval) node"
  have plain: "json_plain demo_json (JUint 7)" using plain_uint [of demo_json 7] by simp
  have object: "json_plain demo_json (j_object demo_json [])" by (rule plain_object) simp_all
  have "ascii ''mine''" "''mine'' \<notin> set rpc_methods" by (simp_all add: code_of_def rpc_methods_def)
  then show "rpc_fails demo_crypto demo_json (enc (request demo_json ''mine'' (JObj []) (JUint 7))) (- 32601) (JUint 7) n"
    using rpc_errors_coded [OF demo_json_ok plain object, of demo_crypto n] by simp
qed

section \<open>Effects on the node\<close>

text \<open>Everything but the submission only reads.\<close>

definition reads :: "('s, 'a) proc \<Rightarrow> bool" where
  "reads m \<longleftrightarrow> (\<forall>s. keeps (\<lambda>t. t = s) m)"

lemma readsD: "reads m \<Longrightarrow> snd (m s) = s"
  by (simp add: reads_def keeps_def)

lemma reads_simps [intro]:
  "reads (ret x)" "reads (throw e)" "reads (eval_p f)" "reads (read_p g)"
  "reads m \<Longrightarrow> (\<And>x. reads (k x)) \<Longrightarrow> reads (bind_p m k)"
  by (auto simp: reads_def)

lemma reads_rescue [intro]: "(\<And>e. reads (h e)) \<Longrightarrow> reads (rescue h e)"
  unfolding reads_def by (intro allI keeps_rescue) blast

lemma reads_failure [intro]: "reads (rpc_failure J ident e)"
  unfolding rpc_failure_def by (rule reads_simps)

lemma queries_read:
  "reads (handleGetBalance J params)" "reads (handleGetNonce J params)" "reads (handleGetChainHeight J)"
  "reads (handleGetBlockByIndex J params)" "reads (handleGetMempoolSize J)" "reads (handleGetPeerCount J)"
  unfolding handleGetBalance_def handleGetNonce_def handleGetChainHeight_def handleGetBlockByIndex_def
    handleGetMempoolSize_def handleGetPeerCount_def
  by (auto intro!: reads_simps)

lemma catch_reads_snd: "(\<And>e. reads (h e)) \<Longrightarrow> snd (catch_p m h s) = snd (m s)"
  by (auto simp: catch_p_def split: prod.splits sum.splits intro!: readsD reads_rescue)

lemma bind_reads_snd: "(\<And>x. reads (k x)) \<Longrightarrow> snd (bind_p m k s) = snd (m s)"
  by (auto simp: bind_p_def split: prod.splits sum.splits intro!: readsD)

lemma handleSubmitTransaction_state:
  "snd (handleSubmitTransaction C J params n) = n \<or>
   (\<exists>j tx. j_index J params ''transaction'' = Inr j \<and> transactionFromJson J j = Inr tx \<and>
      snd (handleSubmitTransaction C J params n) = snd (submitTransaction C J tx n))"
proof -
  have body: "snd (bind_p (submitTransaction C J tx) (\<lambda>accepted.
        if accepted then ret (j_object J [(''accepted'', j_bool J True), (''hash'', j_string J (toHex_array (tx_hash tx)))])
        else read_p (\<lambda>n. j_object J [(''accepted'', j_bool J False), (''error'', j_string J (node_getLastError n))])) n) =
      snd (submitTransaction C J tx n)" for tx
    by (rule bind_reads_snd) (auto intro: reads_simps)
  have catch: "snd (catch_p m (\<lambda>e. ret (rpc_error J INVALID_PARAMS (''Invalid transaction: '' @ what e))) n) = snd (m n)"
    for m :: "(('a, 'b) node, 'b) proc"
    by (rule catch_reads_snd) (rule reads_simps)
  show ?thesis
    unfolding handleSubmitTransaction_def
    by (auto simp: bind_eval_p run_simps catch body simp del: append.simps split: sum.splits)
qed

lemma rpc_answer_state:
  "snd (rpc_answer C J req ident n) = n \<or>
   (\<exists>m params. bind_e (j_index J req ''method'') (j_get_string J) = Inr m \<and> j_value J req ''params'' (j_object J []) = Inr params \<and>
      snd (rpc_answer C J req ident n) = snd (rpc_dispatch C J m params n))"
proof -
  have k: "snd (bind_p (rpc_dispatch C J m params) (\<lambda>result. eval_p (\<lambda>_. rpc_response J ident result)) n) =
      snd (rpc_dispatch C J m params n)" for m params
    by (rule bind_reads_snd) (rule reads_simps)
  obtain r1 r2 r3 r4 where r: "has_param J (j_is_string J) req ''method'' = r1"
      "bind_e (j_index J req ''method'') (j_get_string J) = r2" "j_value J req ''params'' (j_object J []) = r3"
      "j_dump J ident = r4" by blast
  show ?thesis
    unfolding rpc_answer_def bind_eval_p r
    by (cases r1; cases r2; cases r3; cases r4) (simp_all add: run_simps bind_eval_p r k del: append.simps)
qed

text \<open>What a request leaves of the node.\<close>

lemma handleRpc_state:
  fixes n :: "('d, 'j) node"
  obtains (same) "snd (handleRpc C J body n) = n"
  | (submitted) req params j tx where "j_parse J body = Inr req"
      "bind_e (j_index J req ''method'') (j_get_string J) = Inr ''submitTransaction''"
      "j_value J req ''params'' (j_object J []) = Inr params" "j_index J params ''transaction'' = Inr j"
      "transactionFromJson J j = Inr tx" "snd (handleRpc C J body n) = snd (submitTransaction C J tx n)"
proof (cases "bind_e (j_parse J body) (\<lambda>req. bind_e (request_id J req) (\<lambda>ident. Inr (req, ident)))")
  case (Inl e)
  then have "snd (handleRpc C J body n) = n" by (auto simp: handleRpc_def intro!: readsD)
  then show ?thesis by (rule same)
next
  case (Inr p)
  then obtain req ident where p: "j_parse J body = Inr req" "p = (req, ident)" by auto
  have n': "snd (handleRpc C J body n) = snd (rpc_answer C J req ident n)"
    using Inr p by (auto simp: handleRpc_def intro!: catch_reads_snd)
  consider "snd (rpc_answer C J req ident n) = n"
    | (run) m params where "bind_e (j_index J req ''method'') (j_get_string J) = Inr m"
        "j_value J req ''params'' (j_object J []) = Inr params"
        "snd (rpc_answer C J req ident n) = snd (rpc_dispatch C J m params n)"
    using rpc_answer_state [of C J req ident n] by metis
  then show ?thesis
  proof cases
    case 1
    then show ?thesis using n' by (intro same) simp
  next
    case (run m params)
    show ?thesis
    proof (cases "m = ''submitTransaction''")
      case True
      then have "snd (rpc_dispatch C J m params n) = snd (handleSubmitTransaction C J params n)"
        by (simp add: rpc_dispatch_def)
      then show ?thesis
        using handleSubmitTransaction_state [of C J params n] n' run True p(1) same submitted by metis
    next
      case False
      then have "reads (rpc_dispatch C J m params)"
        unfolding rpc_dispatch_def by (simp add: queries_read reads_simps(1))
      from readsD [OF this] have "snd (handleRpc C J body n) = n" using n' run(3) by simp
      then show ?thesis by (rule same)
    qed
  qed
qed

text \<open>C24. The RPC interface changes a node in one way only: whatever the body, the node afterwards is
  the node before it, or that node after one submission, with the transaction the body carries; and
  when that transaction's nonce can be counted up, the node's run goes on.\<close>

theorem rpc_changes_by_submission:
  fixes n :: "('d, 'j) node"
  assumes "node_run C J L n"
  shows "let n' = snd (handleRpc C J body n)
     in n' = n \<or>
        (\<exists>req params j tx. j_parse J body = Inr req \<and> bind_e (j_index J req ''method'') (j_get_string J) = Inr ''submitTransaction'' \<and>
           j_value J req ''params'' (j_object J []) = Inr params \<and> j_index J params ''transaction'' = Inr j \<and>
           transactionFromJson J j = Inr tx \<and> n' = snd (submitTransaction C J tx n) \<and>
           (tx_nonce tx \<noteq> - 1 \<longrightarrow> node_run C J L n'))"
proof (cases rule: handleRpc_state [where C = C and J = J and body = body and n = n])
  case same
  then show ?thesis by (simp add: Let_def)
next
  case (submitted req params j tx)
  have more: "node_run C J L (snd (handleRpc C J body n))" if "tx_nonce tx \<noteq> - 1"
    unfolding submitted(6) using transactionFromJson_wf [OF submitted(5)] that by (intro node_more [OF assms] step_submit)
  show ?thesis
    unfolding Let_def
    by (rule disjI2, rule exI [of _ req], rule exI [of _ params], rule exI [of _ j], rule exI [of _ tx], intro conjI impI)
      (rule submitted | erule more)+
qed

theorem rpc_changes_by_submission_witness:
  "\<exists>n :: ((string \<times> string) list, jval) node. node_run demo_crypto demo_json demo_leveldb n \<and>
     snd (handleRpc demo_crypto demo_json ''?'' n) = n"
proof -
  obtain n :: "((string \<times> string) list, jval) node" where n: "node_run demo_crypto demo_json demo_leveldb n"
    by (rule sample_node)
  have "\<nexists>req. j_parse demo_json ''?'' = Inr req" by (simp add: demo_parse_def)
  then show ?thesis
    using rpc_changes_by_submission [OF n, of "''?''"] n unfolding Let_def by blast
qed

section \<open>Submitting a transaction\<close>

lemma addTransaction_reason_ascii:
  "\<not> fst (addTransaction C J s p tx) \<Longrightarrow> ascii (mp_lastError (snd (addTransaction C J s p tx)))"
  by (auto simp: addTransaction_def Let_def code_of_def split: if_splits)

lemma submitTransaction_run:
  fixes n :: "('d, 'j) node"
  defines "msg \<equiv> \<lambda>J tx. \<lparr>msg_type = NEW_TX, msg_payload = transactionToJson J tx\<rparr>"
  assumes "net_peers (nd_network n) \<noteq> [] \<longrightarrow> (\<exists>frame. serializeMessage J (msg J tx) = Inr frame)"
    and "addTransaction C J (nd_state n) (nd_mempool n) tx = (ok, p)"
  shows "submitTransaction C J tx n =
    (if ok then (Inr True, n\<lparr>nd_mempool := p, nd_network := (nd_network n)\<lparr>net_posted :=
        net_posted (nd_network n) @ map (\<lambda>q. (q, msg J tx)) (net_peers (nd_network n))\<rparr>\<rparr>)
     else (Inr False, n\<lparr>nd_mempool := p, nd_lastError := mp_lastError p\<rparr>))"
proof -
  have sent: "broadcast J (msg J tx) None (nd_network n) =
      (Inr (), (nd_network n)\<lparr>net_posted := net_posted (nd_network n) @ map (\<lambda>q. (q, msg J tx)) (net_peers (nd_network n))\<rparr>)"
  proof (cases "net_peers (nd_network n) = []")
    case True
    then show ?thesis by (simp add: broadcast_def proc_simps)
  next
    case False
    with assms(2) obtain frame where "serializeMessage J (msg J tx) = Inr frame" by blast
    then show ?thesis by (simp add: broadcast_run)
  qed
  have added: "pool_add C J tx n = (Inr ok, n\<lparr>nd_mempool := p\<rparr>)" using assms(3) by (simp add: pool_add_def)
  show ?thesis
  proof (cases ok)
    case True
    with added sent show ?thesis
      by (simp add: submitTransaction_def bind_p_cases run_simps on_network_def on_part_def msg_def)
  next
    case False
    with added show ?thesis
      by (simp add: submitTransaction_def bind_p_cases run_simps)
  qed
qed

text \<open>The answer to a submission follows the pool's decision; what the pool takes is in it.\<close>

definition submission_answer :: "'j json_api \<Rightarrow> transaction \<Rightarrow> bool \<Rightarrow> mempool \<Rightarrow> (string \<times> 'j) list" where
  "submission_answer J tx ok p =
     (if ok then [(''accepted'', j_bool J True), (''hash'', j_string J (toHex (tx_hash tx)))]
      else [(''accepted'', j_bool J False), (''error'', j_string J (mp_lastError p))])"

lemma rpc_submission_call:
  fixes n :: "('d, 'j) node"
  assumes "json_ok J" and "json_plain J ident" and "wf_transaction tx"
    and "net_peers (nd_network n) \<noteq> [] \<longrightarrow>
      (\<exists>frame. serializeMessage J \<lparr>msg_type = NEW_TX, msg_payload = transactionToJson J tx\<rparr> = Inr frame)"
    and add: "addTransaction C J (nd_state n) (nd_mempool n) tx = (ok, p)"
  shows "rpc_call C J ''submitTransaction'' (transaction_params J (transactionToJson J tx)) ident n =
    (Inr (j_text J (successResponse J (j_object J (submission_answer J tx ok p)) ident)), snd (submitTransaction C J tx n))"
proof -
  note run = submitTransaction_run [OF assms(4) add]
  let ?answer = "submission_answer J tx ok p"
  have obj: "j_is_object J (transactionToJson J tx)" unfolding transactionToJson_def by (rule json_leaf(7) [OF assms(1)])
  have dispatch: "rpc_dispatch C J ''submitTransaction'' (transaction_params J (transactionToJson J tx)) n =
      (Inr (j_object J ?answer), snd (submitTransaction C J tx n))"
    using transactionFromJson_toJson [OF assms(1,3)] run
    by (cases ok) (simp_all add: rpc_dispatch_def handleSubmitTransaction_def bind_eval_p proc_simps catch_p_def bind_p_cases
        transaction_params_access [OF assms(1) obj] node_getLastError_def submission_answer_def)
  have reason: "\<not> ok \<Longrightarrow> ascii (mp_lastError p)"
    using addTransaction_reason_ascii [of C J "nd_state n" "nd_mempool n" tx] add by simp
  have "json_plain J (j_object J ?answer)"
    using reason unfolding submission_answer_def
    by (cases ok) (auto intro!: plain_object plain_bool plain_string simp: code_of_def)
  then have answer: "rpc_response J ident (j_object J ?answer) = Inr (j_text J (successResponse J (j_object J ?answer) ident))"
    by (intro rpc_response_success [OF assms(1) _ _ _ assms(2)]) (simp_all add: submission_answer_def)
  have "ascii ''submitTransaction''" by (simp add: code_of_def)
  then show ?thesis
    using rpc_call_run [OF assms(1) _ params_plain(3) [OF transactionToJson_plain] assms(2) dispatch answer] by blast
qed

lemma added_is_pooled:
  assumes "addTransaction C J s p tx = (True, p')"
  shows "contains p' (tx_hash tx)"
proof (cases rule: addTransaction_cases [of C J s p tx])
  case accept
  with assms show ?thesis by (simp add: contains_def admit_def update_conv')
qed (use assms in simp)

text \<open>C25. A submitted transaction is answered by what the pool decides: if the pool takes it, the
  answer is \<open>accepted\<close> with its hash, it is in the pool, and it is announced to every peer once; if
  not, the answer carries the pool's reason, and pool contents and network are as before.\<close>

theorem rpc_submission:
  fixes n :: "('d, 'j) node"
  assumes "json_ok J" and "json_plain J ident" and "wf_transaction tx"
    and "net_peers (nd_network n) \<noteq> [] \<longrightarrow>
      (\<exists>frame. serializeMessage J \<lparr>msg_type = NEW_TX, msg_payload = transactionToJson J tx\<rparr> = Inr frame)"
  shows "let (r, n') = rpc_call C J ''submitTransaction'' (transaction_params J (transactionToJson J tx)) ident n;
      added = addTransaction C J (nd_state n) (nd_mempool n) tx;
      answer = (if fst added then [(''accepted'', j_bool J True), (''hash'', j_string J (toHex (tx_hash tx)))]
                else [(''accepted'', j_bool J False), (''error'', j_string J (mp_lastError (snd added)))])
    in r = Inr (j_text J (successResponse J (j_object J answer) ident)) \<and>
       (fst added \<longleftrightarrow> verifyTransaction C J tx \<and> \<not> contains (nd_mempool n) (tx_hash tx) \<and> admissible (nd_state n) (nd_mempool n) tx) \<and>
       (if fst added
        then contains (nd_mempool n') (tx_hash tx) \<and>
          net_posted (nd_network n') = net_posted (nd_network n) @
            map (\<lambda>q. (q, \<lparr>msg_type = NEW_TX, msg_payload = transactionToJson J tx\<rparr>)) (net_peers (nd_network n))
        else pooled (nd_mempool n') = pooled (nd_mempool n) \<and> nd_network n' = nd_network n)"
proof -
  obtain ok p where add: "addTransaction C J (nd_state n) (nd_mempool n) tx = (ok, p)" by fastforce
  note run = submitTransaction_run [OF assms(4) add]
  note call = rpc_submission_call [OF assms add, unfolded submission_answer_def]
  have iff: "ok \<longleftrightarrow> verifyTransaction C J tx \<and> \<not> contains (nd_mempool n) (tx_hash tx) \<and> admissible (nd_state n) (nd_mempool n) tx"
    using addTransaction_fst [of C J "nd_state n" "nd_mempool n" tx] add by simp
  have pooled_now: "contains p (tx_hash tx)" if ok
    using that add by (auto intro: added_is_pooled)
  have pooled_before: "pooled p = pooled (nd_mempool n)" if "\<not> ok"
    using that add addTransaction_reject [of C J "nd_state n" "nd_mempool n" tx] by (auto simp: pooled_def)
  show ?thesis
  proof (cases ok)
    case True
    then show ?thesis using call run iff [THEN iffD1] pooled_now by (simp add: add)
  next
    case False
    then show ?thesis using call run pooled_before iff [symmetric] by (simp add: add)
  qed
qed

theorem rpc_submission_witness:
  "\<exists>(n :: ((string \<times> string) list, jval) node) tx. tx_amount tx = 30 \<and>
     contains (nd_mempool (snd (rpc_call demo_crypto demo_json ''submitTransaction''
       (transaction_params demo_json (transactionToJson demo_json tx)) (JUint 7) n))) (tx_hash tx)"
proof -
  obtain n :: "((string \<times> string) list, jval) node"
    where n: "st_accounts (nd_state n) = st_accounts sample_state" "nd_mempool n = newMempool" "nd_network n = freshNetwork"
    by (rule sample_node)
  obtain tx where tx: "createTransaction demo_crypto demo_json 5 sample_keys sample_bob 30 0 = Inr tx"
      "verifyTransaction demo_crypto demo_json tx" "tx_sender tx = sample_alice" "tx_amount tx = 30" "tx_nonce tx = 0"
    by (rule sample_created_tx)
  have plain: "json_plain demo_json (JUint 7)" using plain_uint [of demo_json 7] by simp
  have wf: "wf_transaction tx"
    using createTransaction_wf [OF demo_crypto_ok sample_keys_ok _ tx(1)] by (simp add: sample_bob_def sized_def)
  have "admissible (nd_state n) (nd_mempool n) tx"
    using n tx by (simp add: admissible_def getPendingNonce_def getPendingBalance_def newMempool_def
        query_accounts sample_state_accounts known_def balance_of_def nonce_of_def)
  then have "fst (addTransaction demo_crypto demo_json (nd_state n) (nd_mempool n) tx)"
    using tx(2) n(2) by (simp add: addTransaction_fst contains_def newMempool_def)
  moreover have "net_peers (nd_network n) = []" using n(3) by (simp add: freshNetwork_def)
  ultimately have "contains (nd_mempool (snd (rpc_call demo_crypto demo_json ''submitTransaction''
       (transaction_params demo_json (transactionToJson demo_json tx)) (JUint 7) n))) (tx_hash tx)"
    using rpc_submission [OF demo_json_ok plain wf, of n demo_crypto] by (simp add: Let_def split_beta)
  with tx(4) show ?thesis by blast
qed

end
