(* ===== verification/Files.thy ===== *)
theory Files
  imports Effects "HOL-Library.AList"
begin

text \<open>
  The file system is the operating system's: a record of the calls the sources make through
  \<open>std::ifstream\<close>, \<open>std::ofstream\<close> and \<open>std::filesystem\<close>, over the state \<open>'f\<close> of the disk.
  \<open>fs_read\<close> gives a file's content when it can be opened, \<open>fs_write\<close> the disk after a file
  was created or truncated and written, when it can be opened. \<open>files_ok\<close> is what the
  documentation promises of a directory without links; writing to an open file is taken not to
  fail, which the sources do not check.
\<close>

record 'f files_api =
  fs_read :: "'f \<Rightarrow> string \<Rightarrow> string option"
  fs_write :: "'f \<Rightarrow> string \<Rightarrow> string \<Rightarrow> 'f option"
  fs_mkdirs :: "'f \<Rightarrow> string \<Rightarrow> string + 'f"

definition file_name :: "string \<Rightarrow> bool" where
  "file_name m \<longleftrightarrow> m \<noteq> [] \<and> CHR ''/'' \<notin> set m"

definition files_ok :: "'f files_api \<Rightarrow> bool" where
  "files_ok F \<longleftrightarrow>
     (\<forall>f p c f'. fs_write F f p c = Some f' \<longrightarrow> fs_read F f' p = Some c) \<and>
     (\<forall>f d m k c f'. file_name m \<and> file_name k \<and> m \<noteq> k \<and> fs_write F f (d @ ''/'' @ m) c = Some f' \<longrightarrow>
        fs_read F f' (d @ ''/'' @ k) = fs_read F f (d @ ''/'' @ k)) \<and>
     (\<forall>f d f'. fs_mkdirs F f d = Inr f' \<longrightarrow> fs_read F f' = fs_read F f)"

text \<open>A disk on which every file can be created.\<close>

definition files_writable :: "'f files_api \<Rightarrow> bool" where
  "files_writable F \<longleftrightarrow> files_ok F \<and> (\<forall>f p c. \<exists>f'. fs_write F f p c = Some f') \<and> (\<forall>f d. \<exists>f'. fs_mkdirs F f d = Inr f')"

lemma files_laws:
  assumes "files_ok F"
  shows "fs_write F f p c = Some f' \<Longrightarrow> fs_read F f' p = Some c"
    and "file_name m \<Longrightarrow> file_name k \<Longrightarrow> m \<noteq> k \<Longrightarrow> fs_write F f (d @ ''/'' @ m) c = Some f' \<Longrightarrow>
      fs_read F f' (d @ ''/'' @ k) = fs_read F f (d @ ''/'' @ k)"
    and "fs_mkdirs F f d = Inr f' \<Longrightarrow> fs_read F f' = fs_read F f"
  using assms unfolding files_ok_def by blast+

section \<open>What the sources do with files\<close>

text \<open>\<open>std::filesystem::path(p).parent_path()\<close>: without the last component and the slashes before it.\<close>

definition parent_path :: "string \<Rightarrow> string" where
  "parent_path p =
     (let dir = rev (dropWhile (\<lambda>c. c \<noteq> CHR ''/'') (rev p));
          stem = rev (dropWhile (\<lambda>c. c = CHR ''/'') (rev dir))
      in if stem = [] \<and> dir \<noteq> [] then ''/'' else stem)"

definition create_directories :: "'f files_api \<Rightarrow> string \<Rightarrow> ('f, unit) proc" where
  "create_directories F d =
     (\<lambda>f. case fs_mkdirs F f d of Inl msg \<Rightarrow> (Inl (RuntimeError msg), f) | Inr f' \<Rightarrow> (Inr (), f'))"

text \<open>\<open>std::ofstream\<close>, the check that it is open, and one \<open>operator<<\<close>; and with the parent directories first.\<close>

definition write_file :: "'f files_api \<Rightarrow> string \<Rightarrow> string \<Rightarrow> ('f, unit) proc" where
  "write_file F path text =
     (\<lambda>f. case fs_write F f path text of
            None \<Rightarrow> (Inl (RuntimeError (''Failed to open file for writing: '' @ path)), f)
          | Some f' \<Rightarrow> (Inr (), f'))"

definition create_parents :: "'f files_api \<Rightarrow> string \<Rightarrow> ('f, unit) proc" where
  "create_parents F path =
     (let parentDir = parent_path path in if parentDir = [] then ret () else create_directories F parentDir)"

lemma create_parents_reads:
  "files_ok F \<Longrightarrow> create_parents F path f = (Inr (), f') \<Longrightarrow> fs_read F f' = fs_read F f"
  by (auto simp: create_parents_def create_directories_def Let_def proc_simps files_laws split: if_splits sum.splits)

lemma write_file_Inr: "write_file F path text f = (Inr (), f') \<Longrightarrow> fs_write F f path text = Some f'"
  by (simp add: write_file_def split: option.splits)

lemma writable_runs:
  assumes "files_writable F"
  shows "\<exists>f'. create_directories F d f = (Inr (), f')" and "\<exists>f'. create_parents F path f = (Inr (), f')"
    and "\<exists>f'. write_file F path text f = (Inr (), f')"
proof -
  have d: "\<exists>f'. create_directories F d f = (Inr (), f')" for d f
    using assms unfolding files_writable_def create_directories_def by (metis sum.simps(6))
  then show "\<exists>f'. create_directories F d f = (Inr (), f')" .
  show "\<exists>f'. create_parents F path f = (Inr (), f')"
    using d by (simp add: create_parents_def Let_def proc_simps)
  show "\<exists>f'. write_file F path text f = (Inr (), f')"
    using assms unfolding files_writable_def write_file_def by (metis option.simps(5))
qed

section \<open>A concrete instance\<close>

text \<open>A disk as an association list from paths to contents.\<close>

definition demo_files :: "(string \<times> string) list files_api" where
  "demo_files = \<lparr>fs_read = map_of, fs_write = (\<lambda>f p c. Some (AList.update p c f)), fs_mkdirs = (\<lambda>f d. Inr f)\<rparr>"

lemma demo_files_writable: "files_writable demo_files"
  by (simp add: files_writable_def files_ok_def demo_files_def update_conv')

end
