(* ===== verification/Key_Files.thy ===== *)
theory Key_Files
  imports Keys Files
begin

text \<open>
  \<open>crypto/key_io.hpp\<close> and \<open>crypto/key_io.cpp\<close>: saving and loading private key files on a disk.
  The lemmas give the round trip through the disk and what a save leaves alone.
\<close>

definition savePrivateKey :: "'f files_api \<Rightarrow> private_key \<Rightarrow> string \<Rightarrow> ('f, unit) proc" where
  "savePrivateKey F key path =
     then_p (create_parents F path) (write_file F path (savePrivateKey_text key))"

definition loadKeyFile :: "'f files_api \<Rightarrow> string \<Rightarrow> 'f \<Rightarrow> private_key result" where
  "loadKeyFile F path f = loadPrivateKey (fs_read F f path) path"

lemma savePrivateKey_Inr:
  assumes "files_ok F" and "savePrivateKey F key path f = (Inr (), f')"
  obtains f1 where "fs_read F f1 = fs_read F f" and "fs_write F f1 path (savePrivateKey_text key) = Some f'"
proof -
  obtain f1 where "create_parents F path f = (Inr (), f1)" "write_file F path (savePrivateKey_text key) f1 = (Inr (), f')"
    using assms(2) unfolding savePrivateKey_def by (rule then_p_InrE)
  then show ?thesis by (intro that create_parents_reads [OF assms(1)] write_file_Inr)
qed

lemma savePrivateKey_loads:
  assumes "files_ok F" and "savePrivateKey F key path f = (Inr (), f')" and "length key = 32"
  shows "loadKeyFile F path f' = Inr key"
proof -
  obtain f1 where "fs_write F f1 path (savePrivateKey_text key) = Some f'"
    by (rule savePrivateKey_Inr [OF assms(1,2)])
  then have "fs_read F f' path = Some (savePrivateKey_text key)" by (rule files_laws(1) [OF assms(1)])
  then show ?thesis by (simp add: loadKeyFile_def loadPrivateKey_saved [OF assms(3)])
qed

text \<open>Other files of the directory are left alone.\<close>

lemma savePrivateKey_frame:
  assumes "files_ok F" and "savePrivateKey F key (d @ ''/'' @ m) f = (Inr (), f')"
    and "file_name m" and "file_name k" and "m \<noteq> k"
  shows "fs_read F f' (d @ ''/'' @ k) = fs_read F f (d @ ''/'' @ k)"
proof -
  obtain f1 where "fs_read F f1 = fs_read F f" "fs_write F f1 (d @ ''/'' @ m) (savePrivateKey_text key) = Some f'"
    by (rule savePrivateKey_Inr [OF assms(1,2)])
  then show ?thesis using files_laws(2) [OF assms(1,3-5)] by metis
qed

lemma savePrivateKey_total: "files_writable F \<Longrightarrow> \<exists>f'. savePrivateKey F key path f = (Inr (), f')"
  using writable_runs(2,3) unfolding savePrivateKey_def then_p_def by (metis bind_p_Inr)

end
