(* ===== verification/Genesis_Config.thy ===== *)
theory Genesis_Config
  imports Key_Files Json_Demo State_Manager
begin

text \<open>
  \<open>net/genesis_config.hpp\<close> and \<open>net/genesis_config.cpp\<close>: the genesis configuration, what nodes
  derive from it, and its file. The lemmas give the round trip through the disk and the error
  of a missing file.
\<close>

record authority_info =
  auth_address :: address
  auth_publicKey :: public_key
  auth_allocation :: u64

record genesis_config =
  gc_genesisValidatorPrivateKey :: private_key
  gc_authorities :: "authority_info list"

definition getAuthorityAddresses :: "genesis_config \<Rightarrow> address list" where
  "getAuthorityAddresses config = map auth_address (gc_authorities config)"

text \<open>\<open>allocs[address] = allocation\<close>, in order.\<close>

definition getAllocations :: "genesis_config \<Rightarrow> (address \<times> u64) list" where
  "getAllocations config =
     fold (\<lambda>auth. AList.update (auth_address auth) (auth_allocation auth)) (gc_authorities config) []"

definition getGenesisValidatorKeys :: "crypto_api \<Rightarrow> genesis_config \<Rightarrow> key_pair result" where
  "getGenesisValidatorKeys C config =
     bind_e (derivePublicKey C (gc_genesisValidatorPrivateKey config)) (\<lambda>pk.
       Inr \<lparr>privateKey = gc_genesisValidatorPrivateKey config, publicKey = pk\<rparr>)"

definition authorityToJson :: "'j json_api \<Rightarrow> authority_info \<Rightarrow> 'j" where
  "authorityToJson J auth =
     j_object J
       [(''address'', j_string J (toHex_array (auth_address auth))),
        (''publicKey'', j_string J (toHex_array (auth_publicKey auth))),
        (''allocation'', j_uint J (auth_allocation auth))]"

definition genesisToJson :: "'j json_api \<Rightarrow> genesis_config \<Rightarrow> 'j" where
  "genesisToJson J config =
     j_object J
       [(''genesisValidatorPrivateKey'', j_string J (toHex_array (gc_genesisValidatorPrivateKey config))),
        (''authorities'', j_array J (map (authorityToJson J) (gc_authorities config)))]"

text \<open>The file is opened, and truncated, before the text is dumped; a dump that throws leaves it empty.\<close>

definition saveGenesisConfig ::
  "'f files_api \<Rightarrow> 'j json_api \<Rightarrow> genesis_config \<Rightarrow> string \<Rightarrow> ('f, unit) proc" where
  "saveGenesisConfig F J config path =
     then_p (create_parents F path)
       (let j = genesisToJson J config
        in if j_utf8 J j then write_file F path (j_text_indent J 2 j @ ''\<newline>'')
           else then_p (write_file F path []) (throw (JsonError ''type_error.316'')))"

definition authorityFromJson :: "'j json_api \<Rightarrow> 'j \<Rightarrow> authority_info result" where
  "authorityFromJson J a =
     bind_e (bind_e (at_string J a ''address'') (fromHexFixed 20)) (\<lambda>addr.
     bind_e (bind_e (at_string J a ''publicKey'') (fromHexFixed 33)) (\<lambda>pk.
     bind_e (at_uint J a ''allocation'') (\<lambda>allocation.
       Inr \<lparr>auth_address = addr, auth_publicKey = pk, auth_allocation = allocation\<rparr>)))"

definition genesisFromJson :: "'j json_api \<Rightarrow> 'j \<Rightarrow> genesis_config result" where
  "genesisFromJson J j =
     bind_e (bind_e (at_string J j ''genesisValidatorPrivateKey'') (fromHexFixed 32)) (\<lambda>key.
     bind_e (j_at J j ''authorities'') (\<lambda>array.
     bind_e (map_e (authorityFromJson J) (j_elems J array)) (\<lambda>auths.
       Inr \<lparr>gc_genesisValidatorPrivateKey = key, gc_authorities = auths\<rparr>)))"

definition loadGenesisConfig :: "'f files_api \<Rightarrow> 'j json_api \<Rightarrow> string \<Rightarrow> 'f \<Rightarrow> genesis_config result" where
  "loadGenesisConfig F J path f =
     (case fs_read F f path of
        None \<Rightarrow> Inl (RuntimeError (''Failed to open genesis config: '' @ path))
      | Some content \<Rightarrow> bind_e (j_read J content) (genesisFromJson J))"

section \<open>Facts\<close>

definition wf_authority :: "authority_info \<Rightarrow> bool" where
  "wf_authority auth \<longleftrightarrow> sized 20 (auth_address auth) \<and> sized 33 (auth_publicKey auth)"

definition wf_genesis :: "genesis_config \<Rightarrow> bool" where
  "wf_genesis config \<longleftrightarrow> sized 32 (gc_genesisValidatorPrivateKey config) \<and> list_all wf_authority (gc_authorities config)"

lemma authorityToJson_plain: "json_plain J (authorityToJson J auth)"
  unfolding authorityToJson_def by (intro plain_object) (auto intro: plain_uint plain_string)

lemma genesisToJson_plain: "json_plain J (genesisToJson J config)"
proof -
  have "json_plain J (j_array J (map (authorityToJson J) (gc_authorities config)))"
    by (rule plain_array) (auto intro: authorityToJson_plain)
  then show ?thesis
    unfolding genesisToJson_def by (intro plain_object) (auto intro: plain_string)
qed

lemma authority_codec:
  assumes "json_ok J"
  shows "codec (authorityToJson J) (authorityFromJson J) wf_authority"
proof
  fix auth assume "wf_authority auth"
  then show "authorityFromJson J (authorityToJson J auth) = Inr auth"
    by (simp add: authorityFromJson_def authorityToJson_def at_string_object [OF assms] at_uint_object [OF assms]
        wf_authority_def sized_def)
qed

lemma genesisFromJson_toJson:
  assumes "json_ok J" and "wf_genesis config"
  shows "genesisFromJson J (genesisToJson J config) = Inr config"
proof -
  have "map_e (authorityFromJson J) (map (authorityToJson J) (gc_authorities config)) = Inr (gc_authorities config)"
    using assms(2) by (intro codec.map_e_dec_enc [OF authority_codec [OF assms(1)]]) (simp add: wf_genesis_def list_all_iff)
  then show ?thesis
    using assms(2)
    by (simp add: genesisFromJson_def genesisToJson_def at_string_object [OF assms(1)] json_at [OF assms(1)]
        json_leaf [OF assms(1)] wf_genesis_def sized_def)
qed

lemma saveGenesisConfig_run:
  assumes "json_ok J"
  shows "saveGenesisConfig F J config path =
    then_p (create_parents F path) (write_file F path (j_text_indent J 2 (genesisToJson J config) @ ''\<newline>''))"
  using assms genesisToJson_plain [of J config]
  by (simp add: saveGenesisConfig_def Let_def json_ok_def json_parse_ok_def)

lemma saveGenesisConfig_Inr:
  assumes "files_ok F" and "json_ok J" and "saveGenesisConfig F J config path f = (Inr (), f')"
  obtains f1 where "fs_read F f1 = fs_read F f"
    and "fs_write F f1 path (j_text_indent J 2 (genesisToJson J config) @ ''\<newline>'') = Some f'"
proof -
  obtain f1 where "create_parents F path f = (Inr (), f1)"
      "write_file F path (j_text_indent J 2 (genesisToJson J config) @ ''\<newline>'') f1 = (Inr (), f')"
    using assms(3) unfolding saveGenesisConfig_run [OF assms(2)] by (rule then_p_InrE)
  then show ?thesis by (intro that create_parents_reads [OF assms(1)] write_file_Inr)
qed

lemma saveGenesisConfig_loads:
  assumes "files_ok F" and "json_ok J" and "saveGenesisConfig F J config path f = (Inr (), f')" and "wf_genesis config"
  shows "loadGenesisConfig F J path f' = Inr config"
proof -
  obtain f1 where "fs_write F f1 path (j_text_indent J 2 (genesisToJson J config) @ ''\<newline>'') = Some f'"
    by (rule saveGenesisConfig_Inr [OF assms(1-3)])
  then have "fs_read F f' path = Some (j_text_indent J 2 (genesisToJson J config) @ ''\<newline>'')"
    by (rule files_laws(1) [OF assms(1)])
  moreover have "j_read J (j_text_indent J 2 (genesisToJson J config) @ ''\<newline>'') = Inr (genesisToJson J config)"
    using genesisToJson_plain [of J config] unfolding genesisToJson_def by (rule json_read_text [OF assms(2)])
  ultimately show ?thesis
    by (simp add: loadGenesisConfig_def genesisFromJson_toJson [OF assms(2,4)])
qed

lemma saveGenesisConfig_frame:
  assumes "files_ok F" and "json_ok J" and "saveGenesisConfig F J config (d @ ''/'' @ m) f = (Inr (), f')"
    and "file_name m" and "file_name k" and "m \<noteq> k"
  shows "fs_read F f' (d @ ''/'' @ k) = fs_read F f (d @ ''/'' @ k)"
proof -
  obtain f1 where "fs_read F f1 = fs_read F f"
      "fs_write F f1 (d @ ''/'' @ m) (j_text_indent J 2 (genesisToJson J config) @ ''\<newline>'') = Some f'"
    by (rule saveGenesisConfig_Inr [OF assms(1-3)])
  then show ?thesis using files_laws(2) [OF assms(1,4-6)] by metis
qed

lemma saveGenesisConfig_total:
  assumes "files_writable F" and "json_ok J"
  shows "\<exists>f'. saveGenesisConfig F J config path f = (Inr (), f')"
  using writable_runs(2,3) [OF assms(1)] unfolding saveGenesisConfig_run [OF assms(2)] then_p_def by (metis bind_p_Inr)

end
