(* ===== verification/Cli.thy ===== *)
theory Cli
  imports Genesis_Config Node
begin

text \<open>
  \<open>main.cpp\<close>: the arguments, the bootstrap mode that writes keys and genesis file, the start of
  a node from these files, the offline signing mode and the choice between them. The disk is
  the state of the procedures; the databases of nodes are a function from directories to
  contents. The lines the modes log and the sleeping main loop's clock are left out; the value of a
  mode is its exit code, or the node the main loop then drives. \<open>main\<close> itself is in \<open>Entry_Point\<close>.
\<close>

record cli_args =
  arg_generateKeys :: bool
  arg_signTx :: bool
  arg_showHelp :: bool
  arg_count :: int
  arg_genesisDir :: string
  arg_index :: int
  arg_port :: u16
  arg_rpcPort :: u16
  arg_dataDir :: string
  arg_peers :: "(string \<times> u16) list"
  arg_keyFile :: string
  arg_toAddress :: string
  arg_amount :: u64
  arg_nonce :: u64

definition defaultArgs :: cli_args where
  "defaultArgs =
     \<lparr>arg_generateKeys = False, arg_signTx = False, arg_showHelp = False, arg_count = 3,
      arg_genesisDir = ''genesis/'', arg_index = - 1, arg_port = 9000, arg_rpcPort = 8545,
      arg_dataDir = [], arg_peers = [], arg_keyFile = [], arg_toAddress = [], arg_amount = 0, arg_nonce = 0\<rparr>"

section \<open>Arguments\<close>

text \<open>The tokens \<open>getline(stream, token, ',')\<close> yields one after the other.\<close>

function tokens :: "string \<Rightarrow> string list" where
  "tokens s =
     (if s = [] then []
      else takeWhile (\<lambda>c. c \<noteq> CHR '','') s # tokens (drop 1 (dropWhile (\<lambda>c. c \<noteq> CHR '','') s)))"
  by pat_completeness auto
termination
proof (relation "measure length")
  fix s :: string assume "s \<noteq> []"
  moreover have "length (dropWhile (\<lambda>c. c \<noteq> CHR '','') s) \<le> length s" by (rule length_dropWhile_le)
  ultimately show "(drop 1 (dropWhile (\<lambda>c. c \<noteq> CHR '','') s), s) \<in> measure length"
    by (cases s) auto
qed simp

declare tokens.simps [simp del]

text \<open>\<open>static_cast<uint16_t>(std::stoi(s))\<close>.\<close>

definition parse_port :: "string \<Rightarrow> u16 result" where
  "parse_port s = bind_e (stoi s) (\<lambda>i. Inr (word_of_int i))"

text \<open>The part before the last colon and the port after it; no colon, no peer.\<close>

definition parse_peer :: "string \<Rightarrow> (string \<times> u16) option result" where
  "parse_peer token =
     (case dropWhile (\<lambda>c. c \<noteq> CHR '':'') (rev token) of
        [] \<Rightarrow> Inr None
      | _ # host \<Rightarrow>
          bind_e (parse_port (rev (takeWhile (\<lambda>c. c \<noteq> CHR '':'') (rev token)))) (\<lambda>p. Inr (Some (rev host, p))))"

definition parse_peers :: "string \<Rightarrow> (string \<times> u16) list result" where
  "parse_peers s = bind_e (map_e parse_peer (tokens s)) (\<lambda>ps. Inr (concat (map (case_option [] (\<lambda>p. [p])) ps)))"

text \<open>An option that takes a value: what it does to the arguments, or nothing if it is no such option.\<close>

definition value_option :: "string \<Rightarrow> (string \<Rightarrow> cli_args \<Rightarrow> cli_args result) option" where
  "value_option arg =
     (if arg = ''--count'' then Some (\<lambda>v a. bind_e (stoi v) (\<lambda>i. Inr (a\<lparr>arg_count := i\<rparr>)))
      else if arg = ''--genesis-dir'' then Some (\<lambda>v a. Inr (a\<lparr>arg_genesisDir := v\<rparr>))
      else if arg = ''--index'' then Some (\<lambda>v a. bind_e (stoi v) (\<lambda>i. Inr (a\<lparr>arg_index := i\<rparr>)))
      else if arg = ''--port'' then Some (\<lambda>v a. bind_e (parse_port v) (\<lambda>p. Inr (a\<lparr>arg_port := p\<rparr>)))
      else if arg = ''--data-dir'' then Some (\<lambda>v a. Inr (a\<lparr>arg_dataDir := v\<rparr>))
      else if arg = ''--rpc-port'' then Some (\<lambda>v a. bind_e (parse_port v) (\<lambda>p. Inr (a\<lparr>arg_rpcPort := p\<rparr>)))
      else if arg = ''--key'' then Some (\<lambda>v a. Inr (a\<lparr>arg_keyFile := v\<rparr>))
      else if arg = ''--to'' then Some (\<lambda>v a. Inr (a\<lparr>arg_toAddress := v\<rparr>))
      else if arg = ''--amount'' then Some (\<lambda>v a. bind_e (stoull v) (\<lambda>n. Inr (a\<lparr>arg_amount := n\<rparr>)))
      else if arg = ''--nonce'' then Some (\<lambda>v a. bind_e (stoull v) (\<lambda>n. Inr (a\<lparr>arg_nonce := n\<rparr>)))
      else if arg = ''--peers''
      then Some (\<lambda>v a. bind_e (parse_peers v) (\<lambda>ps. Inr (a\<lparr>arg_peers := arg_peers a @ ps\<rparr>)))
      else None)"

text \<open>
  The loop over \<open>argv[1..]\<close>, the state being the lines logged: an unknown argument, or an option
  without its value, is skipped with a warning.
\<close>

definition log_line :: "string \<Rightarrow> (string list, unit) proc" where
  "log_line line = modify_p (\<lambda>lines. lines @ [line])"

fun parse_loop :: "cli_args \<Rightarrow> string list \<Rightarrow> (string list, cli_args) proc" where
  "parse_loop a [] = ret a"
| "parse_loop a (arg # rest) =
     (if arg = ''--help'' \<or> arg = ''-h'' then parse_loop (a\<lparr>arg_showHelp := True\<rparr>) rest
      else if arg = ''--generate-keys'' then parse_loop (a\<lparr>arg_generateKeys := True\<rparr>) rest
      else if arg = ''--sign-tx'' then parse_loop (a\<lparr>arg_signTx := True\<rparr>) rest
      else (case value_option arg of
              None \<Rightarrow> then_p (log_line (''Unknown argument: '' @ arg)) (parse_loop a rest)
            | Some set_value \<Rightarrow>
                (case rest of
                   [] \<Rightarrow> then_p (log_line (''Unknown argument: '' @ arg)) (ret a)
                 | v # rest' \<Rightarrow> bind_p (eval_p (\<lambda>_. set_value v a)) (\<lambda>a'. parse_loop a' rest'))))"

definition parseArgs :: "string list \<Rightarrow> (string list, cli_args) proc" where
  "parseArgs argv = parse_loop defaultArgs argv"

section \<open>Paths\<close>

definition keyPath :: "string \<Rightarrow> nat \<Rightarrow> string" where
  "keyPath genesisDir i = genesisDir @ ''/'' @ (''auth'' @ to_string_nat i @ ''.key'')"

definition configPath :: "string \<Rightarrow> string" where
  "configPath genesisDir = genesisDir @ ''/'' @ ''genesis.json''"

definition dataPath :: "cli_args \<Rightarrow> nat \<Rightarrow> string" where
  "dataPath args i = (if arg_dataDir args = [] then ''data/node'' @ to_string_nat i else arg_dataDir args)"

section \<open>Mode 1: generating keys\<close>

text \<open>
  The loop over the authorities: a key is generated, registered with 10000 coins and saved; the
  first one is the genesis validator's. \<open>at i\<close> is the position of the random source when key
  \<open>i\<close> is generated; \<open>None\<close> is a generation that never ends.
\<close>

fun generate_loop ::
  "crypto_api \<Rightarrow> 'f files_api \<Rightarrow> (nat \<Rightarrow> nat) \<Rightarrow> string \<Rightarrow> nat list \<Rightarrow> genesis_config \<Rightarrow> 'f \<Rightarrow>
     (genesis_config result \<times> 'f) option" where
  "generate_loop C F at dir [] config f = Some (Inr config, f)"
| "generate_loop C F at dir (i # is) config f =
     (case generateKeyPair C (at i) of
        None \<Rightarrow> None
      | Some (Inl e) \<Rightarrow> Some (Inl e, f)
      | Some (Inr kp) \<Rightarrow>
          let auth = \<lparr>auth_address = deriveAddress C (publicKey kp), auth_publicKey = publicKey kp, auth_allocation = 10000\<rparr>;
              config1 = config\<lparr>gc_authorities := gc_authorities config @ [auth]\<rparr>
          in (case savePrivateKey F (privateKey kp) (keyPath dir i) f of
                (Inl e, f') \<Rightarrow> Some (Inl e, f')
              | (Inr _, f') \<Rightarrow>
                  generate_loop C F at dir is
                    (if i = 0 then config1\<lparr>gc_genesisValidatorPrivateKey := privateKey kp\<rparr> else config1) f'))"

text \<open>
  \<open>GenesisConfig config;\<close> leaves the key array uninitialised: \<open>unset\<close> is whatever it holds. The
  mode's exit code is 0.
\<close>

definition runGenerateKeys ::
  "crypto_api \<Rightarrow> 'j json_api \<Rightarrow> 'f files_api \<Rightarrow> (nat \<Rightarrow> nat) \<Rightarrow> private_key \<Rightarrow> cli_args \<Rightarrow> 'f \<Rightarrow>
     (int result \<times> 'f) option" where
  "runGenerateKeys C J F at unset args f =
     (case create_directories F (arg_genesisDir args) f of
        (Inl e, f1) \<Rightarrow> Some (Inl e, f1)
      | (Inr _, f1) \<Rightarrow>
          (case generate_loop C F at (arg_genesisDir args) [0..<nat (arg_count args)]
                  \<lparr>gc_genesisValidatorPrivateKey = unset, gc_authorities = []\<rparr> f1 of
             None \<Rightarrow> None
           | Some (Inl e, f2) \<Rightarrow> Some (Inl e, f2)
           | Some (Inr config, f2) \<Rightarrow>
               Some (then_p (saveGenesisConfig F J config (configPath (arg_genesisDir args))) (ret 0) f2)))"

section \<open>Mode 2: running a node\<close>

text \<open>An exit code, or the started node with the peers to connect to.\<close>

datatype ('d, 'j) outcome = Exit int | Running "('d, 'j) node" "(string \<times> u16) list"

definition runNode ::
  "crypto_api \<Rightarrow> 'j json_api \<Rightarrow> 'd leveldb_api \<Rightarrow> 'f files_api \<Rightarrow> ports_api \<Rightarrow> (string \<Rightarrow> 'd) \<Rightarrow> cli_args \<Rightarrow>
     ('f, ('d, 'j) outcome) proc" where
  "runNode C J L F P databases args =
     bind_p (eval_p (loadGenesisConfig F J (configPath (arg_genesisDir args)))) (\<lambda>genesis.
       if arg_index args < 0 \<or> int (length (gc_authorities genesis)) \<le> arg_index args then ret (Exit 1)
       else
         let i = nat (arg_index args)
         in bind_p (eval_p (loadKeyFile F (keyPath (arg_genesisDir args) i))) (\<lambda>privKey.
            bind_p (eval_p (\<lambda>_. derivePublicKey C privKey)) (\<lambda>pubKey.
              let nodeKeys = \<lparr>privateKey = privKey, publicKey = pubKey\<rparr>
              in if deriveAddress C pubKey \<noteq> auth_address (gc_authorities genesis ! i) then ret (Exit 1)
                 else
                   let dataDir = dataPath args i
                   in then_p (create_directories F dataDir)
                      (bind_p (eval_p (\<lambda>_. getGenesisValidatorKeys C genesis)) (\<lambda>gkeys.
                       bind_p (eval_p (\<lambda>_. newNode C J L P nodeKeys gkeys (getAuthorityAddresses genesis)
                                 (getAllocations genesis) (arg_port args) dataDir (databases dataDir))) (\<lambda>n.
                         ret (Running (snd (node_start n)) (arg_peers args))))))))"

text \<open>
  The main loop calls \<open>produceBlock\<close> until the flag is cleared, here at the given clock
  readings; an exception ends the program.
\<close>

fun main_loop ::
  "crypto_api \<Rightarrow> 'j json_api \<Rightarrow> 'd leveldb_api \<Rightarrow> u64 list \<Rightarrow> (('d, 'j) node, unit) proc" where
  "main_loop C J L [] = ret ()"
| "main_loop C J L (now # nows) = bind_p (produceBlock C J L now) (\<lambda>_. main_loop C J L nows)"

section \<open>Mode 3: signing a transaction\<close>

text \<open>The exit code and the text printed.\<close>

definition runSignTx ::
  "crypto_api \<Rightarrow> 'j json_api \<Rightarrow> 'f files_api \<Rightarrow> u64 \<Rightarrow> cli_args \<Rightarrow> 'f \<Rightarrow> (int \<times> string) result" where
  "runSignTx C J F now args f =
     (if arg_keyFile args = [] then Inr (1, [])
      else if arg_toAddress args = [] then Inr (1, [])
      else if arg_amount args = 0 then Inr (1, [])
      else
        bind_e (loadKeyFile F (arg_keyFile args) f) (\<lambda>privKey.
        bind_e (derivePublicKey C privKey) (\<lambda>pubKey.
        bind_e (fromHexFixed 20 (arg_toAddress args)) (\<lambda>recipient.
        bind_e (createTransaction C J now \<lparr>privateKey = privKey, publicKey = pubKey\<rparr> recipient
                  (arg_amount args) (arg_nonce args)) (\<lambda>tx.
        bind_e (j_dump J (transactionToJson J tx)) (\<lambda>text.
          Inr (0, text @ ''\<newline>'')))))))"

section \<open>Choosing the mode\<close>

datatype mode = ShowHelp int | GenerateKeys | SignTx | RunNode

definition main_mode :: "cli_args \<Rightarrow> mode" where
  "main_mode args =
     (if arg_showHelp args then ShowHelp 0
      else if arg_generateKeys args then GenerateKeys
      else if arg_signTx args then SignTx
      else if 0 \<le> arg_index args then RunNode
      else ShowHelp 1)"

section \<open>Corner cases\<close>

text \<open>A port above 65535 is taken modulo 2^16; without authorities the uninitialised key is written.\<close>

lemma parse_port_wraps: "parse_port ''70000'' = Inr 4464"
  by (simp add: parse_port_def stoi_def strto_def is_space_def is_digit_def
      digit_value_def code_of_def digits_value_def digit_or_0_def)

lemma no_authorities_unset_key:
  assumes "arg_count args \<le> 0"
  shows "runGenerateKeys C J F at unset args f =
    Some (then_p (create_directories F (arg_genesisDir args))
      (then_p (saveGenesisConfig F J \<lparr>gc_genesisValidatorPrivateKey = unset, gc_authorities = []\<rparr>
         (configPath (arg_genesisDir args))) (ret 0)) f)"
  using assms by (simp add: runGenerateKeys_def run_simps bind_p_cases split: prod.split sum.split)

end
