(* ===== verification/Cli_Properties.thy ===== *)
theory Cli_Properties
  imports Cli Node_Properties
begin

text \<open>
  What the modes of \<open>main.cpp\<close> achieve together: the files \<open>--generate-keys\<close> writes start the
  network they describe.
\<close>

section \<open>Generated keys\<close>

text \<open>\<open>RAND_bytes\<close> fills the buffer it is given, of 32 bytes.\<close>

definition draws_sized :: "crypto_api \<Rightarrow> bool" where
  "draws_sized C \<longleftrightarrow> (\<forall>k sk. rand_bytes C k = Some sk \<longrightarrow> length sk = 32)"

lemma regenerate_sized:
  assumes "draws_sized C" and "length sk = 32" and "regenerate C k sk = Some (Inr s)"
  shows "length s = 32"
proof -
  have "draws_sized C \<longrightarrow> length sk = 32 \<longrightarrow> (\<forall>t. r = Inr t \<longrightarrow> length t = 32)" if "regenerate C k sk = Some r" for r
    by (rule regenerate.raw_induct [OF _ that]) (fastforce simp: draws_sized_def split: if_splits option.splits)
  with assms show ?thesis by blast
qed

lemma generated_key_pair:
  assumes "draws_sized C" and "generateKeyPair C k = Some (Inr kp)"
  shows "key_pair_ok C kp" and "length (privateKey kp) = 32"
proof -
  obtain s0 s pk where s: "rand_bytes C k = Some s0" "regenerate C (Suc k) s0 = Some (Inr s)"
      "derivePublicKey C s = Inr pk" "kp = \<lparr>privateKey = s, publicKey = pk\<rparr>"
    using assms(2) by (auto simp: generateKeyPair_def split: option.splits)
  have "seckey_verify C s" by (rule regenerate_result [OF s(2)])
  with s(3,4) show "key_pair_ok C kp" by (simp add: key_pair_ok_def)
  have "length s0 = 32" using assms(1) s(1) by (simp add: draws_sized_def)
  then show "length (privateKey kp) = 32" using regenerate_sized [OF assms(1) _ s(2)] s(4) by simp
qed

section \<open>Writing the genesis files\<close>

text \<open>The authority of a key pair, its key file, and the configuration of a list of key pairs.\<close>

definition authority_of :: "crypto_api \<Rightarrow> key_pair \<Rightarrow> authority_info" where
  "authority_of C kp = \<lparr>auth_address = deriveAddress C (publicKey kp), auth_publicKey = publicKey kp, auth_allocation = 10000\<rparr>"

definition key_name :: "nat \<Rightarrow> string" where
  "key_name i = ''auth'' @ to_string_nat i @ ''.key''"

definition generated_config :: "crypto_api \<Rightarrow> (nat \<Rightarrow> key_pair) \<Rightarrow> nat \<Rightarrow> genesis_config" where
  "generated_config C kp n =
     \<lparr>gc_genesisValidatorPrivateKey = privateKey (kp 0), gc_authorities = map (\<lambda>i. authority_of C (kp i)) [0..<n]\<rparr>"

lemma keyPath_name: "keyPath dir i = dir @ ''/'' @ key_name i"
  by (simp add: keyPath_def key_name_def)

lemma file_name_key: "file_name (key_name i)"
  using to_string_nat_all_digits [of i]
  by (auto simp: file_name_def key_name_def list_all_iff is_digit_def digit_value_def code_of_def)

lemma key_name_inject: "key_name i = key_name j \<longleftrightarrow> i = j"
  by (simp add: key_name_def)

lemma key_name_genesis: "key_name i \<noteq> ''genesis.json''"
  by (simp add: key_name_def)

text \<open>The loop over a list of distinct authorities: what it registers, writes and leaves alone.\<close>

lemma generate_loop_run:
  assumes F: "files_writable F" and "distinct is"
    and "\<forall>i\<in>set is. generateKeyPair C (at i) = Some (Inr (kp i)) \<and> length (privateKey (kp i)) = 32"
  shows "\<exists>f'. generate_loop C F at dir is config f = Some (Inr (config
      \<lparr>gc_genesisValidatorPrivateKey := (if 0 \<in> set is then privateKey (kp 0) else gc_genesisValidatorPrivateKey config),
       gc_authorities := gc_authorities config @ map (\<lambda>i. authority_of C (kp i)) is\<rparr>), f') \<and>
    (\<forall>i\<in>set is. loadKeyFile F (keyPath dir i) f' = Inr (privateKey (kp i))) \<and>
    (\<forall>k. file_name k \<longrightarrow> k \<notin> key_name ` set is \<longrightarrow> fs_read F f' (dir @ ''/'' @ k) = fs_read F f (dir @ ''/'' @ k))"
  using assms(2,3)
proof (induction "is" arbitrary: config f)
  case (Cons i "is")
  have ok: "files_ok F" using F by (simp add: files_writable_def)
  have gen: "generateKeyPair C (at i) = Some (Inr (kp i))" "length (privateKey (kp i)) = 32"
    using Cons.prems(2) by simp_all
  obtain f1 where f1: "savePrivateKey F (privateKey (kp i)) (keyPath dir i) f = (Inr (), f1)"
    using savePrivateKey_total [OF F] by blast
  let ?c = "(if i = 0 then (config\<lparr>gc_authorities := gc_authorities config @ [authority_of C (kp i)]\<rparr>)
      \<lparr>gc_genesisValidatorPrivateKey := privateKey (kp i)\<rparr>
    else config\<lparr>gc_authorities := gc_authorities config @ [authority_of C (kp i)]\<rparr>)"
  obtain f' where f': "generate_loop C F at dir is ?c f1 = Some (Inr (?c
        \<lparr>gc_genesisValidatorPrivateKey := (if 0 \<in> set is then privateKey (kp 0) else gc_genesisValidatorPrivateKey ?c),
         gc_authorities := gc_authorities ?c @ map (\<lambda>i. authority_of C (kp i)) is\<rparr>), f')"
      "\<forall>i\<in>set is. loadKeyFile F (keyPath dir i) f' = Inr (privateKey (kp i))"
      "\<forall>k. file_name k \<longrightarrow> k \<notin> key_name ` set is \<longrightarrow> fs_read F f' (dir @ ''/'' @ k) = fs_read F f1 (dir @ ''/'' @ k)"
    using Cons.IH [of ?c f1] Cons.prems by (auto simp del: if_split)
  have "generate_loop C F at dir (i # is) config f = generate_loop C F at dir is ?c f1"
    using gen(1) f1 by (simp add: Let_def authority_of_def)
  moreover have "loadKeyFile F (keyPath dir i) f1 = Inr (privateKey (kp i))"
    by (rule savePrivateKey_loads [OF ok f1 gen(2)])
  then have "loadKeyFile F (keyPath dir i) f' = Inr (privateKey (kp i))"
    using f'(3) Cons.prems(1) file_name_key [of i]
    by (auto simp: loadKeyFile_def keyPath_name key_name_inject)
  moreover have "fs_read F f1 (dir @ ''/'' @ k) = fs_read F f (dir @ ''/'' @ k)" if "file_name k" "k \<noteq> key_name i" for k
    using savePrivateKey_frame [OF ok f1 [unfolded keyPath_name] file_name_key that(1)] that(2) by metis
  ultimately show ?case
    using f' by (intro exI [of _ f']) auto
qed simp

lemma generated_config_wf:
  assumes "evp_ok C" and "secp_ok C" and "0 < n"
    and "\<forall>i<n. key_pair_ok C (kp i) \<and> length (privateKey (kp i)) = 32"
  shows "wf_genesis (generated_config C kp n)"
  using assms length_publicKey length_deriveAddress
  by (auto simp: wf_genesis_def generated_config_def list_all_iff wf_authority_def authority_of_def intro!: sizedI)

lemma runGenerateKeys_run:
  assumes C: "crypto_ok C" "draws_sized C" and J: "json_ok J" and F: "files_writable F"
    and count: "0 < arg_count args"
    and gen: "\<forall>i<nat (arg_count args). generateKeyPair C (at i) = Some (Inr (kp i))"
  shows "\<exists>f'. runGenerateKeys C J F at unset args f = Some (Inr 0, f') \<and>
    (\<forall>i<nat (arg_count args). loadKeyFile F (keyPath (arg_genesisDir args) i) f' = Inr (privateKey (kp i))) \<and>
    loadGenesisConfig F J (configPath (arg_genesisDir args)) f' = Inr (generated_config C kp (nat (arg_count args)))"
proof -
  let ?n = "nat (arg_count args)" and ?dir = "arg_genesisDir args"
  have ok: "files_ok F" using F by (simp add: files_writable_def)
  have keys: "\<forall>i<?n. key_pair_ok C (kp i) \<and> length (privateKey (kp i)) = 32"
    using generated_key_pair [OF C(2)] gen by blast
  obtain f1 where f1: "create_directories F ?dir f = (Inr (), f1)" using writable_runs(1) [OF F] by blast
  obtain f2 where f2: "generate_loop C F at ?dir [0..<?n] \<lparr>gc_genesisValidatorPrivateKey = unset, gc_authorities = []\<rparr> f1 =
        Some (Inr (generated_config C kp ?n), f2)"
      "\<forall>i<?n. loadKeyFile F (keyPath ?dir i) f2 = Inr (privateKey (kp i))"
    using generate_loop_run [OF F distinct_upt, of 0 ?n C at kp ?dir
        "\<lparr>gc_genesisValidatorPrivateKey = unset, gc_authorities = []\<rparr>" f1] gen keys count
    by (auto simp: generated_config_def)
  obtain f3 where f3: "saveGenesisConfig F J (generated_config C kp ?n) (configPath ?dir) f2 = (Inr (), f3)"
    using saveGenesisConfig_total [OF F J] by blast
  have name: "file_name ''genesis.json''" by (simp add: file_name_def)
  have "fs_read F f3 (?dir @ ''/'' @ key_name i) = fs_read F f2 (?dir @ ''/'' @ key_name i)" for i
    using saveGenesisConfig_frame [OF ok J f3 [unfolded configPath_def] name file_name_key] key_name_genesis by metis
  then have "\<forall>i<?n. loadKeyFile F (keyPath ?dir i) f3 = Inr (privateKey (kp i))"
    using f2(2) by (simp add: loadKeyFile_def keyPath_name)
  moreover have "wf_genesis (generated_config C kp ?n)"
    using crypto_okD [OF C(1)] keys count by (intro generated_config_wf) simp_all
  then have "loadGenesisConfig F J (configPath ?dir) f3 = Inr (generated_config C kp ?n)"
    by (rule saveGenesisConfig_loads [OF ok J f3])
  moreover have "runGenerateKeys C J F at unset args f = Some (Inr 0, f3)"
    using f1 f2(1) f3 by (simp add: runGenerateKeys_def proc_simps)
  ultimately show ?thesis by blast
qed

section \<open>Starting a node from them\<close>

lemma map_of_allocations:
  assumes "\<forall>auth\<in>set auths. auth_allocation auth = v"
  shows "map_of (fold (\<lambda>auth. AList.update (auth_address auth) (auth_allocation auth)) auths al) a =
    (if a \<in> auth_address ` set auths then Some v else map_of al a)"
  using assms by (induction auths arbitrary: al) (auto simp: update_conv')

lemma map_of_genesis_accounts:
  assumes "\<forall>(a, b)\<in>set allocs. b = v"
  shows "map_of (fold (\<lambda>(a, b). AList.update a \<lparr>acc_balance = b, acc_nonce = 0\<rparr>) allocs al) a =
    (if a \<in> fst ` set allocs then Some \<lparr>acc_balance = v, acc_nonce = 0\<rparr> else map_of al a)"
  using assms by (induction allocs arbitrary: al) (auto simp: update_conv')

lemma distinct_allocations:
  "distinct (map fst al) \<Longrightarrow>
    distinct (map fst (fold (\<lambda>auth. AList.update (auth_address auth) (auth_allocation auth)) auths al))"
  by (induction auths arbitrary: al) (simp_all add: distinct_update)

lemma generated_allocations:
  "map_of (getAllocations (generated_config C kp n)) a =
    (if a \<in> (\<lambda>i. deriveAddress C (publicKey (kp i))) ` {..<n} then Some 10000 else None)"
  unfolding getAllocations_def
  by (subst map_of_allocations [where v = 10000])
    (auto simp: generated_config_def authority_of_def image_image)

lemma generated_balance:
  assumes "nd_state n = newStateManager (getAllocations (generated_config C kp k))"
  shows "node_getBalance n a = (if a \<in> (\<lambda>i. deriveAddress C (publicKey (kp i))) ` {..<k} then 10000 else 0)"
proof -
  let ?al = "getAllocations (generated_config C kp k)"
  have dist: "distinct (map fst ?al)" unfolding getAllocations_def by (rule distinct_allocations) simp
  have val: "b = 10000" if "(a, b) \<in> set ?al" for a b
    using generated_allocations [of C kp k a] map_of_is_SomeI [OF dist that] by (simp split: if_splits)
  have "a \<in> fst ` set ?al \<longleftrightarrow> a \<in> (\<lambda>i. deriveAddress C (publicKey (kp i))) ` {..<k}"
    using generated_allocations [of C kp k a] map_of_eq_None_iff [of ?al a] by (simp split: if_splits)
  moreover have "\<forall>(a, b)\<in>set ?al. b = 10000" using val by blast
  note map_of_genesis_accounts [OF this, of "[]" a]
  ultimately show ?thesis
    by (simp add: node_getBalance_def accountExists_def getBalance_def newStateManager_def assms)
qed

lemma node_start_run: "node_start n = (Inr (), n\<lparr>nd_network := start (nd_network n)\<rparr>)"
  by (simp add: node_start_def on_network_def on_part_def modify_p_def)

lemma dataPath_nonempty: "dataPath args i \<noteq> []"
  by (simp add: dataPath_def)

text \<open>
  What the node of authority \<open>i\<close> of a generated network is: a consistent node with the network's
  genesis block, schedule and allocations and the authority's key pair, in which every authority
  has 10000 coins and nobody else has any.
\<close>

definition authority_node ::
  "crypto_api \<Rightarrow> 'j json_api \<Rightarrow> 'd leveldb_api \<Rightarrow> (nat \<Rightarrow> key_pair) \<Rightarrow> nat \<Rightarrow> block \<Rightarrow> nat \<Rightarrow> ('d, 'j) node \<Rightarrow> bool" where
  "authority_node C J L kp k g i n \<longleftrightarrow>
     node_run C J L n \<and> bc_chain (nd_chain n) = [g] \<and>
     map_option poa_authorities (bc_consensus (nd_chain n)) = Some (map (\<lambda>i. deriveAddress C (publicKey (kp i))) [0..<k]) \<and>
     nd_genesisAllocations n = getAllocations (generated_config C kp k) \<and>
     nd_keys n = kp i \<and> nd_addr n = deriveAddress C (publicKey (kp i)) \<and>
     (\<forall>a. node_getBalance n a = (if a \<in> (\<lambda>i. deriveAddress C (publicKey (kp i))) ` {..<k} then 10000 else 0))"

text \<open>From the files of a generated network, \<open>runNode\<close> starts the node its constructor returns.\<close>

lemma runNode_new:
  fixes databases :: "string \<Rightarrow> 'd" and J :: "'j json_api" and L :: "'d leveldb_api"
  assumes F: "files_writable F" and keys: "\<forall>i<k. key_pair_ok C (kp i)"
    and files: "loadGenesisConfig F J (configPath (arg_genesisDir args)) f = Inr (generated_config C kp k)"
      "\<forall>i<k. loadKeyFile F (keyPath (arg_genesisDir args) i) f = Inr (privateKey (kp i))"
    and index: "0 \<le> arg_index args" "nat (arg_index args) < k"
    and n: "assembleNode C J L (kp (nat (arg_index args))) (kp 0) (map (\<lambda>i. deriveAddress C (publicKey (kp i))) [0..<k])
      (getAllocations (generated_config C kp k)) (dataPath args (nat (arg_index args)))
      (databases (dataPath args (nat (arg_index args)))) = Inr n"
  shows "\<exists>f'. runNode C J L F P databases args f =
    (case P (arg_port args) of None \<Rightarrow> Inr (Running (snd (node_start n)) (arg_peers args))
     | Some reason \<Rightarrow> Inl (RuntimeError reason), f')"
proof -
  let ?i = "nat (arg_index args)" and ?config = "generated_config C kp k"
  have config: "length (gc_authorities ?config) = k"
      "getAuthorityAddresses ?config = map (\<lambda>i. deriveAddress C (publicKey (kp i))) [0..<k]"
      "auth_address (gc_authorities ?config ! ?i) = deriveAddress C (publicKey (kp ?i))"
    using index(2) by (simp_all add: generated_config_def getAuthorityAddresses_def authority_of_def)
  have pub: "derivePublicKey C (privateKey (kp i)) = Inr (publicKey (kp i))" if "i < k" for i
    using keys that by (simp add: key_pair_ok_def)
  have gkeys: "getGenesisValidatorKeys C ?config = Inr (kp 0)"
    using pub [of 0] index(2) by (simp add: getGenesisValidatorKeys_def generated_config_def)
  obtain f' where dirs: "create_directories F (dataPath args ?i) f = (Inr (), f')" using writable_runs(1) [OF F] by blast
  have pair: "\<lparr>privateKey = privateKey (kp ?i), publicKey = publicKey (kp ?i)\<rparr> = kp ?i" by simp
  have in_range: "\<not> (arg_index args < 0 \<or> int k \<le> arg_index args)" using index by linarith
  have "runNode C J L F P databases args f =
    (case P (arg_port args) of None \<Rightarrow> Inr (Running (snd (node_start n)) (arg_peers args))
     | Some reason \<Rightarrow> Inl (RuntimeError reason), f')"
    unfolding runNode_def
    using in_range
    by (cases "P (arg_port args)") (simp_all add: newNode_outcome proc_simps Let_def files(1) files(2) [rule_format, OF index(2)] config pub [OF index(2)] gkeys pair n dirs)
  then show ?thesis ..
qed

lemma runNode_run:
  fixes databases :: "string \<Rightarrow> 'd" and J :: "'j json_api"
  assumes C: "crypto_ok C" and L: "leveldb_reliable L" and F: "files_writable F"
    and empty: "\<forall>dir k. ldb_get L (databases dir) k = NotFound"
    and keys: "\<forall>i<k. key_pair_ok C (kp i)"
    and files: "loadGenesisConfig F J (configPath (arg_genesisDir args)) f = Inr (generated_config C kp k)"
      "\<forall>i<k. loadKeyFile F (keyPath (arg_genesisDir args) i) f = Inr (privateKey (kp i))"
    and index: "0 \<le> arg_index args" "nat (arg_index args) < k"
    and g: "createGenesisBlock C J (kp 0) = Inr g"
  shows "\<exists>(n :: ('d, 'j) node) f'. runNode C J L F P databases args f =
      (case P (arg_port args) of None \<Rightarrow> Inr (Running n (arg_peers args)) | Some reason \<Rightarrow> Inl (RuntimeError reason), f') \<and>
    authority_node C J L kp k g (nat (arg_index args)) n"
proof -
  let ?i = "nat (arg_index args)" and ?config = "generated_config C kp k"
  let ?auths = "map (\<lambda>i. deriveAddress C (publicKey (kp i))) [0..<k]"
  let ?dir = "dataPath args ?i"
  have valid: "key_pair_ok C (kp 0)" "key_pair_ok C (kp ?i)" using keys index(2) by auto
  obtain n :: "('d, 'j) node" and c g' s
    where n: "assembleNode C J L (kp ?i) (kp 0) ?auths (getAllocations ?config) ?dir (databases ?dir) = Inr n"
      "n = (blank_node C (kp ?i) c (getAllocations ?config))\<lparr>nd_storage := Some s\<rparr>" "bc_chain c = [g']"
      "createGenesisBlock C J (kp 0) = Inr g'" "map_option poa_authorities (bc_consensus c) = Some ?auths"
    using assemble_runs [OF C valid(1) L _ dataPath_nonempty spec [OF empty], of ?auths J "kp ?i" "getAllocations ?config"]
      index(2) by fastforce
  let ?n = "snd (node_start n)"
  have "node_run C J L ?n"
    using node_more [OF node_new [OF C valid(2,1), where P = "\<lambda>_. None"] step_start] n(1) by (auto simp: newNode_iff)
  moreover have "node_getBalance ?n a = (if a \<in> (\<lambda>i. deriveAddress C (publicKey (kp i))) ` {..<k} then 10000 else 0)" for a
    using n(2) by (intro generated_balance) (simp add: blank_node_def node_start_run)
  moreover have "bc_chain (nd_chain ?n) = [g]" "nd_keys ?n = kp ?i" "nd_addr ?n = deriveAddress C (publicKey (kp ?i))"
      "map_option poa_authorities (bc_consensus (nd_chain ?n)) = Some ?auths"
      "nd_genesisAllocations ?n = getAllocations ?config"
    using n(2-5) g by (simp_all add: blank_node_def node_start_run)
  ultimately have "authority_node C J L kp k g ?i ?n" unfolding authority_node_def by blast
  then show ?thesis using runNode_new [where databases = databases and kp = kp and k = k, OF F keys files index n(1)] by blast
qed

section \<open>Bootstrapping a network\<close>

text \<open>C16. The files \<open>--generate-keys\<close> writes start the network they describe: when the random
  source delivers valid keys and the disk can be written, the mode exits with 0, and from then on
  \<open>--index i\<close> starts, for every authority and on any empty database, a consistent node that holds
  authority \<open>i\<close>'s key pair, unless the listening port cannot be opened, which ends the program with
  that error; all these nodes have the same genesis block, the same round-robin
  schedule of the generated addresses and the same allocations, 10000 coins for every authority
  and none for anybody else.\<close>

theorem generated_network_starts:
  fixes L :: "'d leveldb_api" and J :: "'j json_api"
  assumes "crypto_ok C" and "draws_sized C" and "json_ok J" and "files_writable F" and "leveldb_reliable L"
    and "0 < arg_count args" and "k = nat (arg_count args)"
    and "\<forall>i<k. generateKeyPair C (at i) = Some (Inr (kp i))"
    and "\<forall>dir key. ldb_get L (databases dir) key = NotFound"
  shows "\<exists>f' g. runGenerateKeys C J F at unset args f = Some (Inr 0, f') \<and>
    (\<forall>run. arg_genesisDir run = arg_genesisDir args \<longrightarrow> 0 \<le> arg_index run \<longrightarrow> arg_index run < arg_count args \<longrightarrow>
      (\<exists>(n :: ('d, 'j) node) f''. runNode C J L F P databases run f' =
           (case P (arg_port run) of None \<Rightarrow> Inr (Running n (arg_peers run)) | Some reason \<Rightarrow> Inl (RuntimeError reason), f'') \<and>
         authority_node C J L kp k g (nat (arg_index run)) n))"
proof -
  have keys: "\<forall>i<k. key_pair_ok C (kp i)" using generated_key_pair [OF assms(2)] assms(8) by blast
  obtain f' where f': "runGenerateKeys C J F at unset args f = Some (Inr 0, f')"
      "\<forall>i<k. loadKeyFile F (keyPath (arg_genesisDir args) i) f' = Inr (privateKey (kp i))"
      "loadGenesisConfig F J (configPath (arg_genesisDir args)) f' = Inr (generated_config C kp k)"
    using runGenerateKeys_run [OF assms(1-4,6) assms(8) [unfolded assms(7)], of unset f] unfolding assms(7) by blast
  have "key_pair_ok C (kp 0)" using keys assms(6,7) by simp
  then obtain g where g: "createGenesisBlock C J (kp 0) = Inr g"
    by (rule createGenesisBlock_total [OF assms(1)])
  have runs: "\<exists>(n :: ('d, 'j) node) f''. runNode C J L F P databases run f' =
           (case P (arg_port run) of None \<Rightarrow> Inr (Running n (arg_peers run)) | Some reason \<Rightarrow> Inl (RuntimeError reason), f'') \<and>
       authority_node C J L kp k g (nat (arg_index run)) n"
    if "arg_genesisDir run = arg_genesisDir args" "0 \<le> arg_index run" "arg_index run < arg_count args" for run
    by (rule runNode_run [OF assms(1,5,4,9) keys _ _ that(2) _ g]) (use that f'(2,3) assms(6,7) in simp_all)
  show ?thesis
    by (intro exI [of _ f'] exI [of _ g] conjI allI impI f'(1)) (rule runs)
qed

theorem generated_network_starts_witness:
  "\<exists>f' (n :: ((string \<times> string) list, jval) node) f''.
     runGenerateKeys demo_crypto demo_json demo_files Suc [] (defaultArgs\<lparr>arg_count := 2\<rparr>) [] = Some (Inr 0, f') \<and>
     runNode demo_crypto demo_json demo_leveldb demo_files (\<lambda>_. None) (\<lambda>_. []) (defaultArgs\<lparr>arg_index := 1\<rparr>) f' =
       (Inr (Running n []), f'') \<and> node_getBalance n (nd_addr n) = 10000"
proof -
  define kp where "kp i = (let sk = replicate 32 (word_of_nat (Suc i) :: byte) in \<lparr>privateKey = sk, publicKey = 2 # sk\<rparr>)" for i
  have "generateKeyPair demo_crypto (Suc i) = Some (Inr (kp i))" if "i < 2" for i
    using that by (auto simp: less_2_cases_iff generateKeyPair_def kp_def demo_crypto_def derivePublicKey_def Let_def)
  then have gen: "\<forall>i<2. generateKeyPair demo_crypto (Suc i) = Some (Inr (kp i))" by blast
  have draws: "draws_sized demo_crypto" by (simp add: draws_sized_def demo_crypto_def)
  have count: "0 < arg_count (defaultArgs\<lparr>arg_count := 2\<rparr>)" "2 = nat (arg_count (defaultArgs\<lparr>arg_count := 2\<rparr>))"
    by simp_all
  have empty: "\<forall>(dir :: string) key. ldb_get demo_leveldb [] key = NotFound" by (simp add: demo_leveldb_def demo_get_def)
  let ?run = "defaultArgs\<lparr>arg_index := 1\<rparr>"
  obtain f' g where f': "runGenerateKeys demo_crypto demo_json demo_files Suc [] (defaultArgs\<lparr>arg_count := 2\<rparr>) [] = Some (Inr 0, f')"
    and start: "\<forall>run. arg_genesisDir run = arg_genesisDir (defaultArgs\<lparr>arg_count := 2\<rparr>) \<longrightarrow> 0 \<le> arg_index run \<longrightarrow>
        arg_index run < arg_count (defaultArgs\<lparr>arg_count := 2\<rparr>) \<longrightarrow>
      (\<exists>(n :: ((string \<times> string) list, jval) node) f''.
        runNode demo_crypto demo_json demo_leveldb demo_files (\<lambda>_. None) (\<lambda>_. []) run f' =
           (case (\<lambda>_ :: u16. None :: string option) (arg_port run) of None \<Rightarrow> Inr (Running n (arg_peers run))
            | Some reason \<Rightarrow> Inl (RuntimeError reason), f'') \<and>
        authority_node demo_crypto demo_json demo_leveldb kp 2 g (nat (arg_index run)) n)"
    using generated_network_starts [OF demo_crypto_ok draws demo_json_ok demo_files_writable demo_leveldb_reliable count gen empty,
        of "[]" "[]" "\<lambda>_. None"] by (elim exE conjE) (rule that)
  have "arg_genesisDir ?run = arg_genesisDir (defaultArgs\<lparr>arg_count := 2\<rparr>)" "0 \<le> arg_index ?run"
      "arg_index ?run < arg_count (defaultArgs\<lparr>arg_count := 2\<rparr>)" by simp_all
  then obtain n :: "((string \<times> string) list, jval) node" and f''
    where run: "runNode demo_crypto demo_json demo_leveldb demo_files (\<lambda>_. None) (\<lambda>_. []) ?run f' = (Inr (Running n (arg_peers ?run)), f'')"
      "authority_node demo_crypto demo_json demo_leveldb kp 2 g 1 n"
    using start by fastforce
  have peers: "arg_peers (defaultArgs\<lparr>arg_index := 1\<rparr>) = []" by (simp add: defaultArgs_def)
  have "node_getBalance n (nd_addr n) = 10000" using run(2) by (simp add: authority_node_def)
  with f' run(1) show ?thesis unfolding peers by blast
qed

end
