(* ===== verification/Cluster.thy ===== *)
theory Cluster
  imports Node_Recovery "HOL-Library.Sublist"
begin

text \<open>
  Several nodes at once. A cluster is the list of its nodes with two ghosts: the blocks its
  nodes have signed, in order, and the transactions signed with their keys. A step is one
  operation of one node, a restart, or a signature; messages come from an adversary, who may
  drop, repeat, reorder and invent them, but cannot sign a block for an authority
  (\<open>authentic\<close>). The lemmas give the cluster's invariant: the signed blocks form one log, and
  every node holds a prefix of it, unless two of the hashed texts collide.
\<close>

section \<open>Clusters\<close>

record cluster_setup =
  cs_keys :: "key_pair list"
  cs_dirs :: "string list"
  cs_genesis :: key_pair
  cs_auths :: "address list"
  cs_allocs :: "(address \<times> u64) list"

record ('d, 'j) cluster =
  cl_nodes :: "('d, 'j) node list"
  cl_signed :: "block list"
  cl_paid :: "transaction list"

definition address_of :: "crypto_api \<Rightarrow> key_pair \<Rightarrow> address" where
  "address_of C kp = deriveAddress C (publicKey kp)"

text \<open>Valid keys, a database directory for each node, and no authority's key on two nodes.\<close>

definition setup_ok :: "crypto_api \<Rightarrow> cluster_setup \<Rightarrow> bool" where
  "setup_ok C S \<longleftrightarrow>
     length (cs_dirs S) = length (cs_keys S) \<and> [] \<notin> set (cs_dirs S) \<and>
     (\<forall>kp\<in>set (cs_keys S). key_pair_ok C kp) \<and> key_pair_ok C (cs_genesis S) \<and>
     (\<forall>i<length (cs_keys S). \<forall>j<length (cs_keys S).
        address_of C (cs_keys S ! i) = address_of C (cs_keys S ! j) \<longrightarrow>
        address_of C (cs_keys S ! i) \<in> set (cs_auths S) \<longrightarrow> i = j)"

definition producer_at :: "cluster_setup \<Rightarrow> nat \<Rightarrow> address" where
  "producer_at S h = cs_auths S ! (h mod length (cs_auths S))"

text \<open>The block \<open>produceBlock\<close> signs, if it signs one.\<close>

definition created :: "crypto_api \<Rightarrow> 'j json_api \<Rightarrow> u64 \<Rightarrow> ('d, 'j) node \<Rightarrow> block list" where
  "created C J now n =
     (case bc_consensus (nd_chain n) of
        None \<Rightarrow> []
      | Some p \<Rightarrow>
          if getProducer p (getHeight (nd_chain n)) \<noteq> nd_addr n then []
          else case createBlock C J now (nd_keys n) (getLatestBlock (nd_chain n))
                      (getTransactionsForBlock (nd_mempool n) 100) of
                 Inl e \<Rightarrow> []
               | Inr b \<Rightarrow> [b])"

text \<open>
  A signature is over a hash only. So a block that verifies under an authority's key has the
  hash of a block that authority's node signed, or of a transaction signed with its key.
\<close>

definition authentic :: "crypto_api \<Rightarrow> 'j json_api \<Rightarrow> cluster_setup \<Rightarrow> ('d, 'j) cluster \<Rightarrow> block \<Rightarrow> bool" where
  "authentic C J S cl b \<longleftrightarrow>
     (verifyBlock C J b \<longrightarrow> blk_validator b \<in> set (cs_auths S) \<longrightarrow>
        blk_hash b \<in> blk_hash ` set (cl_signed cl) \<or> blk_hash b \<in> computeTransactionHash C J ` set (cl_paid cl))"

definition at_node :: "nat \<Rightarrow> (('d, 'j) node, 'a) proc \<Rightarrow> ('d, 'j) cluster \<Rightarrow> ('d, 'j) cluster" where
  "at_node i m cl = cl\<lparr>cl_nodes := (cl_nodes cl)[i := snd (m (cl_nodes cl ! i))]\<rparr>"

text \<open>What a node does about its connections.\<close>

inductive quiet :: "'j json_api \<Rightarrow> (('d, 'j) node, unit) proc \<Rightarrow> bool" for J where
  quiet_start: "quiet J node_start"
| quiet_stop: "quiet J node_stop"
| quiet_accept: "quiet J (node_acceptDone J socket)"
| quiet_connect: "quiet J (node_connectDone J socket)"
| quiet_gone: "quiet J (node_peerGone p)"

inductive cluster_step ::
  "crypto_api \<Rightarrow> 'j json_api \<Rightarrow> 'd leveldb_api \<Rightarrow> cluster_setup \<Rightarrow> ('d, 'j) cluster \<Rightarrow> ('d, 'j) cluster \<Rightarrow> bool"
  for C J L S where
  cluster_submit: "i < length (cl_nodes cl) \<Longrightarrow> wf_transaction tx \<Longrightarrow> tx_nonce tx \<noteq> - 1 \<Longrightarrow>
     cluster_step C J L S cl (at_node i (submitTransaction C J tx) cl)"
| cluster_quiet: "i < length (cl_nodes cl) \<Longrightarrow> quiet J m \<Longrightarrow> cluster_step C J L S cl (at_node i m cl)"
| cluster_produce: "i < length (cl_nodes cl) \<Longrightarrow>
     cluster_step C J L S cl
       ((at_node i (produceBlock C J L now) cl)\<lparr>cl_signed := cl_signed cl @ created C J now (cl_nodes cl ! i)\<rparr>)"
| cluster_deliver: "i < length (cl_nodes cl) \<Longrightarrow> fit_message J msg \<Longrightarrow>
     (\<And>b. carries J msg b \<Longrightarrow> authentic C J S cl b) \<Longrightarrow>
     cluster_step C J L S cl (at_node i (handleMessage C J L msg sender) cl)"
| cluster_restart: "i < length (cl_nodes cl) \<Longrightarrow> nd_storage (cl_nodes cl ! i) = Some s \<Longrightarrow>
     length (bc_chain (nd_chain (cl_nodes cl ! i))) < 2 ^ 64 \<Longrightarrow>
     newNode C J L P (cs_keys S ! i) (cs_genesis S) (cs_auths S) (cs_allocs S) port (cs_dirs S ! i) (sto_files s) = Inr n \<Longrightarrow>
     cluster_step C J L S cl (cl\<lparr>cl_nodes := (cl_nodes cl)[i := n]\<rparr>)"
| cluster_sign: "cluster_step C J L S cl (cl\<lparr>cl_paid := tx # cl_paid cl\<rparr>)"

text \<open>Every node starts on an empty database; the genesis block is the first one signed.\<close>

definition born ::
  "crypto_api \<Rightarrow> 'j json_api \<Rightarrow> 'd leveldb_api \<Rightarrow> cluster_setup \<Rightarrow> nat \<Rightarrow> ('d, 'j) node \<Rightarrow> bool" where
  "born C J L S i n \<longleftrightarrow>
     (\<exists>files P port. (\<forall>k. ldb_get L files k = NotFound) \<and>
        newNode C J L P (cs_keys S ! i) (cs_genesis S) (cs_auths S) (cs_allocs S) port (cs_dirs S ! i) files = Inr n)"

inductive cluster_run ::
  "crypto_api \<Rightarrow> 'j json_api \<Rightarrow> 'd leveldb_api \<Rightarrow> cluster_setup \<Rightarrow> ('d, 'j) cluster \<Rightarrow> bool" for C J L S where
  cluster_born: "length ns = length (cs_keys S) \<Longrightarrow> (\<And>i. i < length ns \<Longrightarrow> born C J L S i (ns ! i)) \<Longrightarrow>
     createGenesisBlock C J (cs_genesis S) = Inr g \<Longrightarrow>
     cluster_run C J L S \<lparr>cl_nodes = ns, cl_signed = [g], cl_paid = []\<rparr>"
| cluster_more: "cluster_run C J L S cl \<Longrightarrow> cluster_step C J L S cl cl' \<Longrightarrow> cluster_run C J L S cl'"

text \<open>Two of the texts the cluster hashed collide: a block's header with one that was signed.\<close>

definition paid_text :: "'j json_api \<Rightarrow> transaction \<Rightarrow> bytes" where
  "paid_text J tx = string_bytes (j_text J (signableJson J tx))"

definition stray :: "crypto_api \<Rightarrow> 'j json_api \<Rightarrow> block list \<Rightarrow> transaction list \<Rightarrow> ('d, 'j) node \<Rightarrow> bool" where
  "stray C J log txs n \<longleftrightarrow>
     (\<exists>b\<in>set (bc_chain (nd_chain n)). \<exists>t\<in>header_bytes C J ` set log \<union> paid_text J ` set txs.
        collision C (header_bytes C J b) t)"

definition clash :: "crypto_api \<Rightarrow> 'j json_api \<Rightarrow> ('d, 'j) cluster \<Rightarrow> bool" where
  "clash C J cl \<longleftrightarrow> (\<exists>n\<in>set (cl_nodes cl). stray C J (cl_signed cl) (cl_paid cl) n)"

section \<open>What a node's steps keep\<close>

text \<open>Its keys, and the chain it has.\<close>

definition tracked :: "crypto_api \<Rightarrow> 'j json_api \<Rightarrow> key_pair \<Rightarrow> block list \<Rightarrow> ('d, 'j) node \<Rightarrow> bool" where
  "tracked C J kp bs n \<longleftrightarrow> consistent C J n \<and> nd_keys n = kp \<and> prefix bs (bc_chain (nd_chain n))"

lemma acceptBlock_tracked:
  assumes n: "tracked C J kp bs n" and b: "wf_block b"
  shows "tracked C J kp bs (snd (acceptBlock C J L b n))"
proof -
  have C: "consistent C J n" using n by (simp add: tracked_def)
  note new = keepsD [OF consistency.accept [OF b] C, of L]
  show ?thesis
    using n new
    by (cases rule: acceptBlock_cases [of C J n b L])
      (simp_all add: tracked_def settle_chain addBlock_chain prefix_append)
qed

lemma keeps_tracked:
  assumes "keeps (consistent C J) m"
    and "\<And>n. nd_chain (snd (m n)) = nd_chain n \<and> nd_keys (snd (m n)) = nd_keys n"
  shows "keeps (tracked C J kp bs) m"
  using assms unfolding keeps_def tracked_def by metis

interpretation tracking: node_invariant C J L "tracked C J kp bs :: ('d, 'j) node \<Rightarrow> bool"
  for C :: crypto_api and J :: "'j json_api" and L :: "'d leveldb_api" and kp bs
proof unfold_locales
  show "keeps (tracked C J kp bs :: ('d, 'j) node \<Rightarrow> bool) (on_network m)" for m :: "('j network, unit) proc"
    by (intro keeps_tracked consistency.network) (simp add: on_network_def on_part_def split: prod.split)
  show "keeps (tracked C J kp bs :: ('d, 'j) node \<Rightarrow> bool) (pool_add C J tx)"
    if "wf_transaction tx" "tx_nonce tx \<noteq> - 1" for tx
    using that by (intro keeps_tracked consistency.pool) (simp_all add: pool_add_def split: prod.split)
  show "keeps (tracked C J kp bs :: ('d, 'j) node \<Rightarrow> bool) (acceptBlock C J L b)" if "wf_block b" for b
    using that acceptBlock_tracked unfolding keeps_def by blast
qed (auto intro: consistency.produced consistency.error simp: tracked_def)

lemma assemble_keys:
  fixes n :: "('d, 'j) node"
  assumes "assembleNode C J L keys gkeys auths allocs dataDir files = Inr n"
  shows "nd_keys n = keys"
proof -
  obtain p c where pc: "newPoAConsensus auths = Inr p" "newBlockchainPoA C J gkeys p = Inr c"
    by (rule assemble_parts [OF assms])
  have rec: "keeps (\<lambda>n :: ('d, 'j) node. nd_keys n = keys) (recoverFromStorage C J L)"
    by (rule keeps_recover) simp_all
  show ?thesis
  proof (cases "dataDir = ''''")
    case True
    with assms show ?thesis by (auto simp: assemble_run [OF pc] blank_node_def)
  next
    case False
    obtain s where "(case recoverFromStorage C J L ((blank_node C keys c allocs)\<lparr>nd_storage := Some s\<rparr>) of
         (Inl e, n') \<Rightarrow> Inl e | (Inr u, n') \<Rightarrow> Inr n') = Inr n"
      using assms [unfolded assemble_run [OF pc] if_not_P [OF False]] by (rule bind_e_InrE) (rule that)
    then show ?thesis
      using keepsD [OF rec, of "(blank_node C keys c allocs)\<lparr>nd_storage := Some s\<rparr>"]
      by (auto simp: blank_node_def split: prod.splits sum.splits unit.splits)
  qed
qed

section \<open>Each node of a cluster\<close>

lemma quiet_step: "quiet J m \<Longrightarrow> node_step C J L n (snd (m n))"
  by (induction rule: quiet.induct) (auto intro: node_step.intros)

text \<open>Every step is, at each node, nothing, a step of that node, or its restart.\<close>

inductive local_step ::
  "crypto_api \<Rightarrow> 'j json_api \<Rightarrow> 'd leveldb_api \<Rightarrow> cluster_setup \<Rightarrow> nat \<Rightarrow> ('d, 'j) node \<Rightarrow> ('d, 'j) node \<Rightarrow> bool"
  for C J L S i where
  local_idle: "local_step C J L S i n n"
| local_op: "node_step C J L n n' \<Longrightarrow> local_step C J L S i n n'"
| local_restart: "nd_storage n = Some s \<Longrightarrow> length (bc_chain (nd_chain n)) < 2 ^ 64 \<Longrightarrow>
     newNode C J L P (cs_keys S ! i) (cs_genesis S) (cs_auths S) (cs_allocs S) port (cs_dirs S ! i) (sto_files s) = Inr n' \<Longrightarrow>
     local_step C J L S i n n'"

lemma at_node_nth [simp]:
  "length (cl_nodes (at_node i m cl)) = length (cl_nodes cl)"
  "j < length (cl_nodes cl) \<Longrightarrow>
     cl_nodes (at_node i m cl) ! j = (if j = i then snd (m (cl_nodes cl ! i)) else cl_nodes cl ! j)"
  "cl_signed (at_node i m cl) = cl_signed cl" "cl_paid (at_node i m cl) = cl_paid cl"
  by (simp_all add: at_node_def nth_list_update)

lemma cluster_local:
  assumes "cluster_step C J L S cl cl'"
  shows "length (cl_nodes cl') = length (cl_nodes cl)"
    and "i < length (cl_nodes cl) \<Longrightarrow> local_step C J L S i (cl_nodes cl ! i) (cl_nodes cl' ! i)"
    and "prefix (cl_signed cl) (cl_signed cl')" and "set (cl_paid cl) \<subseteq> set (cl_paid cl')"
proof -
  have "length (cl_nodes cl') = length (cl_nodes cl) \<and> prefix (cl_signed cl) (cl_signed cl') \<and>
      set (cl_paid cl) \<subseteq> set (cl_paid cl')"
    using assms by (cases rule: cluster_step.cases) auto
  then show "length (cl_nodes cl') = length (cl_nodes cl)" and "prefix (cl_signed cl) (cl_signed cl')"
    and "set (cl_paid cl) \<subseteq> set (cl_paid cl')"
    by auto
  show "local_step C J L S i (cl_nodes cl ! i) (cl_nodes cl' ! i)" if i: "i < length (cl_nodes cl)"
    using assms
  proof (cases rule: cluster_step.cases)
    case (cluster_restart j s P port n)
    then show ?thesis using i by (cases "j = i") (auto intro: local_idle local_restart)
  qed (use i in \<open>auto intro: local_idle local_op quiet_step step_submit step_produce step_message\<close>)
qed

text \<open>A cluster whose nodes live in this setup.\<close>

definition member ::
  "crypto_api \<Rightarrow> 'j json_api \<Rightarrow> 'd leveldb_api \<Rightarrow> cluster_setup \<Rightarrow> nat \<Rightarrow> ('d, 'j) node \<Rightarrow> bool" where
  "member C J L S i n \<longleftrightarrow>
     node_life C J L (cs_keys S ! i) (cs_genesis S) (cs_auths S) (cs_allocs S) (cs_dirs S ! i) n \<and>
     nd_keys n = cs_keys S ! i"

definition environment :: "crypto_api \<Rightarrow> 'j json_api \<Rightarrow> 'd leveldb_api \<Rightarrow> cluster_setup \<Rightarrow> bool" where
  "environment C J L S \<longleftrightarrow> crypto_ok C \<and> json_ok J \<and> leveldb_reliable L \<and> setup_ok C S"

lemma setup_okD:
  assumes "setup_ok C S"
  shows "key_pair_ok C (cs_genesis S)" and "length (cs_dirs S) = length (cs_keys S)"
    and "i < length (cs_keys S) \<Longrightarrow> key_pair_ok C (cs_keys S ! i)"
    and "i < length (cs_keys S) \<Longrightarrow> cs_dirs S ! i \<noteq> []"
    and "i < length (cs_keys S) \<Longrightarrow> j < length (cs_keys S) \<Longrightarrow>
       address_of C (cs_keys S ! i) = address_of C (cs_keys S ! j) \<Longrightarrow>
       address_of C (cs_keys S ! i) \<in> set (cs_auths S) \<Longrightarrow> i = j"
  using assms nth_mem unfolding setup_ok_def by metis+

lemma member_facts:
  assumes env: "environment C J L S" and i: "i < length (cs_keys S)" and n: "member C J L S i n"
  shows "recoverable C J L n" and "consistent C J n" and "cs_auths S \<noteq> []"
    and "nd_addr n = address_of C (cs_keys S ! i)" and "configured (cs_auths S) (cs_allocs S) n"
    and "\<exists>g. createGenesisBlock C J (cs_genesis S) = Inr g \<and> rooted C J g (cs_auths S) (cs_allocs S) n"
proof -
  have ok: "crypto_ok C" "json_ok J" "leveldb_reliable L" and S: "setup_ok C S"
    using env by (simp_all add: environment_def)
  have life: "node_life C J L (cs_keys S ! i) (cs_genesis S) (cs_auths S) (cs_allocs S) (cs_dirs S ! i) n"
    using n by (simp add: member_def)
  note inv = node_life_inv [OF life ok setup_okD(3) [OF S i] setup_okD(1) [OF S] setup_okD(4) [OF S i]]
  then show "recoverable C J L n" and "cs_auths S \<noteq> []"
    and "\<exists>g. createGenesisBlock C J (cs_genesis S) = Inr g \<and> rooted C J g (cs_auths S) (cs_allocs S) n"
    by simp_all
  then show "configured (cs_auths S) (cs_allocs S) n" and cons: "consistent C J n"
    by (auto simp: rooted_def recoverable_def)
  show "nd_addr n = address_of C (cs_keys S ! i)"
    using consistentD(4) [OF cons] n by (simp add: wf_node_def member_def address_of_def)
qed

text \<open>A restart gives back the chain; a node stays a member, and its chain only grows.\<close>

lemma restart_chain:
  assumes env: "environment C J L S" and i: "i < length (cs_keys S)" and n: "member C J L S i n"
    and s: "nd_storage n = Some s" and room: "length (bc_chain (nd_chain n)) < 2 ^ 64"
    and new: "newNode C J L P (cs_keys S ! i) (cs_genesis S) (cs_auths S) (cs_allocs S) port (cs_dirs S ! i) (sto_files s) = Inr n'"
  shows "bc_chain (nd_chain n') = bc_chain (nd_chain n)"
proof -
  note facts = member_facts [OF env i n]
  have ok: "crypto_ok C" and S: "setup_ok C S" using env by (simp_all add: environment_def)
  obtain g where g: "createGenesisBlock C J (cs_genesis S) = Inr g" "rooted C J g (cs_auths S) (cs_allocs S) n"
    using facts(6) by blast
  show ?thesis
    using restart [where keys = "cs_keys S ! i", OF ok setup_okD(1) [OF S] setup_okD(4) [OF S i] facts(3,1) g(2,1)
        room s] newNode_assembled [OF new] by auto
qed

lemma local_member:
  assumes env: "environment C J L S" and i: "i < length (cs_keys S)" and n: "member C J L S i n"
    and step: "local_step C J L S i n n'"
  shows "member C J L S i n'" and "prefix (bc_chain (nd_chain n)) (bc_chain (nd_chain n'))"
proof -
  have life: "node_life C J L (cs_keys S ! i) (cs_genesis S) (cs_auths S) (cs_allocs S) (cs_dirs S ! i) n"
    using n by (simp add: member_def)
  have "member C J L S i n' \<and> prefix (bc_chain (nd_chain n)) (bc_chain (nd_chain n'))"
    using step
  proof (cases rule: local_step.cases)
    case local_idle
    then show ?thesis using n by simp
  next
    case local_op
    have "tracked C J (cs_keys S ! i) (bc_chain (nd_chain n)) n"
      using member_facts(2) [OF env i n] n by (simp add: tracked_def member_def)
    from tracking.keeps_step [OF local_op this] life_step [OF life local_op] show ?thesis
      by (simp add: tracked_def member_def)
  next
    case (local_restart s P port)
    then show ?thesis
      using restart_chain [OF env i n local_restart] life_restart [OF life local_restart] assemble_keys [OF newNode_assembled [OF local_restart(3)]]
      by (simp add: member_def)
  qed
  then show "member C J L S i n'" and "prefix (bc_chain (nd_chain n)) (bc_chain (nd_chain n'))" by simp_all
qed

section \<open>Clusters start\<close>

lemma born_member:
  assumes env: "environment C J L S" and i: "i < length (cs_keys S)" and born: "born C J L S i n"
    and g: "createGenesisBlock C J (cs_genesis S) = Inr g"
  shows "member C J L S i n" and "bc_chain (nd_chain n) = [g]" and "nd_mempool n = newMempool"
proof -
  have ok: "crypto_ok C" "json_ok J" "leveldb_reliable L" and S: "setup_ok C S"
    using env by (simp_all add: environment_def)
  obtain files P port where files: "\<forall>k. ldb_get L files k = NotFound"
      "newNode C J L P (cs_keys S ! i) (cs_genesis S) (cs_auths S) (cs_allocs S) port (cs_dirs S ! i) files = Inr n"
    using born by (auto simp: born_def)
  note new = newNode_assembled [OF files(2)]
  show "member C J L S i n" using life_born [OF files] assemble_keys [OF new] by (simp add: member_def)
  show "bc_chain (nd_chain n) = [g]"
    using assemble_born(2) [OF ok setup_okD(3) [OF S i] setup_okD(1) [OF S] setup_okD(4) [OF S i] files(1) new] g by simp
  show "nd_mempool n = newMempool"
    using assemble_inv [OF ok(1) setup_okD(1) [OF S] new] by (simp add: fresh_inv_def)
qed

lemma cluster_starts:
  fixes files :: 'd
  assumes env: "environment C J L S" and ne: "cs_auths S \<noteq> []" and empty: "\<forall>k. ldb_get L files k = NotFound"
  obtains ns :: "('d, 'j) node list" and g where "length ns = length (cs_keys S)"
    and "\<And>i. i < length ns \<Longrightarrow> born C J L S i (ns ! i)" and "createGenesisBlock C J (cs_genesis S) = Inr g"
    and "cluster_run C J L S \<lparr>cl_nodes = ns, cl_signed = [g], cl_paid = []\<rparr>"
proof -
  have ok: "crypto_ok C" "leveldb_reliable L" and S: "setup_ok C S" using env by (simp_all add: environment_def)
  have "\<exists>n :: ('d, 'j) node. born C J L S i n" if i: "i < length (cs_keys S)" for i
  proof -
    obtain n :: "('d, 'j) node" where
        "assembleNode C J L (cs_keys S ! i) (cs_genesis S) (cs_auths S) (cs_allocs S) (cs_dirs S ! i) files = Inr n"
      using assemble_runs [OF ok(1) setup_okD(1) [OF S] ok(2) ne setup_okD(4) [OF S i] empty] by blast
    then have "newNode C J L (\<lambda>_. None) (cs_keys S ! i) (cs_genesis S) (cs_auths S) (cs_allocs S) 0 (cs_dirs S ! i) files = Inr n"
      by (simp add: newNode_iff)
    then show ?thesis using empty unfolding born_def by blast
  qed
  then obtain f :: "nat \<Rightarrow> ('d, 'j) node" where f: "\<And>i. i < length (cs_keys S) \<Longrightarrow> born C J L S i (f i)" by metis
  obtain g where g: "createGenesisBlock C J (cs_genesis S) = Inr g"
    by (rule createGenesisBlock_total [OF ok(1) setup_okD(1) [OF S]])
  let ?ns = "map f [0..<length (cs_keys S)]"
  have "born C J L S i (?ns ! i)" if "i < length ?ns" for i using f that by simp
  then show ?thesis using that [of ?ns g] g cluster_born [of ?ns S C J L g] by simp
qed

end
