(* ===== verification/Cluster_Log.thy ===== *)
theory Cluster_Log
  imports Cluster
begin

text \<open>
  The blocks a cluster has signed are one log: the position of a block is its index, its signer
  is the authority scheduled there, and every node's chain has the hashes of a prefix of it. An
  abstract journal, a log its owners append to in turn and read at their own pace, is refined by
  the cluster.
\<close>

section \<open>Blocks that are authentic stand in the log\<close>

definition follows :: "block list \<Rightarrow> ('d, 'j) node \<Rightarrow> bool" where
  "follows log n \<longleftrightarrow> prefix (map blk_hash (bc_chain (nd_chain n))) (map blk_hash log)"

lemma stray_mono:
  "stray C J log txs n \<Longrightarrow> set log \<subseteq> set log' \<Longrightarrow> set txs \<subseteq> set txs' \<Longrightarrow>
     set (bc_chain (nd_chain n)) \<subseteq> set (bc_chain (nd_chain n')) \<Longrightarrow> stray C J log' txs' n'"
  unfolding stray_def by blast

lemma computeTransactionHash_paid_text: "computeTransactionHash C J tx = digest C (paid_text J tx)"
  by (simp add: computeTransactionHash_def paid_text_def digest_string_def)

lemma header_is_no_transaction:
  assumes J: "json_ok J"
  shows "header_bytes C J b \<noteq> paid_text J tx"
proof
  assume "header_bytes C J b = paid_text J tx"
  then have same: "headerJson C J b = signableJson J tx"
    using J by (simp add: header_bytes_def paid_text_def json_text_inject headerJson_plain signableJson_plain)
  have "j_contains J (headerJson C J b) ''index''"
    unfolding headerJson_def by (subst json_contains [OF J]) simp_all
  moreover have "\<not> j_contains J (signableJson J tx) ''index''"
    unfolding signableJson_def by (subst json_contains [OF J]) (simp_all add: signableFields_def)
  ultimately show False using same by simp
qed

lemma header_bytes_index:
  assumes "json_ok J" and "header_bytes C J a = header_bytes C J b"
  shows "blk_index a = blk_index b"
proof -
  have "headerJson C J a = headerJson C J b"
    using assms by (simp add: header_bytes_def json_text_inject headerJson_plain)
  then show ?thesis by (rule headerJson_inject(1) [OF assms(1)])
qed

definition good_log :: "crypto_api \<Rightarrow> 'j json_api \<Rightarrow> block list \<Rightarrow> bool" where
  "good_log C J log \<longleftrightarrow>
     length log < 2 ^ 64 \<and> (\<forall>h<length log. verifyBlock C J (log ! h) \<and> blk_index (log ! h) = word_of_nat h)"

lemma word_position:
  assumes "(word_of_nat i :: u64) = word_of_nat j" and "i < 2 ^ 64" and "j < 2 ^ 64"
  shows "i = j"
proof -
  have "unat (word_of_nat i :: u64) = unat (word_of_nat j :: u64)" by (simp only: assms(1))
  then show ?thesis using assms(2,3) by (simp add: unat_of_nat)
qed

text \<open>A verified block with a signed hash is the one of its index in the log, or its header collides.\<close>

lemma authentic_position:
  assumes J: "json_ok J" and log: "good_log C J log" and b: "verifyBlock C J b" "blk_index b = word_of_nat h"
    and h: "h \<le> length log"
    and hash: "blk_hash b \<in> blk_hash ` set log \<or> blk_hash b \<in> computeTransactionHash C J ` set txs"
  shows "(h < length log \<and> blk_hash b = blk_hash (log ! h)) \<or>
     (\<exists>t\<in>header_bytes C J ` set log \<union> paid_text J ` set txs. collision C (header_bytes C J b) t)"
proof -
  have own: "digest C (header_bytes C J b) = blk_hash b"
    using b(1) by (simp add: verifyBlock_iff computeBlockHash_header_bytes)
  from hash consider (log) a where "a \<in> set log" "blk_hash b = blk_hash a"
    | (paid) tx where "tx \<in> set txs" "blk_hash b = computeTransactionHash C J tx"
    by blast
  then show ?thesis
  proof cases
    case log': log
    then obtain k where k: "k < length log" "a = log ! k" by (metis in_set_conv_nth)
    have a: "digest C (header_bytes C J a) = blk_hash a" "blk_index a = word_of_nat k"
      using log k by (simp_all add: good_log_def verifyBlock_iff computeBlockHash_header_bytes)
    show ?thesis
    proof (cases "header_bytes C J b = header_bytes C J a")
      case True
      then have "(word_of_nat h :: u64) = word_of_nat k"
        using header_bytes_index [OF J True] a(2) b(2) by simp
      then have "h = k" using word_position h k(1) log by (simp add: good_log_def)
      then show ?thesis using k log'(2) by simp
    next
      case False
      then have "collision C (header_bytes C J b) (header_bytes C J a)"
        using own a(1) log'(2) by (simp add: collision_def)
      then show ?thesis using log'(1) by blast
    qed
  next
    case paid
    then have "collision C (header_bytes C J b) (paid_text J tx)"
      using own header_is_no_transaction [OF J] computeTransactionHash_paid_text [of C J tx]
      by (simp add: collision_def)
    then show ?thesis using paid(1) by blast
  qed
qed

section \<open>Receiving authentic blocks\<close>

text \<open>What an authentic message leaves true of its receiver.\<close>

definition on_log ::
  "crypto_api \<Rightarrow> 'j json_api \<Rightarrow> block list \<Rightarrow> transaction list \<Rightarrow> address list \<Rightarrow> ('d, 'j) node \<Rightarrow> bool" where
  "on_log C J log txs auths n \<longleftrightarrow>
     json_ok J \<and> good_log C J log \<and> auths \<noteq> [] \<and> consistent C J n \<and>
     map_option poa_authorities (bc_consensus (nd_chain n)) = Some auths \<and>
     (stray C J log txs n \<or> follows log n)"

definition sanctioned ::
  "crypto_api \<Rightarrow> 'j json_api \<Rightarrow> block list \<Rightarrow> transaction list \<Rightarrow> address list \<Rightarrow> block \<Rightarrow> bool" where
  "sanctioned C J log txs auths b \<longleftrightarrow>
     (verifyBlock C J b \<longrightarrow> blk_validator b \<in> set auths \<longrightarrow>
        blk_hash b \<in> blk_hash ` set log \<or> blk_hash b \<in> computeTransactionHash C J ` set txs)"

lemma authentic_sanctioned:
  "authentic C J S cl b = sanctioned C J (cl_signed cl) (cl_paid cl) (cs_auths S) b"
  by (simp add: authentic_def sanctioned_def)

lemma accepted_by_authority:
  assumes "accepts C J c b" and "map_option poa_authorities (bc_consensus c) = Some auths" and "auths \<noteq> []"
  shows "blk_validator b \<in> set auths"
proof -
  obtain p where p: "bc_consensus c = Some p" "poa_authorities p = auths" using assms(2) by auto
  then show ?thesis using assms(1,3) by (simp add: accepts_def getProducer_def)
qed

lemma follows_snoc:
  assumes "follows log n" and "bc_chain (nd_chain n') = bc_chain (nd_chain n) @ [b]"
    and "length (bc_chain (nd_chain n)) < length log" and "blk_hash b = blk_hash (log ! length (bc_chain (nd_chain n)))"
  shows "follows log n'"
  using append_one_prefix [of "map blk_hash (bc_chain (nd_chain n))" "map blk_hash log"] assms
  by (simp add: follows_def)

lemma follows_length: "follows log n \<Longrightarrow> length (bc_chain (nd_chain n)) \<le> length log"
  unfolding follows_def using prefix_length_le by fastforce

lemma accept_on_log:
  assumes n: "on_log C J log txs auths n" and b: "sanctioned C J log txs auths b"
    and acc: "accepts C J (nd_chain n) b" and chain: "bc_chain (nd_chain n') = bc_chain (nd_chain n) @ [b]"
  shows "stray C J log txs n' \<or> follows log n'"
proof (cases "stray C J log txs n")
  case True
  then have "stray C J log txs n'" by (rule stray_mono) (auto simp: chain)
  then show ?thesis ..
next
  case False
  then have fol: "follows log n" and J: "json_ok J" and log: "good_log C J log" using n by (simp_all add: on_log_def)
  have ver: "verifyBlock C J b" "blk_index b = word_of_nat (length (bc_chain (nd_chain n)))"
    using acc by (simp_all add: accepts_def getHeight_def)
  have "blk_validator b \<in> set auths"
    using n accepted_by_authority [OF acc] by (simp add: on_log_def)
  then have hash: "blk_hash b \<in> blk_hash ` set log \<or> blk_hash b \<in> computeTransactionHash C J ` set txs"
    using b ver(1) by (simp add: sanctioned_def)
  from authentic_position [OF J log ver follows_length [OF fol] hash] show ?thesis
  proof
    assume "\<exists>t\<in>header_bytes C J ` set log \<union> paid_text J ` set txs. collision C (header_bytes C J b) t"
    then have "stray C J log txs n'" using chain by (auto simp: stray_def)
    then show ?thesis ..
  qed (use follows_snoc [OF fol chain] in blast)
qed

lemma on_log_frame:
  assumes "keeps (consistent C J) m" and "\<And>n. nd_chain (snd (m n)) = nd_chain n"
  shows "keeps (on_log C J log txs auths) m"
  using assms unfolding keeps_def on_log_def stray_def follows_def by simp

lemma acceptBlock_on_log:
  assumes n: "on_log C J log txs auths n" and b: "wf_block b" "sanctioned C J log txs auths b"
  shows "on_log C J log txs auths (snd (acceptBlock C J L b n))"
proof -
  have cons: "consistent C J n" using n by (simp add: on_log_def)
  note new = keepsD [OF consistency.accept [OF b(1)] cons, of L]
  show ?thesis
  proof (cases rule: acceptBlock_cases [of C J n b L])
    case reject
    then show ?thesis
      using n new by (simp add: on_log_def stray_def follows_def addBlock_chain addBlock_authorities)
  next
    case (accept s)
    then show ?thesis
      using n new accept_on_log [OF n b(2) accept(1), of "(settle C J b n)\<lparr>nd_storage := s\<rparr>"]
      by (simp add: on_log_def settle_chain settle_schedule)
  next
    case (failed e s)
    then show ?thesis
      using n new accept_on_log [OF n b(2) failed(1), of "(settle C J b n)\<lparr>nd_storage := s\<rparr>"]
      by (simp add: on_log_def settle_chain settle_schedule)
  qed
qed

interpretation logging: block_invariant C J L "on_log C J log txs auths :: ('d, 'j) node \<Rightarrow> bool"
    "sanctioned C J log txs auths"
  for C :: crypto_api and J :: "'j json_api" and L :: "'d leveldb_api" and log txs auths
proof unfold_locales
  show "keeps (on_log C J log txs auths :: ('d, 'j) node \<Rightarrow> bool) (on_network m)" for m :: "('j network, unit) proc"
    by (intro on_log_frame consistency.network) (simp add: on_network_def on_part_def split: prod.split)
  show "keeps (on_log C J log txs auths :: ('d, 'j) node \<Rightarrow> bool) (pool_add C J tx)"
    if "wf_transaction tx" "tx_nonce tx \<noteq> - 1" for tx
    using that by (intro on_log_frame consistency.pool) (simp_all add: pool_add_def split: prod.split)
  show "keeps (on_log C J log txs auths :: ('d, 'j) node \<Rightarrow> bool) (acceptBlock C J L b)"
    if "wf_block b" "sanctioned C J log txs auths b" for b
    using that acceptBlock_on_log unfolding keeps_def by blast
  show "on_log C J log txs auths (n\<lparr>nd_lastError := e\<rparr>)" if "on_log C J log txs auths n"
    for n :: "('d, 'j) node" and e
    using that consistency.error [of C J n e] by (simp add: on_log_def stray_def follows_def)
qed

section \<open>One log\<close>

definition one_log :: "crypto_api \<Rightarrow> cluster_setup \<Rightarrow> ('d, 'j) cluster \<Rightarrow> bool" where
  "one_log C S cl \<longleftrightarrow>
     (\<forall>n\<in>set (cl_nodes cl). follows (cl_signed cl) n) \<and>
     (\<forall>h<length (cl_signed cl). 0 < h \<longrightarrow> (\<exists>i<length (cl_nodes cl).
        address_of C (cs_keys S ! i) = producer_at S h \<and> h < length (bc_chain (nd_chain (cl_nodes cl ! i)))))"

definition crewed :: "crypto_api \<Rightarrow> 'j json_api \<Rightarrow> 'd leveldb_api \<Rightarrow> cluster_setup \<Rightarrow> ('d, 'j) cluster \<Rightarrow> bool" where
  "crewed C J L S cl \<longleftrightarrow>
     length (cl_nodes cl) = length (cs_keys S) \<and> (\<forall>i<length (cl_nodes cl). member C J L S i (cl_nodes cl ! i))"

definition cluster_inv :: "crypto_api \<Rightarrow> 'j json_api \<Rightarrow> 'd leveldb_api \<Rightarrow> cluster_setup \<Rightarrow> ('d, 'j) cluster \<Rightarrow> bool" where
  "cluster_inv C J L S cl \<longleftrightarrow>
     crewed C J L S cl \<and> cl_signed cl \<noteq> [] \<and>
     (length (cl_signed cl) < 2 ^ 64 \<longrightarrow> clash C J cl \<or> good_log C J (cl_signed cl) \<and> one_log C S cl)"

lemma crewedD:
  assumes "crewed C J L S cl"
  shows "length (cl_nodes cl) = length (cs_keys S)" and "i < length (cl_nodes cl) \<Longrightarrow> member C J L S i (cl_nodes cl ! i)"
  using assms by (simp_all add: crewed_def)

text \<open>When every node moves by a step of its own, the members stay and a collision stays.\<close>

lemma crew_moves:
  assumes env: "environment C J L S" and crew: "crewed C J L S cl" and len: "length (cl_nodes cl') = length (cl_nodes cl)"
    and loc: "\<And>i. i < length (cl_nodes cl) \<Longrightarrow> local_step C J L S i (cl_nodes cl ! i) (cl_nodes cl' ! i)"
    and sig: "prefix (cl_signed cl) (cl_signed cl')" and paid: "set (cl_paid cl) \<subseteq> set (cl_paid cl')"
  shows "crewed C J L S cl'" and "clash C J cl \<Longrightarrow> clash C J cl'"
    and "i < length (cl_nodes cl) \<Longrightarrow> prefix (bc_chain (nd_chain (cl_nodes cl ! i))) (bc_chain (nd_chain (cl_nodes cl' ! i)))"
proof -
  have each: "member C J L S i (cl_nodes cl' ! i)"
      "prefix (bc_chain (nd_chain (cl_nodes cl ! i))) (bc_chain (nd_chain (cl_nodes cl' ! i)))"
    if i: "i < length (cl_nodes cl)" for i
    using local_member [OF env _ crewedD(2) [OF crew i] loc [OF i]] i crewedD(1) [OF crew] by simp_all
  then show "crewed C J L S cl'" using crewedD(1) [OF crew] len by (simp add: crewed_def)
  show "i < length (cl_nodes cl) \<Longrightarrow> prefix (bc_chain (nd_chain (cl_nodes cl ! i))) (bc_chain (nd_chain (cl_nodes cl' ! i)))"
    by (rule each(2))
  assume "clash C J cl"
  then obtain i where i: "i < length (cl_nodes cl)" "stray C J (cl_signed cl) (cl_paid cl) (cl_nodes cl ! i)"
    by (auto simp: clash_def in_set_conv_nth)
  have "stray C J (cl_signed cl') (cl_paid cl') (cl_nodes cl' ! i)"
    using sig paid each(2) [OF i(1)] by (intro stray_mono [OF i(2)]) (auto dest: set_mono_prefix)
  then show "clash C J cl'" using i(1) len by (auto simp: clash_def)
qed

lemma crew_step:
  assumes "environment C J L S" and "crewed C J L S cl" and "cluster_step C J L S cl cl'"
  shows "crewed C J L S cl'" and "clash C J cl \<Longrightarrow> clash C J cl'"
    and "i < length (cl_nodes cl) \<Longrightarrow> prefix (bc_chain (nd_chain (cl_nodes cl ! i))) (bc_chain (nd_chain (cl_nodes cl' ! i)))"
  using crew_moves [OF assms(1,2) cluster_local(1-4) [OF assms(3)]] by blast+

text \<open>What a step at node \<open>i\<close> has to show when the log stays as it is.\<close>

lemma one_log_same:
  assumes one: "one_log C S cl" and sig: "cl_signed cl' = cl_signed cl"
    and len: "length (cl_nodes cl') = length (cl_nodes cl)"
    and grow: "\<And>j. j < length (cl_nodes cl) \<Longrightarrow>
      prefix (bc_chain (nd_chain (cl_nodes cl ! j))) (bc_chain (nd_chain (cl_nodes cl' ! j)))"
    and fol: "\<And>j. j < length (cl_nodes cl) \<Longrightarrow> follows (cl_signed cl) (cl_nodes cl' ! j)"
  shows "one_log C S cl'"
proof -
  have "\<exists>i<length (cl_nodes cl'). address_of C (cs_keys S ! i) = producer_at S h \<and>
      h < length (bc_chain (nd_chain (cl_nodes cl' ! i)))"
    if h: "h < length (cl_signed cl')" "0 < h" for h
  proof -
    obtain i where i: "i < length (cl_nodes cl)" "address_of C (cs_keys S ! i) = producer_at S h"
        "h < length (bc_chain (nd_chain (cl_nodes cl ! i)))"
      using one h sig unfolding one_log_def by auto
    then have "h < length (bc_chain (nd_chain (cl_nodes cl' ! i)))"
      using prefix_length_le [OF grow] by fastforce
    with i len show ?thesis by auto
  qed
  then show ?thesis using fol len sig by (auto simp: one_log_def in_set_conv_nth)
qed

lemma keeps_chain_network: "keeps (\<lambda>k. nd_chain k = c) (on_network m)"
  by (simp add: keeps_def on_network_parts)

lemmas keeps_chain_handlers = keeps_network_handlers [OF keeps_chain_network, THEN keepsD, OF refl]

lemma quiet_chain: "quiet J m \<Longrightarrow> nd_chain (snd (m n)) = nd_chain n"
  by (induction rule: quiet.induct) (simp_all add: keeps_chain_handlers)

lemma submit_chain: "nd_chain (snd (submitTransaction C J tx n)) = nd_chain n"
proof -
  have "keeps (\<lambda>k. nd_chain k = nd_chain n) (submitTransaction C J tx)"
    unfolding submitTransaction_def
  proof (intro keeps_bind)
    show "keeps (\<lambda>k. nd_chain k = nd_chain n) (pool_add C J tx)"
      by (simp add: keeps_def pool_add_def split: prod.split)
  qed (auto intro!: keeps_then keeps_modify keeps_ret keeps_chain_network)
  then show ?thesis by (auto simp: keeps_def)
qed

text \<open>The authority whose turn it is has read the whole log.\<close>

lemma producer_has_log:
  assumes env: "environment C J L S" and crew: "crewed C J L S cl"
    and one: "one_log C S cl" and log: "good_log C J (cl_signed cl)" and i: "i < length (cl_nodes cl)"
    and p: "bc_consensus (nd_chain (cl_nodes cl ! i)) = Some p"
    and turn: "getProducer p (getHeight (nd_chain (cl_nodes cl ! i))) = nd_addr (cl_nodes cl ! i)"
  shows "map blk_hash (bc_chain (nd_chain (cl_nodes cl ! i))) = map blk_hash (cl_signed cl)"
    and "address_of C (cs_keys S ! i) = producer_at S (length (cl_signed cl))"
proof -
  let ?n = "cl_nodes cl ! i" let ?h = "length (bc_chain (nd_chain ?n))"
  have ik: "i < length (cs_keys S)" using i crewedD(1) [OF crew] by simp
  note facts = member_facts [OF env ik crewedD(2) [OF crew i]]
  have fol: "follows (cl_signed cl) ?n" using one i by (simp add: one_log_def)
  have h: "?h \<le> length (cl_signed cl)" by (rule follows_length [OF fol])
  then have small: "?h < 2 ^ 64" using log by (simp add: good_log_def)
  have "poa_authorities p = cs_auths S" using facts(5) p by (simp add: configured_def)
  then have addr: "address_of C (cs_keys S ! i) = producer_at S ?h"
    using turn facts(4) getProducer_nat [OF small, of p] by (simp add: getHeight_def producer_at_def)
  have "producer_at S ?h \<in> set (cs_auths S)" using facts(3) by (simp add: producer_at_def)
  then have same: "i = j" if "j < length (cl_nodes cl)" "address_of C (cs_keys S ! j) = producer_at S ?h" for j
    using setup_okD(5) [of C S i j] env that ik crewedD(1) [OF crew] addr by (simp add: environment_def)
  have full: "?h = length (cl_signed cl)"
  proof (rule ccontr)
    assume "?h \<noteq> length (cl_signed cl)"
    then have "?h < length (cl_signed cl)" using h by simp
    moreover have "0 < ?h" using consistentD(6) [OF facts(2)] by simp
    ultimately obtain j where "j < length (cl_nodes cl)" "address_of C (cs_keys S ! j) = producer_at S ?h"
        "?h < length (bc_chain (nd_chain (cl_nodes cl ! j)))"
      using one unfolding one_log_def by blast
    with same show False by blast
  qed
  obtain rest where rest: "map blk_hash (cl_signed cl) = map blk_hash (bc_chain (nd_chain ?n)) @ rest"
    using fol by (auto simp: follows_def prefix_def)
  have "length (map blk_hash (cl_signed cl)) = length (map blk_hash (bc_chain (nd_chain ?n)) @ rest)"
    by (simp only: rest)
  then have "rest = []" using full by simp
  then show "map blk_hash (bc_chain (nd_chain ?n)) = map blk_hash (cl_signed cl)" using rest by simp
  show "address_of C (cs_keys S ! i) = producer_at S (length (cl_signed cl))" using addr full by simp
qed

lemma created_block:
  "bc_consensus (nd_chain n) = Some p \<Longrightarrow> getProducer p (getHeight (nd_chain n)) = nd_addr n \<Longrightarrow>
     createBlock C J now (nd_keys n) (getLatestBlock (nd_chain n)) (getTransactionsForBlock (nd_mempool n) 100) = Inr b \<Longrightarrow>
     created C J now n = [b]"
  by (simp add: created_def)

lemma no_turn:
  assumes "bc_consensus (nd_chain n) = Some p" and "getProducer p (getHeight (nd_chain n)) \<noteq> nd_addr n"
  shows "created C J now n = []" and "snd (produceBlock C J L now n) = n"
  using assms by (simp_all add: created_def produceBlock_def proc_simps)

text \<open>A block made in turn goes to the end of the log.\<close>

lemma produce_one_log:
  assumes env: "environment C J L S" and crew: "crewed C J L S cl"
    and one: "one_log C S cl" and log: "good_log C J (cl_signed cl)" and i: "i < length (cl_nodes cl)"
    and p: "bc_consensus (nd_chain (cl_nodes cl ! i)) = Some p"
    and turn: "getProducer p (getHeight (nd_chain (cl_nodes cl ! i))) = nd_addr (cl_nodes cl ! i)"
    and room: "length (cl_signed cl') < 2 ^ 64"
    and cl': "cl' = (at_node i (produceBlock C J L now) cl)\<lparr>cl_signed := cl_signed cl @ created C J now (cl_nodes cl ! i)\<rparr>"
  shows "\<exists>b. cl_signed cl' = cl_signed cl @ [b] \<and> good_log C J (cl_signed cl') \<and> one_log C S cl' \<and>
    bc_chain (nd_chain (cl_nodes cl' ! i)) = bc_chain (nd_chain (cl_nodes cl ! i)) @ [b]"
proof -
  let ?n = "cl_nodes cl ! i"
  note owner = producer_has_log [OF env crew one log i p turn]
  have "consistent C J ?n" using member_facts(2) [OF env _ crewedD(2) [OF crew i]] i crewedD(1) [OF crew] by simp
  then obtain b where b: "createBlock C J now (nd_keys ?n) (getLatestBlock (nd_chain ?n))
        (getTransactionsForBlock (nd_mempool ?n) 100) = Inr b"
      "accepts C J (nd_chain ?n) b" "wf_block b" "took C J b ?n (snd (produceBlock C J L now ?n))"
    by (rule produceBlock_made [OF _ p turn])
  have sig: "cl_signed cl' = cl_signed cl @ [b]" by (simp add: cl' created_block [OF p turn b(1)])
  have chain: "bc_chain (nd_chain (cl_nodes cl' ! i)) = bc_chain (nd_chain ?n) @ [b]"
    using took_chain [OF b(4,2)] i by (simp add: cl')
  have other: "cl_nodes cl' ! j = cl_nodes cl ! j" if "j < length (cl_nodes cl)" "j \<noteq> i" for j
    using that by (simp add: cl')
  have len: "length (cl_nodes cl') = length (cl_nodes cl)" by (simp add: cl')
  have "length (bc_chain (nd_chain ?n)) = length (cl_signed cl)" using owner(1) by (metis length_map)
  then have "blk_index b = word_of_nat (length (cl_signed cl))" and "verifyBlock C J b"
    using b(2) by (simp_all add: accepts_def getHeight_def)
  then have good: "good_log C J (cl_signed cl')"
    using log room by (auto simp: good_log_def sig nth_append less_Suc_eq)
  have fol: "follows (cl_signed cl') (cl_nodes cl' ! j)" if j: "j < length (cl_nodes cl)" for j
  proof (cases "j = i")
    case True
    then show ?thesis using owner(1) chain by (simp add: follows_def sig)
  next
    case False
    have "follows (cl_signed cl) (cl_nodes cl ! j)" using one j by (simp add: one_log_def)
    then show ?thesis using other [OF j False] by (simp add: follows_def sig prefix_prefix)
  qed
  have own: "\<exists>j<length (cl_nodes cl'). address_of C (cs_keys S ! j) = producer_at S h \<and>
      h < length (bc_chain (nd_chain (cl_nodes cl' ! j)))" if h: "h < length (cl_signed cl')" "0 < h" for h
  proof (cases "h = length (cl_signed cl)")
    case True
    then show ?thesis
      using owner chain i len \<open>length (bc_chain (nd_chain ?n)) = length (cl_signed cl)\<close>
      by (intro exI [of _ i]) simp
  next
    case False
    then have "h < length (cl_signed cl)" using h sig by simp
    then obtain j where j: "j < length (cl_nodes cl)" "address_of C (cs_keys S ! j) = producer_at S h"
        "h < length (bc_chain (nd_chain (cl_nodes cl ! j)))"
      using one h(2) unfolding one_log_def by blast
    then have "h < length (bc_chain (nd_chain (cl_nodes cl' ! j)))"
      using chain other by (cases "j = i") auto
    with j len show ?thesis by auto
  qed
  have "one_log C S cl'" using fol own len by (auto simp: one_log_def in_set_conv_nth)
  with sig good chain show ?thesis by blast
qed

section \<open>The invariant of a cluster\<close>

lemma deliver_one_log:
  assumes env: "environment C J L S" and crew: "crewed C J L S cl"
    and one: "one_log C S cl" and log: "good_log C J (cl_signed cl)" and i: "i < length (cl_nodes cl)"
    and fit: "fit_message J msg" and auth: "\<And>b. carries J msg b \<Longrightarrow> authentic C J S cl b"
  shows "clash C J (at_node i (handleMessage C J L msg sender) cl) \<or>
    follows (cl_signed cl) (snd (handleMessage C J L msg sender (cl_nodes cl ! i)))"
proof -
  let ?n = "cl_nodes cl ! i" and ?m = "snd (handleMessage C J L msg sender (cl_nodes cl ! i))"
  have ik: "i < length (cs_keys S)" using i crewedD(1) [OF crew] by simp
  note facts = member_facts [OF env ik crewedD(2) [OF crew i]]
  have "on_log C J (cl_signed cl) (cl_paid cl) (cs_auths S) ?n"
    using env facts log one i by (simp add: on_log_def environment_def configured_def one_log_def)
  then have "on_log C J (cl_signed cl) (cl_paid cl) (cs_auths S) ?m"
    using auth by (intro keepsD [OF logging.keeps_message [OF fit]]) (simp_all add: authentic_sanctioned)
  then have "stray C J (cl_signed cl) (cl_paid cl) ?m \<or> follows (cl_signed cl) ?m" by (simp add: on_log_def)
  moreover have "clash C J (at_node i (handleMessage C J L msg sender) cl)"
    if "stray C J (cl_signed cl) (cl_paid cl) ?m"
    unfolding clash_def using that i by (intro bexI [of _ ?m]) (simp_all add: at_node_def set_update_memI)
  ultimately show ?thesis by blast
qed

text \<open>Every step keeps the log whole.\<close>

lemma step_one_log:
  assumes env: "environment C J L S" and step: "cluster_step C J L S cl cl'"
    and crew: "crewed C J L S cl"
    and one: "one_log C S cl" and log: "good_log C J (cl_signed cl)"
    and room: "length (cl_signed cl') < 2 ^ 64"
  shows "clash C J cl' \<or> good_log C J (cl_signed cl') \<and> one_log C S cl'"
proof -
  note loc = cluster_local [OF step]
  have grow: "prefix (bc_chain (nd_chain (cl_nodes cl ! j))) (bc_chain (nd_chain (cl_nodes cl' ! j)))"
    if "j < length (cl_nodes cl)" for j
    by (rule crew_step(3) [OF env crew step that])
  have old: "follows (cl_signed cl) (cl_nodes cl ! j)" if "j < length (cl_nodes cl)" for j
    using one that by (simp add: one_log_def)
  have same: "good_log C J (cl_signed cl') \<and> one_log C S cl'"
    if "cl_signed cl' = cl_signed cl" and "\<And>j. j < length (cl_nodes cl) \<Longrightarrow> follows (cl_signed cl) (cl_nodes cl' ! j)"
    using one_log_same [OF one that(1) loc(1) grow that(2)] log that(1) by simp
  have still: "good_log C J (cl_signed cl') \<and> one_log C S cl'"
    if "cl_signed cl' = cl_signed cl"
      and "\<And>j. j < length (cl_nodes cl) \<Longrightarrow> bc_chain (nd_chain (cl_nodes cl' ! j)) = bc_chain (nd_chain (cl_nodes cl ! j))"
    using same [OF that(1)] old that(2) by (simp add: follows_def)
  show ?thesis
    using step
  proof (cases rule: cluster_step.cases)
    case (cluster_submit i tx)
    then show ?thesis by (intro disjI2 still) (simp_all add: submit_chain)
  next
    case (cluster_quiet i m)
    then show ?thesis by (intro disjI2 still) (simp_all add: quiet_chain)
  next
    case (cluster_produce i now)
    have ik: "i < length (cs_keys S)" using cluster_produce(2) crewedD(1) [OF crew] by simp
    obtain p where p: "bc_consensus (nd_chain (cl_nodes cl ! i)) = Some p"
      using member_facts(5) [OF env ik crewedD(2) [OF crew cluster_produce(2)]] by (auto simp: configured_def)
    show ?thesis
    proof (cases "getProducer p (getHeight (nd_chain (cl_nodes cl ! i))) = nd_addr (cl_nodes cl ! i)")
      case True
      from produce_one_log [OF env crew one log cluster_produce(2) p True room cluster_produce(1)]
      show ?thesis by blast
    next
      case False
      note idle = no_turn [OF p False]
      show ?thesis
        using cluster_produce(2) by (intro disjI2 still) (simp_all add: cluster_produce(1) idle)
    qed
  next
    case (cluster_deliver i msg sender)
    from deliver_one_log [OF env crew one log cluster_deliver(2,3,4), of sender] show ?thesis
    proof
      assume "clash C J (at_node i (handleMessage C J L msg sender) cl)"
      then show ?thesis unfolding cluster_deliver(1) ..
    next
      assume fol: "follows (cl_signed cl) (snd (handleMessage C J L msg sender (cl_nodes cl ! i)))"
      show ?thesis
        by (intro disjI2 same) (use fol old in \<open>simp_all add: cluster_deliver(1)\<close>)
    qed
  next
    case (cluster_restart i s P port n)
    have "bc_chain (nd_chain n) = bc_chain (nd_chain (cl_nodes cl ! i))"
      using cluster_restart(2) crewedD [OF crew] by (intro restart_chain [OF env _ _ cluster_restart(3,4,5)]) simp_all
    then show ?thesis
      using cluster_restart(2) by (intro disjI2 still) (simp_all add: cluster_restart(1) nth_list_update)
  next
    case (cluster_sign tx)
    then show ?thesis by (intro disjI2 still) simp_all
  qed
qed

lemma cluster_inv_step:
  assumes env: "environment C J L S" and inv: "cluster_inv C J L S cl" and step: "cluster_step C J L S cl cl'"
  shows "cluster_inv C J L S cl'"
proof -
  have sig: "prefix (cl_signed cl) (cl_signed cl')" by (rule cluster_local(3) [OF step])
  have crew: "crewed C J L S cl" and ne: "cl_signed cl \<noteq> []" using inv by (simp_all add: cluster_inv_def)
  note moved = crew_step [OF env crew step]
  have "clash C J cl' \<or> good_log C J (cl_signed cl') \<and> one_log C S cl'" if room: "length (cl_signed cl') < 2 ^ 64"
  proof -
    have "length (cl_signed cl) < 2 ^ 64" using prefix_length_le [OF sig] room by simp
    then consider "clash C J cl" | "good_log C J (cl_signed cl)" "one_log C S cl"
      using inv by (auto simp: cluster_inv_def)
    then show ?thesis
    proof cases
      case 1
      then show ?thesis using moved(2) by blast
    next
      case 2
      then show ?thesis using step_one_log [OF env step crew _ _ room] by blast
    qed
  qed
  then show ?thesis using moved(1) ne sig by (auto simp: cluster_inv_def)
qed

lemma cluster_inv_born:
  assumes env: "environment C J L S" and size: "length ns = length (cs_keys S)"
    and born: "\<And>i. i < length ns \<Longrightarrow> born C J L S i (ns ! i)" and g: "createGenesisBlock C J (cs_genesis S) = Inr g"
  shows "cluster_inv C J L S \<lparr>cl_nodes = ns, cl_signed = [g], cl_paid = []\<rparr>"
proof -
  have ok: "crypto_ok C" and S: "setup_ok C S" using env by (simp_all add: environment_def)
  have new: "member C J L S i (ns ! i)" "bc_chain (nd_chain (ns ! i)) = [g]" if "i < length ns" for i
    using born_member [OF env _ born [OF that] g] that size by simp_all
  have "verifyBlock C J g" "blk_index g = 0"
    using createGenesisBlock_verifies [OF ok setup_okD(1) [OF S] g] createGenesisBlock_Inr(1) [OF g] by simp_all
  then have "good_log C J [g]" by (simp add: good_log_def)
  moreover have "one_log C S \<lparr>cl_nodes = ns, cl_signed = [g], cl_paid = []\<rparr>"
    using new(2) by (auto simp: one_log_def follows_def in_set_conv_nth)
  ultimately show ?thesis using size new(1) by (simp add: cluster_inv_def crewed_def)
qed

lemma cluster_run_inv:
  assumes "cluster_run C J L S cl" and "environment C J L S"
  shows "cluster_inv C J L S cl"
  using assms(1)
proof (induction rule: cluster_run.induct)
  case (cluster_born ns g)
  then show ?case by (intro cluster_inv_born [OF assms(2)])
next
  case (cluster_more cl cl')
  then show ?case using cluster_inv_step [OF assms(2)] by blast
qed

text \<open>What follows from the invariant when nothing collides.\<close>

lemma cluster_invD:
  assumes "cluster_inv C J L S cl" and "length (cl_signed cl) < 2 ^ 64" and "\<not> clash C J cl"
  shows "crewed C J L S cl" and "cl_signed cl \<noteq> []" and "length (cl_nodes cl) = length (cs_keys S)"
    and "i < length (cl_nodes cl) \<Longrightarrow> member C J L S i (cl_nodes cl ! i)"
    and "good_log C J (cl_signed cl)" and "one_log C S cl"
    and "n \<in> set (cl_nodes cl) \<Longrightarrow> follows (cl_signed cl) n"
  using assms by (auto simp: cluster_inv_def crewed_def one_log_def)

section \<open>An abstract journal\<close>

text \<open>
  One log of block hashes, append-only, and how much of it each participant has read. Anyone
  may read on; only the owner of the next position, having read everything, may append.
\<close>

record journal =
  jn_log :: "hash32 list"
  jn_read :: "nat list"

inductive journal_step :: "(nat \<Rightarrow> nat \<Rightarrow> bool) \<Rightarrow> journal \<Rightarrow> journal \<Rightarrow> bool" for owner where
  journal_idle: "journal_step owner l l"
| journal_read: "i < length (jn_read l) \<Longrightarrow> jn_read l ! i \<le> k \<Longrightarrow> k \<le> length (jn_log l) \<Longrightarrow>
     journal_step owner l (l\<lparr>jn_read := (jn_read l)[i := k]\<rparr>)"
| journal_append: "i < length (jn_read l) \<Longrightarrow> owner i (length (jn_log l)) \<Longrightarrow> jn_read l ! i = length (jn_log l) \<Longrightarrow>
     journal_step owner l
       (l\<lparr>jn_log := jn_log l @ [h], jn_read := (jn_read l)[i := Suc (length (jn_log l))]\<rparr>)"

definition journal_of :: "('d, 'j) cluster \<Rightarrow> journal" where
  "journal_of cl =
     \<lparr>jn_log = map blk_hash (cl_signed cl), jn_read = map (\<lambda>n. length (bc_chain (nd_chain n))) (cl_nodes cl)\<rparr>"

definition owns :: "crypto_api \<Rightarrow> cluster_setup \<Rightarrow> nat \<Rightarrow> nat \<Rightarrow> bool" where
  "owns C S i h \<longleftrightarrow> address_of C (cs_keys S ! i) = producer_at S h"

lemma follows_take:
  assumes "follows log n"
  shows "map blk_hash (bc_chain (nd_chain n)) = take (length (bc_chain (nd_chain n))) (map blk_hash log)"
  using assms by (auto simp: follows_def prefix_def)

lemma journal_node_step:
  assumes nodes: "cl_nodes cl' = (cl_nodes cl)[i := n]" and sig: "cl_signed cl' = cl_signed cl"
    and grow: "i < length (cl_nodes cl) \<Longrightarrow> prefix (bc_chain (nd_chain (cl_nodes cl ! i))) (bc_chain (nd_chain n))"
    and fol: "i < length (cl_nodes cl) \<Longrightarrow> follows (cl_signed cl) n"
  shows "journal_step (owns C S) (journal_of cl) (journal_of cl')"
proof (cases "i < length (cl_nodes cl)")
  case True
  have "journal_of cl' = (journal_of cl)\<lparr>jn_read := (jn_read (journal_of cl))[i := length (bc_chain (nd_chain n))]\<rparr>"
    by (simp add: journal_of_def nodes sig map_update)
  moreover have "journal_step (owns C S) (journal_of cl)
      ((journal_of cl)\<lparr>jn_read := (jn_read (journal_of cl))[i := length (bc_chain (nd_chain n))]\<rparr>)"
    using True prefix_length_le [OF grow] follows_length [OF fol]
    by (intro journal_read) (simp_all add: journal_of_def)
  ultimately show ?thesis by simp
next
  case False
  then have "cl_nodes cl' = cl_nodes cl" by (simp add: nodes list_update_beyond)
  then have "journal_of cl' = journal_of cl" by (simp add: journal_of_def sig)
  then show ?thesis by (simp add: journal_idle)
qed

lemma journal_produce_step:
  assumes i: "i < length (cl_nodes cl)" and own: "owns C S i (length (cl_signed cl))"
    and full: "length (bc_chain (nd_chain (cl_nodes cl ! i))) = length (cl_signed cl)"
    and chain: "bc_chain (nd_chain n) = bc_chain (nd_chain (cl_nodes cl ! i)) @ [b]"
    and nodes: "cl_nodes cl' = (cl_nodes cl)[i := n]" and sig: "cl_signed cl' = cl_signed cl @ [b]"
  shows "journal_step (owns C S) (journal_of cl) (journal_of cl')"
proof -
  let ?l = "journal_of cl"
  have "journal_of cl' = ?l\<lparr>jn_log := jn_log ?l @ [blk_hash b],
      jn_read := (jn_read ?l)[i := Suc (length (jn_log ?l))]\<rparr>"
    using chain full by (simp add: journal_of_def nodes sig map_update)
  moreover have "journal_step (owns C S) ?l (?l\<lparr>jn_log := jn_log ?l @ [blk_hash b],
      jn_read := (jn_read ?l)[i := Suc (length (jn_log ?l))]\<rparr>)"
    using i own full by (intro journal_append) (simp_all add: journal_of_def)
  ultimately show ?thesis by simp
qed

text \<open>Every step of the cluster is a step of the journal.\<close>

lemma cluster_journal_step:
  assumes env: "environment C J L S" and inv: "cluster_inv C J L S cl" and step: "cluster_step C J L S cl cl'"
    and room: "length (cl_signed cl') < 2 ^ 64" and safe: "\<not> clash C J cl'"
  shows "journal_step (owns C S) (journal_of cl) (journal_of cl')"
proof -
  have room0: "length (cl_signed cl) < 2 ^ 64" using prefix_length_le [OF cluster_local(3) [OF step]] room by simp
  have crew: "crewed C J L S cl" using inv by (simp add: cluster_inv_def)
  have safe0: "\<not> clash C J cl" using crew_step(2) [OF env crew step] safe by blast
  note now = cluster_invD [OF inv room0 safe0] and after = cluster_invD [OF cluster_inv_step [OF env inv step] room safe]
  have plain: "journal_step (owns C S) (journal_of cl) (journal_of cl')"
    if "cl_nodes cl' = (cl_nodes cl)[i := n]" "cl_signed cl' = cl_signed cl" for i n
  proof (rule journal_node_step [OF that])
    assume i: "i < length (cl_nodes cl)"
    then have n: "cl_nodes cl' ! i = n" "n \<in> set (cl_nodes cl')" using that(1) by (simp_all add: set_update_memI)
    then show "prefix (bc_chain (nd_chain (cl_nodes cl ! i))) (bc_chain (nd_chain n))"
      using crew_step(3) [OF env crew step i] by simp
    show "follows (cl_signed cl) n" using after(7) [OF n(2)] that(2) by simp
  qed
  show ?thesis
    using step
  proof (cases rule: cluster_step.cases)
    case (cluster_produce i now)
    have ik: "i < length (cs_keys S)" using cluster_produce(2) now(3) by simp
    obtain p where p: "bc_consensus (nd_chain (cl_nodes cl ! i)) = Some p"
      using member_facts(5) [OF env ik now(4) [OF cluster_produce(2)]] by (auto simp: configured_def)
    show ?thesis
    proof (cases "getProducer p (getHeight (nd_chain (cl_nodes cl ! i))) = nd_addr (cl_nodes cl ! i)")
      case True
      note owner = producer_has_log [OF env crew now(6,5) cluster_produce(2) p True]
      obtain b where b: "cl_signed cl' = cl_signed cl @ [b]"
          "bc_chain (nd_chain (cl_nodes cl' ! i)) = bc_chain (nd_chain (cl_nodes cl ! i)) @ [b]"
        using produce_one_log [OF env crew now(6,5) cluster_produce(2) p True room cluster_produce(1)] by blast
      have "length (bc_chain (nd_chain (cl_nodes cl ! i))) = length (cl_signed cl)"
        using owner(1) by (metis length_map)
      then show ?thesis
        using owner(2) b(2) cluster_produce(2)
        by (intro journal_produce_step [OF cluster_produce(2) _ _ b(2) _ b(1)])
          (simp_all add: owns_def cluster_produce(1) at_node_def)
    next
      case False
      then show ?thesis
        by (intro plain [of i "snd (produceBlock C J L now (cl_nodes cl ! i))"])
          (simp_all add: cluster_produce(1) no_turn [OF p False] at_node_def)
    qed
  next
    case (cluster_submit i tx)
    then show ?thesis by (intro plain [of i "snd (submitTransaction C J tx (cl_nodes cl ! i))"]) (simp_all add: at_node_def)
  next
    case (cluster_quiet i m)
    then show ?thesis by (intro plain [of i "snd (m (cl_nodes cl ! i))"]) (simp_all add: at_node_def)
  next
    case (cluster_deliver i msg sender)
    then show ?thesis by (intro plain [of i "snd (handleMessage C J L msg sender (cl_nodes cl ! i))"]) (simp_all add: at_node_def)
  next
    case (cluster_restart i s P port n)
    then show ?thesis by (intro plain [of i n]) simp_all
  next
    case (cluster_sign tx)
    then show ?thesis by (simp add: journal_idle journal_of_def)
  qed
qed

end
