(* ===== verification/Cluster_Progress.thy ===== *)
theory Cluster_Progress
  imports Cluster_Log
begin

text \<open>
  What a cluster's log gives its nodes: chains with the same hashes stand for the same
  accounts, unless two hashed texts collide; and the rest of the log, sent to a node that is behind,
  brings the node up to it.
\<close>

section \<open>Equal hashes, equal accounts\<close>

definition collide :: "crypto_api \<Rightarrow> bytes set \<Rightarrow> bytes set \<Rightarrow> bool" where
  "collide C X Y \<longleftrightarrow> (\<exists>x\<in>X. \<exists>y\<in>Y. collision C x y)"

text \<open>Every text that was hashed for a block of the chain.\<close>

definition block_texts :: "crypto_api \<Rightarrow> 'j json_api \<Rightarrow> block \<Rightarrow> bytes set" where
  "block_texts C J b = {header_bytes C J b, root_bytes b} \<union> paid_text J ` set (blk_transactions b)"

definition chain_texts :: "crypto_api \<Rightarrow> 'j json_api \<Rightarrow> ('d, 'j) node \<Rightarrow> bytes set" where
  "chain_texts C J n = (\<Union>b\<in>set (bc_chain (nd_chain n)). block_texts C J b)"

lemma collide_mono: "collide C X Y \<Longrightarrow> X \<subseteq> X' \<Longrightarrow> Y \<subseteq> Y' \<Longrightarrow> collide C X' Y'"
  unfolding collide_def by blast

lemma run_txs_cong: "map signable xs = map signable ys \<Longrightarrow> run_txs accs xs = run_txs accs ys"
proof (induction xs arbitrary: accs ys)
  case (Cons x xs)
  then obtain y ys' where ys: "ys = y # ys'" "signable x = signable y" "map signable xs = map signable ys'"
    by (cases ys) auto
  then have "can_pay accs x = can_pay accs y" and "transfer accs x = transfer accs y"
    by (simp_all add: signable_def can_pay_def transfer_def)
  then show ?case using Cons.IH [OF ys(3)] ys(1) by simp
qed simp

lemma verified_same_hash_signable:
  assumes J: "json_ok J" and V: "verifyTransaction C J x" "verifyTransaction C J y" and hash: "tx_hash x = tx_hash y"
    and safe: "\<not> collision C (paid_text J x) (paid_text J y)"
  shows "signable x = signable y"
proof -
  have "digest C (paid_text J x) = digest C (paid_text J y)"
    using V hash by (simp add: verifyTransaction_iff computeTransactionHash_paid_text)
  then have "paid_text J x = paid_text J y" using safe by (rule equal_digest)
  then have "signableJson J x = signableJson J y"
    using J by (simp add: paid_text_def json_text_inject signableJson_plain)
  then show ?thesis by (simp add: signableJson_inject [OF J])
qed

lemma same_hash_block:
  assumes C: "evp_ok C" and J: "json_ok J" and V: "verifyBlock C J a" "verifyBlock C J b"
    and hash: "blk_hash a = blk_hash b" and safe: "\<not> collide C (block_texts C J a) (block_texts C J b)"
  shows "map signable (blk_transactions a) = map signable (blk_transactions b)"
proof -
  have "hash_safe C J a b" using safe by (auto simp: hash_safe_def collide_def block_texts_def)
  then have "header a = header b" by (intro verified_hash_binds [OF C J V hash])
  then have hashes: "map tx_hash (blk_transactions a) = map tx_hash (blk_transactions b)"
    by (simp add: header_def)
  show ?thesis
  proof (rule nth_equalityI)
    show len: "length (map signable (blk_transactions a)) = length (map signable (blk_transactions b))"
      using arg_cong [OF hashes, of length] by simp
    fix i assume "i < length (map signable (blk_transactions a))"
    then have i: "i < length (blk_transactions a)" "i < length (blk_transactions b)" using len by simp_all
    then have "tx_hash (blk_transactions a ! i) = tx_hash (blk_transactions b ! i)"
      using hashes by (metis nth_map)
    moreover have "\<not> collision C (paid_text J (blk_transactions a ! i)) (paid_text J (blk_transactions b ! i))"
      using safe i by (auto simp: collide_def block_texts_def)
    moreover have "verifyTransaction C J (blk_transactions a ! i)" "verifyTransaction C J (blk_transactions b ! i)"
      using V i by (auto simp: verifyBlock_iff list_all_length)
    ultimately have "signable (blk_transactions a ! i) = signable (blk_transactions b ! i)"
      by (intro verified_same_hash_signable [OF J])
    then show "map signable (blk_transactions a) ! i = map signable (blk_transactions b) ! i" using i by simp
  qed
qed

lemma same_hashes_replay:
  assumes C: "evp_ok C" and J: "json_ok J"
  shows "map blk_hash as = map blk_hash bs \<Longrightarrow> list_all (verifyBlock C J) as \<Longrightarrow> list_all (verifyBlock C J) bs \<Longrightarrow>
     \<not> collide C (\<Union>b\<in>set as. block_texts C J b) (\<Union>b\<in>set bs. block_texts C J b) \<Longrightarrow> replay accs as = replay accs bs"
proof (induction as arbitrary: accs bs)
  case (Cons a as)
  then obtain b bs' where bs: "bs = b # bs'" "blk_hash a = blk_hash b" "map blk_hash as = map blk_hash bs'"
    by (cases bs) auto
  have safe: "\<not> collide C (block_texts C J a) (block_texts C J b)"
    "\<not> collide C (\<Union>b\<in>set as. block_texts C J b) (\<Union>b\<in>set bs'. block_texts C J b)"
    using Cons.prems(4) by (auto simp: bs(1) collide_def)
  have "map signable (blk_transactions a) = map signable (blk_transactions b)"
    using Cons.prems(2,3) bs by (intro same_hash_block [OF C J _ _ bs(2) safe(1)]) simp_all
  from run_txs_cong [OF this, of accs] have "settle_txs accs a = settle_txs accs b" by (simp add: settle_txs_def)
  then show ?case using Cons.IH [OF bs(3) _ _ safe(2)] Cons.prems(2,3) bs(1) by (simp add: replay_def)
qed (simp add: replay_def)

lemma set_tlD: "x \<in> set (tl xs) \<Longrightarrow> x \<in> set xs"
  by (cases xs) simp_all

lemma same_hashes_same_accounts:
  fixes m n :: "('d, 'j) node"
  assumes m: "consistent C J m" and n: "consistent C J n" and J: "json_ok J"
    and allocs: "nd_genesisAllocations m = nd_genesisAllocations n"
    and hashes: "map blk_hash (bc_chain (nd_chain m)) = map blk_hash (bc_chain (nd_chain n))"
    and safe: "\<not> collide C (chain_texts C J m) (chain_texts C J n)"
  shows "st_accounts (nd_state m) = st_accounts (nd_state n)"
proof -
  have "list_all (verifyBlock C J) (bc_chain (nd_chain k))" if "consistent C J k" for k :: "('d, 'j) node"
    using valid_blocks_verify [OF consistentD(5) [OF that]] by (simp add: list_all_iff)
  then have V: "list_all (verifyBlock C J) (tl (bc_chain (nd_chain m)))" "list_all (verifyBlock C J) (tl (bc_chain (nd_chain n)))"
    using m n by (auto simp: list_all_iff dest: set_tlD)
  have "map blk_hash (tl (bc_chain (nd_chain m))) = map blk_hash (tl (bc_chain (nd_chain n)))"
    using hashes by (metis map_tl)
  moreover have "\<not> collide C (\<Union>b\<in>set (tl (bc_chain (nd_chain m))). block_texts C J b)
      (\<Union>b\<in>set (tl (bc_chain (nd_chain n))). block_texts C J b)"
    using safe by (rule contrapos_nn) (erule collide_mono, auto simp: chain_texts_def dest: set_tlD)
  ultimately have "replay accs (tl (bc_chain (nd_chain m))) = replay accs (tl (bc_chain (nd_chain n)))" for accs
    by (intro same_hashes_replay [OF crypto_okD(1) [OF consistentD(1) [OF m]] J _ V])
  then show ?thesis
    using consistentD(3) [OF m] consistentD(3) [OF n] allocs by (simp add: chain_inv_def genesis_accounts_def)
qed

section \<open>Catching up\<close>

lemma valid_blocks_graft:
  assumes xs: "valid_blocks C J xs" and len: "length xs = length ys" and tip: "blk_hash (last xs) = blk_hash (last ys)"
  shows "valid_blocks C J (ys @ rest) \<Longrightarrow> valid_blocks C J (xs @ rest)"
proof (induction rest rule: rev_induct)
  case (snoc b rest)
  have ne: "xs \<noteq> []" "ys \<noteq> []" using valid_blocks_nonempty [OF xs] len by auto
  have "valid_blocks C J (ys @ rest)" "blk_index b = word_of_nat (length (ys @ rest))"
      "blk_previousHash b = blk_hash (last (ys @ rest))" "verifyBlock C J b"
    using snoc.prems ne valid_blocks_snoc [of "ys @ rest" C J b] by simp_all
  then show ?case
    using snoc.IH ne len tip valid_blocks_snoc [of "xs @ rest" C J b] by (simp add: last_append)
qed (simp add: xs)

lemma scheduled_graft:
  "scheduled p xs \<Longrightarrow> scheduled p (ys @ rest) \<Longrightarrow> length xs = length ys \<Longrightarrow> scheduled p (xs @ rest)"
  by (auto simp: scheduled_def nth_append)

lemma member_store_ready:
  assumes "recoverable C J L n" and "length (bc_chain (nd_chain n)) < 2 ^ 64"
  shows "store_ready L n"
  using assms chain_stored_open by (auto simp: recoverable_def store_ready_def)

lemma follows_full:
  assumes "follows log n" and "length (bc_chain (nd_chain n)) = length log"
  shows "map blk_hash (bc_chain (nd_chain n)) = map blk_hash log"
  using follows_take [OF assms(1)] assms(2) by simp

text \<open>The rest of a full node's chain, sent as the code answers a request for blocks, fills a node up.\<close>

lemma fills_up:
  assumes J: "json_ok J" and n: "recoverable C J L n" and a: "consistent C J a"
    and conf: "configured auths allocs n" "configured auths allocs a"
    and fol: "follows log n" and full: "follows log a" "length (bc_chain (nd_chain a)) = length log"
    and room: "length log < 2 ^ 64"
    and rest: "rest = drop (length (bc_chain (nd_chain n))) (bc_chain (nd_chain a))"
    and n': "n' = snd (handleMessage C J L (blocksMessage J (map (blockToJson J) rest)) p n)"
  shows "bc_chain (nd_chain n') = bc_chain (nd_chain n) @ rest" and "length (bc_chain (nd_chain n')) = length log"
proof -
  let ?xs = "bc_chain (nd_chain n)" and ?as = "bc_chain (nd_chain a)"
  let ?ys = "take (length ?xs) ?as" and ?rest = "drop (length ?xs) ?as"
  have cons: "consistent C J n" using n by (simp add: recoverable_def)
  have short: "length ?xs \<le> length log" by (rule follows_length [OF fol])
  have ne: "?xs \<noteq> []" by (rule consistentD(6) [OF cons])
  have len: "length ?xs = length ?ys" using short full(2) by simp
  have "map blk_hash ?xs = map blk_hash ?ys"
    using follows_take [OF fol] follows_full [OF full] by (metis take_map)
  moreover have "?ys \<noteq> []" using ne len by auto
  ultimately have tip: "blk_hash (last ?xs) = blk_hash (last ?ys)" using ne by (metis last_map)
  have valid: "valid_blocks C J (?xs @ ?rest)"
    using valid_blocks_graft [OF consistentD(5) [OF cons] len tip, of ?rest] consistentD(5) [OF a] by simp
  have ready: "store_ready L n" using member_store_ready [OF n] short room by simp
  obtain m where m: "sync_blocks C J L (map (blockToJson J) ?rest) n = (Inr (), m)" "bc_chain (nd_chain m) = ?xs @ ?rest"
  proof (atomize_elim, rule sync_follows [OF J ne ready valid])
    show "list_all wf_block ?rest"
      using consistentD(4) [OF a] by (auto simp: wf_node_def list_all_iff dest: in_set_dropD)
    fix q assume q: "bc_consensus (nd_chain n) = Some q"
    then obtain q' where q': "bc_consensus (nd_chain a) = Some q'" "poa_authorities q' = poa_authorities q"
      using conf by (auto simp: configured_def)
    then have "scheduled q (?ys @ ?rest)"
      using consistentD(7) [OF a] scheduled_cong [of q' q] by (simp add: chain_scheduled_def)
    moreover have "scheduled q ?xs" using consistentD(7) [OF cons] q by (simp add: chain_scheduled_def)
    ultimately show "scheduled q (?xs @ ?rest)" using scheduled_graft [OF _ _ len] by blast
  qed
  have "handleMessage C J L (blocksMessage J (map (blockToJson J) ?rest)) p n = (Inr (), m)"
    using m(1) by (simp add: handleMessage_def blocksMessage_def onBlocks_def bind_eval_p json_at [OF J] json_leaf [OF J])
  then show "bc_chain (nd_chain n') = bc_chain (nd_chain n) @ rest" using m(2) by (simp add: n' rest)
  then show "length (bc_chain (nd_chain n')) = length log" using short full(2) by (simp add: rest)
qed

lemma rest_authentic:
  assumes J: "json_ok J" and a: "consistent C J a" and fol: "follows (cl_signed cl) a"
    and carried: "carries J (blocksMessage J (map (blockToJson J) (drop k (bc_chain (nd_chain a))))) b"
  shows "authentic C J S cl b"
proof -
  obtain b' where b': "b' \<in> set (bc_chain (nd_chain a))" "blockFromJson J (blockToJson J b') = Inr b"
    using carried by (auto simp: carries_def blocksMessage_def json_at [OF J] json_leaf [OF J] dest: in_set_dropD)
  moreover have "wf_block b'" using consistentD(4) [OF a] b'(1) by (simp add: wf_node_def list_all_iff)
  ultimately have "b = b'" using blockFromJson_toJson [OF J] by simp
  moreover have "blk_hash b' \<in> set (map blk_hash (cl_signed cl))"
    using set_mono_prefix [OF fol [unfolded follows_def]] b'(1) by auto
  ultimately show ?thesis by (simp add: authentic_def)
qed

section \<open>Several steps\<close>

lemma cluster_run_steps: "(cluster_step C J L S)\<^sup>*\<^sup>* cl cl' \<Longrightarrow> cluster_run C J L S cl \<Longrightarrow> cluster_run C J L S cl'"
  by (induction rule: rtranclp_induct) (auto intro: cluster_more)

text \<open>What steps keep, over any number of them.\<close>

lemma crew_steps:
  assumes env: "environment C J L S" and crew: "crewed C J L S cl" and steps: "(cluster_step C J L S)\<^sup>*\<^sup>* cl cl'"
  shows "crewed C J L S cl' \<and> length (cl_nodes cl') = length (cl_nodes cl) \<and> prefix (cl_signed cl) (cl_signed cl') \<and>
    (clash C J cl \<longrightarrow> clash C J cl') \<and>
    (\<forall>i<length (cl_nodes cl). prefix (bc_chain (nd_chain (cl_nodes cl ! i))) (bc_chain (nd_chain (cl_nodes cl' ! i))))"
  using steps
proof (induction rule: rtranclp_induct)
  case base
  then show ?case using crew by simp
next
  case (step cl1 cl2)
  then have "crewed C J L S cl1" by simp
  note this_step = crew_step [OF env this step(2)] cluster_local(1,3) [OF step(2)]
  show ?case
    using step.IH this_step by (auto intro: prefix_order.order_trans)
qed

lemma follows_nth:
  "follows log n \<Longrightarrow> h < length (bc_chain (nd_chain n)) \<Longrightarrow>
     h < length log \<and> blk_hash (bc_chain (nd_chain n) ! h) = blk_hash (log ! h)"
  using follows_length [of log n] follows_take [of log n] nth_map [of h "bc_chain (nd_chain n)" blk_hash]
  by simp

end
