(* ===== verification/Gossip.thy ===== *)
theory Gossip
  imports Node_Facts
begin

text \<open>
  How messages give rise to messages. Nodes are joined by sessions; what a node hands to one of
  them is in flight until it is lost or handled by the node at the other end, in any order. A node
  forwards a block only when its chain grows and a transaction only when its pool grows, and
  everything else is answered by at most one message of a lower rank; so the exchange comes to rest.
\<close>

section \<open>What handling a message does\<close>

text \<open>Messages handed to sessions by a procedure, and one that hands over nothing.\<close>

definition posted_since :: "('d, 'j) node \<Rightarrow> ('d, 'j) node \<Rightarrow> (nat \<times> 'j message) list" where
  "posted_since n n' = drop (length (net_posted (nd_network n))) (net_posted (nd_network n'))"

lemma send_to_posts: "\<exists>k. net_posted (snd (send_to J p m t)) = net_posted t @ map (\<lambda>p. (p, m)) k \<and> length k \<le> 1"
proof (cases "serializeMessage J m")
  case (Inl e)
  then show ?thesis by (intro exI [of _ "[]"]) (simp add: send_to_def bind_eval_p)
next
  case (Inr f)
  then show ?thesis by (intro exI [of _ "[p]"]) (simp add: send_to_run)
qed

lemma broadcast_posts: "\<exists>k. net_posted (snd (broadcast J m ex t)) = net_posted t @ map (\<lambda>p. (p, m)) k"
proof -
  have "\<exists>k. net_posted (snd (for_p ps (\<lambda>p. if Some p \<noteq> ex then send_to J p m else ret ()) t)) =
      net_posted t @ map (\<lambda>p. (p, m)) k" for ps
  proof (induction ps arbitrary: t)
    case Nil
    then show ?case by (simp add: proc_simps)
  next
    case (Cons p ps)
    let ?first = "(if Some p \<noteq> ex then send_to J p m else ret ()) t"
    obtain k where k: "net_posted (snd ?first) = net_posted t @ map (\<lambda>p. (p, m)) k"
      using send_to_posts [of J p m t] by (cases "Some p = ex") (auto simp: proc_simps)
    obtain k' where k': "net_posted (snd (for_p ps (\<lambda>p. if Some p \<noteq> ex then send_to J p m else ret ()) (snd ?first))) =
        net_posted (snd ?first) @ map (\<lambda>p. (p, m)) k'"
      using Cons.IH by blast
    show ?case
    proof (cases ?first)
      case (Pair r t')
      then show ?thesis
        using k k' by (cases r) (auto simp: then_p_def bind_p_def simp flip: map_append)
    qed
  qed
  then show ?thesis by (simp add: broadcast_def proc_simps)
qed

lemma chain_reject:
  "\<not> accepts C J c b \<Longrightarrow> bc_chain (snd (addBlock C J c b)) = bc_chain c"
  by (simp add: addBlock_chain)

text \<open>Blocks with consecutive indices.\<close>

fun numbered_from :: "nat \<Rightarrow> block list \<Rightarrow> bool" where
  "numbered_from k [] = True"
| "numbered_from k (b # bs) \<longleftrightarrow> blk_index b = word_of_nat k \<and> numbered_from (Suc k) bs"

lemma sync_outcome:
  "\<exists>bs. bc_chain (nd_chain (snd (sync_blocks C J L js n))) = bc_chain (nd_chain n) @ bs \<and>
     numbered_from (length (bc_chain (nd_chain n))) bs \<and>
     (\<forall>b\<in>set bs. \<exists>j\<in>set js. blockFromJson J j = Inr b) \<and>
     nd_network (snd (sync_blocks C J L js n)) = nd_network n \<and>
     (bs = [] \<longrightarrow> nd_mempool (snd (sync_blocks C J L js n)) = nd_mempool n)"
proof (induction js arbitrary: n)
  case Nil
  then show ?case by (simp add: proc_simps)
next
  case (Cons j js)
  show ?case
  proof (cases "blockFromJson J j")
    case (Inl e)
    then show ?thesis by (simp add: bind_eval_p)
  next
    case (Inr b)
    consider (skip) "blk_index b < getHeight (nd_chain n)" | (gap) "\<not> blk_index b < getHeight (nd_chain n)"
        "blk_index b \<noteq> getHeight (nd_chain n)" | (at_tip) "blk_index b = getHeight (nd_chain n)"
      by blast
    then show ?thesis
    proof cases
      case skip
      then show ?thesis using Cons.IH [of n] by (auto simp: bind_eval_p Inr)
    next
      case gap
      then show ?thesis by (simp add: bind_eval_p Inr proc_simps)
    next
      case at_tip
      show ?thesis
      proof (cases rule: acceptBlock_cases [of C J n b L])
        case reject
        then show ?thesis using at_tip by (simp add: bind_eval_p Inr proc_simps chain_reject)
      next
        case (accept s)
        let ?n = "(settle C J b n)\<lparr>nd_storage := s\<rparr>"
        obtain bs where bs: "bc_chain (nd_chain (snd (sync_blocks C J L js ?n))) = bc_chain (nd_chain ?n) @ bs"
            "numbered_from (length (bc_chain (nd_chain ?n))) bs" "\<forall>b\<in>set bs. \<exists>j\<in>set js. blockFromJson J j = Inr b"
            "nd_network (snd (sync_blocks C J L js ?n)) = nd_network ?n"
          using Cons.IH [of ?n] by blast
        then show ?thesis
          using at_tip accept Inr by (intro exI [of _ "b # bs"]) (auto simp: bind_eval_p proc_simps settle_chain getHeight_def)
      next
        case (failed e s)
        then show ?thesis
          using at_tip Inr by (intro exI [of _ "[b]"]) (simp add: bind_eval_p proc_simps settle_chain getHeight_def)
      qed
    qed
  qed
qed

text \<open>The order in which messages give rise to one another.\<close>

fun rank :: "message_type \<Rightarrow> nat" where
  "rank NEW_BLOCK = 3"
| "rank NEW_TX = 3"
| "rank GET_BLOCKS = 2"
| "rank PING = 2"
| "rank BLOCKS = 1"
| "rank PONG = 1"

text \<open>
  One message handled: the chain grows by blocks the message carries, and only then is a message
  forwarded as it is; or the pool grows by the transaction it carries; or the message is answered at
  most once, at a lower rank, by a request or by blocks of the chain.
\<close>

definition forwards :: "'j message \<Rightarrow> (nat \<times> 'j message) list \<Rightarrow> bool" where
  "forwards msg ps \<longleftrightarrow> (\<forall>(p, m)\<in>set ps. m = msg)"

definition grows :: "'j json_api \<Rightarrow> 'j message \<Rightarrow> ('d, 'j) node \<Rightarrow> ('d, 'j) node \<Rightarrow> bool" where
  "grows J msg n n' \<longleftrightarrow>
     (\<exists>bs. bs \<noteq> [] \<and> bc_chain (nd_chain n') = bc_chain (nd_chain n) @ bs \<and>
        numbered_from (length (bc_chain (nd_chain n))) bs \<and> (\<forall>b\<in>set bs. carries J msg b)) \<and>
     forwards msg (posted_since n n')"

definition pools :: "'j json_api \<Rightarrow> 'j message \<Rightarrow> ('d, 'j) node \<Rightarrow> ('d, 'j) node \<Rightarrow> bool" where
  "pools J msg n n' \<longleftrightarrow>
     bc_chain (nd_chain n') = bc_chain (nd_chain n) \<and>
     (\<exists>tx. msg_type msg = NEW_TX \<and> transactionFromJson J (msg_payload msg) = Inr tx \<and>
        \<not> contains (nd_mempool n) (tx_hash tx) \<and> contains (nd_mempool n') (tx_hash tx) \<and>
        (\<forall>h. contains (nd_mempool n) h \<longrightarrow> contains (nd_mempool n') h)) \<and>
     forwards msg (posted_since n n')"

definition answers :: "'j json_api \<Rightarrow> 'j message \<Rightarrow> ('d, 'j) node \<Rightarrow> ('d, 'j) node \<Rightarrow> bool" where
  "answers J msg n n' \<longleftrightarrow>
     bc_chain (nd_chain n') = bc_chain (nd_chain n) \<and>
     (\<forall>h. contains (nd_mempool n') h = contains (nd_mempool n) h) \<and>
     (posted_since n n' = [] \<or>
      (\<exists>p m. posted_since n n' = [(p, m)] \<and> rank (msg_type m) < rank (msg_type msg) \<and>
         (msg_type m = PONG \<or> msg_type m = GET_BLOCKS \<or>
          (\<exists>bs. set bs \<subseteq> set (bc_chain (nd_chain n)) \<and> m = blocksMessage J (map (blockToJson J) bs)))))"

lemma answered_once:
  assumes "rank (msg_type m) < rank (msg_type msg)"
    and "msg_type m = PONG \<or> msg_type m = GET_BLOCKS \<or>
      (\<exists>bs. set bs \<subseteq> set (bc_chain (nd_chain n)) \<and> m = blocksMessage J (map (blockToJson J) bs))"
  shows "answers J msg n (snd (on_network (send_to J p m) n))"
proof -
  obtain k where "net_posted (snd (send_to J p m (nd_network n))) = net_posted (nd_network n) @ map (\<lambda>p. (p, m)) k"
    and "length k \<le> 1"
    using send_to_posts by blast
  then show ?thesis
    using assms by (cases k) (auto simp: answers_def posted_since_def on_network_snd)
qed

lemma answers_nothing:
  assumes "bc_chain (nd_chain n') = bc_chain (nd_chain n)" and "mp_pending (nd_mempool n') = mp_pending (nd_mempool n)"
    and "nd_network n' = nd_network n"
  shows "answers J msg n n'"
  using assms by (simp add: answers_def contains_def posted_since_def)

lemma broadcast_forwards:
  assumes "nd_network n = nd_network n0"
  shows "forwards m (posted_since n0 (snd (on_network (broadcast J m ex) n)))"
proof -
  obtain k where "net_posted (snd (broadcast J m ex (nd_network n))) = net_posted (nd_network n) @ map (\<lambda>p. (p, m)) k"
    using broadcast_posts by blast
  then show ?thesis using assms by (simp add: forwards_def posted_since_def on_network_snd)
qed

lemma message_eta: "msg_type msg = t \<Longrightarrow> \<lparr>msg_type = t, msg_payload = msg_payload msg\<rparr> = msg"
  by (cases msg) simp

lemma newBlock_outcome:
  assumes "msg_type msg = NEW_BLOCK"
  shows "grows J msg n (snd (onNewBlock C J L (msg_payload msg) p n)) \<or>
    answers J msg n (snd (onNewBlock C J L (msg_payload msg) p n))"
proof (cases "blockFromJson J (msg_payload msg)")
  case (Inl e)
  then show ?thesis by (simp add: onNewBlock_def bind_eval_p answers_nothing)
next
  case (Inr b)
  have carried: "carries J msg b" using assms Inr by (simp add: carries_def)
  consider (ahead) "getHeight (nd_chain n) < blk_index b" | (behind) "\<not> getHeight (nd_chain n) < blk_index b"
      "blk_index b < getHeight (nd_chain n)" | (at_tip) "blk_index b = getHeight (nd_chain n)"
    by fastforce
  then show ?thesis
  proof cases
    case ahead
    have "answers J msg n (snd (on_network (send_to J p (getBlocksMessage J (getHeight (nd_chain n)))) n))"
      using assms by (intro answered_once) (simp_all add: getBlocksMessage_def)
    then show ?thesis using ahead by (simp add: onNewBlock_def bind_eval_p Inr)
  next
    case behind
    then show ?thesis by (simp add: onNewBlock_def bind_eval_p Inr proc_simps answers_nothing)
  next
    case at_tip
    show ?thesis
    proof (cases rule: acceptBlock_cases [of C J n b L])
      case reject
      then show ?thesis
        using at_tip by (simp add: onNewBlock_def bind_eval_p Inr proc_simps answers_nothing chain_reject)
    next
      case (accept s)
      let ?n = "(settle C J b n)\<lparr>nd_storage := s\<rparr>"
      have "snd (onNewBlock C J L (msg_payload msg) p n) = snd (on_network (broadcast J msg (Some p)) ?n)"
        using at_tip accept(2) by (simp add: onNewBlock_def bind_eval_p Inr proc_simps message_eta [OF assms])
      then show ?thesis
        using broadcast_forwards [of ?n n] carried settle_chain [OF accept(1)]
        by (auto simp: grows_def on_network_snd at_tip getHeight_def)
    next
      case (failed e s)
      then show ?thesis
        using at_tip carried by (simp add: onNewBlock_def bind_eval_p Inr proc_simps grows_def forwards_def
            posted_since_def settle_chain getHeight_def)
    qed
  qed
qed

lemma newTx_outcome:
  assumes "msg_type msg = NEW_TX"
  shows "pools J msg n (snd (onNewTx C J (msg_payload msg) p n)) \<or>
    answers J msg n (snd (onNewTx C J (msg_payload msg) p n))"
proof (cases "transactionFromJson J (msg_payload msg)")
  case (Inl e)
  then show ?thesis by (simp add: onNewTx_def bind_eval_p answers_nothing)
next
  case (Inr tx)
  show ?thesis
  proof (cases "contains (nd_mempool n) (tx_hash tx)")
    case True
    then show ?thesis by (simp add: onNewTx_def bind_eval_p Inr proc_simps answers_nothing)
  next
    case new: False
    show ?thesis
    proof (cases rule: addTransaction_cases [of C J "nd_state n" "nd_mempool n" tx])
      case accept
      let ?n = "n\<lparr>nd_mempool := admit (nd_state n) (nd_mempool n) tx\<rparr>"
      have "pool_add C J tx n = (Inr True, ?n)"
        using accept by (simp add: pool_add_def case_prod_unfold)
      then have run: "snd (onNewTx C J (msg_payload msg) p n) = snd (on_network (broadcast J msg (Some p)) ?n)"
        using new by (simp add: onNewTx_def bind_eval_p Inr proc_simps message_eta [OF assms])
      have "contains (admit (nd_state n) (nd_mempool n) tx) h \<longleftrightarrow> h = tx_hash tx \<or> contains (nd_mempool n) h" for h
        by (auto simp: contains_def admit_def update_conv')
      then show ?thesis
        using broadcast_forwards [of ?n n] new Inr assms unfolding run by (auto simp: pools_def on_network_snd)
    next
      case (reject e)
      have "pool_add C J tx n = (Inr False, n\<lparr>nd_mempool := (nd_mempool n)\<lparr>mp_lastError := e\<rparr>\<rparr>)"
        using reject by (simp add: pool_add_def case_prod_unfold)
      then show ?thesis
        using new by (simp add: onNewTx_def bind_eval_p Inr proc_simps answers_nothing)
    qed
  qed
qed

lemma getBlock_in_chain: "getBlock c i = Inr b \<Longrightarrow> b \<in> set (bc_chain c)"
  by (auto simp: getBlock_def split: if_splits)

lemma chain_blocks_json:
  "map_e (\<lambda>i. bind_e (getBlock c (f i)) (\<lambda>b. Inr (g b))) is = Inr js \<Longrightarrow>
     \<exists>bs. set bs \<subseteq> set (bc_chain c) \<and> js = map g bs"
proof (induction "is" arbitrary: js)
  case (Cons i "is")
  then obtain b rest where b: "getBlock c (f i) = Inr b" "js = g b # rest"
      "map_e (\<lambda>i. bind_e (getBlock c (f i)) (\<lambda>b. Inr (g b))) is = Inr rest"
    by auto
  obtain bs where "set bs \<subseteq> set (bc_chain c)" "rest = map g bs" using Cons.IH [OF b(3)] by blast
  then show ?case using b(2) getBlock_in_chain [OF b(1)] by (intro exI [of _ "b # bs"]) simp
qed simp

lemma getBlocks_outcome:
  assumes "msg_type msg = GET_BLOCKS"
  shows "answers J msg n (snd (onGetBlocks J (msg_payload msg) p n))"
proof (cases "at_uint J (msg_payload msg) ''from''")
  case (Inl e)
  then show ?thesis by (simp add: onGetBlocks_def bind_eval_p answers_nothing)
next
  case (Inr i)
  have sent: "answers J msg n (snd (on_network (send_to J p (blocksMessage J (map (blockToJson J) bs))) n))"
    if "set bs \<subseteq> set (bc_chain (nd_chain n))" for bs
    using assms that by (intro answered_once) (auto simp: blocksMessage_def)
  show ?thesis
  proof (cases "getHeight (nd_chain n) \<le> i")
    case True
    then show ?thesis using sent [of "[]"] by (simp add: onGetBlocks_def bind_eval_p Inr Let_def)
  next
    case False
    show ?thesis
    proof (cases "map_e (\<lambda>i. bind_e (getBlock (nd_chain n) (word_of_nat i)) (\<lambda>b. Inr (blockToJson J b)))
        [unat i..<unat (getHeight (nd_chain n))]")
      case (Inl e)
      then show ?thesis using False Inr by (simp add: onGetBlocks_def bind_eval_p Let_def answers_nothing)
    next
      case blocks: (Inr js)
      obtain bs where bs: "set bs \<subseteq> set (bc_chain (nd_chain n))" "js = map (blockToJson J) bs"
        using chain_blocks_json [OF blocks] by blast
      show ?thesis using sent [OF bs(1)] False Inr blocks bs(2) by (simp add: onGetBlocks_def bind_eval_p Let_def)
    qed
  qed
qed

lemma blocks_outcome:
  assumes "msg_type msg = BLOCKS"
  shows "grows J msg n (snd (onBlocks C J L (msg_payload msg) n)) \<or>
    answers J msg n (snd (onBlocks C J L (msg_payload msg) n))"
proof (cases "j_at J (msg_payload msg) ''blocks''")
  case (Inl e)
  then show ?thesis by (simp add: onBlocks_def bind_eval_p answers_nothing)
next
  case (Inr js)
  let ?n' = "snd (sync_blocks C J L (j_elems J js) n)"
  obtain bs where bs: "bc_chain (nd_chain ?n') = bc_chain (nd_chain n) @ bs" "numbered_from (length (bc_chain (nd_chain n))) bs"
      "\<forall>b\<in>set bs. \<exists>j\<in>set (j_elems J js). blockFromJson J j = Inr b" "nd_network ?n' = nd_network n"
      "bs = [] \<longrightarrow> nd_mempool ?n' = nd_mempool n"
    using sync_outcome [of C J L "j_elems J js" n] by (elim exE conjE) (rule that)
  have run: "snd (onBlocks C J L (msg_payload msg) n) = ?n'" using Inr by (simp add: onBlocks_def bind_eval_p)
  show ?thesis
  proof (cases "bs = []")
    case True
    then show ?thesis unfolding run by (intro disjI2 answers_nothing) (use bs(1,4,5) in simp_all)
  next
    case False
    have "\<forall>b\<in>set bs. carries J msg b" using assms Inr bs(3) by (auto simp: carries_def)
    then show ?thesis unfolding run using False bs(1,2,4) by (auto simp: grows_def forwards_def posted_since_def)
  qed
qed

lemma message_outcome:
  defines "after \<equiv> \<lambda>C J L msg p n. snd (handleMessage C J L msg p n)"
  shows "grows J msg n (after C J L msg p n) \<or> pools J msg n (after C J L msg p n) \<or> answers J msg n (after C J L msg p n)"
proof (cases "msg_type msg")
  case PING
  then show ?thesis unfolding after_def by (simp add: handleMessage_def answered_once)
next
  case PONG
  then show ?thesis unfolding after_def by (simp add: handleMessage_def proc_simps answers_nothing)
next
  case NEW_BLOCK
  then show ?thesis unfolding after_def using newBlock_outcome [OF NEW_BLOCK] unfolding handleMessage_def by simp blast
next
  case NEW_TX
  then show ?thesis unfolding after_def using newTx_outcome [OF NEW_TX] unfolding handleMessage_def by simp blast
next
  case GET_BLOCKS
  then show ?thesis unfolding after_def using getBlocks_outcome [OF GET_BLOCKS] unfolding handleMessage_def by simp blast
next
  case BLOCKS
  then show ?thesis unfolding after_def using blocks_outcome [OF BLOCKS] unfolding handleMessage_def by simp blast
qed

section \<open>Nodes joined by sessions\<close>

text \<open>
  \<open>link i p\<close> is the other end of session \<open>p\<close> of node \<open>i\<close>: a node and the session there. A message in
  flight is what its sender handed over (\<open>link_delivers_prefix\<close> carries it over a connection), with
  the node and the session it is for. A null payload, which is decoded as an empty object, is that
  of PING and PONG, whose payload is not read; a frame too long closes the session and counts as lost.
\<close>

record ('d, 'j) gossip =
  gs_nodes :: "('d, 'j) node list"
  gs_flying :: "(nat \<times> nat \<times> 'j message) list"

type_synonym topology = "nat \<Rightarrow> nat \<Rightarrow> (nat \<times> nat) option"

definition routed :: "topology \<Rightarrow> nat \<Rightarrow> nat \<Rightarrow> (nat \<times> 'j message) list \<Rightarrow> (nat \<times> nat \<times> 'j message) list" where
  "routed link k i ps =
     concat (map (\<lambda>(p, m). case link i p of Some (j, q) \<Rightarrow> if j < k then [(j, q, m)] else [] | None \<Rightarrow> []) ps)"

definition deliver ::
  "crypto_api \<Rightarrow> 'j json_api \<Rightarrow> 'd leveldb_api \<Rightarrow> topology \<Rightarrow> nat \<Rightarrow> nat \<Rightarrow> 'j message \<Rightarrow>
     (nat \<times> nat \<times> 'j message) list \<Rightarrow> ('d, 'j) gossip \<Rightarrow> ('d, 'j) gossip" where
  "deliver C J L link j q m others s =
     (let n = gs_nodes s ! j; n' = snd (handleMessage C J L m q n)
      in s\<lparr>gs_nodes := (gs_nodes s)[j := n'],
           gs_flying := others @ routed link (length (gs_nodes s)) j (posted_since n n')\<rparr>)"

text \<open>A message arrives, in any order, or is lost. No client submits and nobody produces meanwhile.\<close>

inductive delivery ::
  "crypto_api \<Rightarrow> 'j json_api \<Rightarrow> 'd leveldb_api \<Rightarrow> topology \<Rightarrow> ('d, 'j) gossip \<Rightarrow> ('d, 'j) gossip \<Rightarrow> bool"
  for C J L link where
  deliveryI: "gs_flying s = xs @ (j, q, m) # ys \<Longrightarrow> j < length (gs_nodes s) \<Longrightarrow>
     delivery C J L link s (deliver C J L link j q m (xs @ ys) s)"

inductive gossip_step ::
  "crypto_api \<Rightarrow> 'j json_api \<Rightarrow> 'd leveldb_api \<Rightarrow> topology \<Rightarrow> ('d, 'j) gossip \<Rightarrow> ('d, 'j) gossip \<Rightarrow> bool"
  for C J L link where
  gossip_deliver: "delivery C J L link s t \<Longrightarrow> gossip_step C J L link s t"
| gossip_lose: "gs_flying s = xs @ x # ys \<Longrightarrow> gossip_step C J L link s (s\<lparr>gs_flying := xs @ ys\<rparr>)"

text \<open>
  Nodes with well-formed blocks, none of which has the last 64-bit number, as have no blocks in
  flight; every message is for one of the nodes.
\<close>

definition numbered :: "block \<Rightarrow> bool" where
  "numbered b \<longleftrightarrow> unat (blk_index b) < 2 ^ 64 - 1"

definition sound_node :: "('d, 'j) node \<Rightarrow> bool" where
  "sound_node n \<longleftrightarrow>
     length (bc_chain (nd_chain n)) < 2 ^ 64 \<and> (\<forall>b\<in>set (bc_chain (nd_chain n)). wf_block b \<and> numbered b)"

definition sound_message :: "'j json_api \<Rightarrow> 'j message \<Rightarrow> bool" where
  "sound_message J m \<longleftrightarrow> (\<forall>b. carries J m b \<longrightarrow> numbered b)"

definition sound :: "'j json_api \<Rightarrow> ('d, 'j) gossip \<Rightarrow> bool" where
  "sound J s \<longleftrightarrow>
     (\<forall>n\<in>set (gs_nodes s). sound_node n) \<and>
     (\<forall>f\<in>set (gs_flying s). fst f < length (gs_nodes s) \<and> sound_message J (snd (snd f)))"

section \<open>The measure\<close>

text \<open>
  How much every chain can still grow; which of the transactions in flight are in no pool; the
  ranks of the messages in flight.
\<close>

definition hashes_in :: "'j json_api \<Rightarrow> (nat \<times> nat \<times> 'j message) list \<Rightarrow> hash32 set" where
  "hashes_in J fs = {tx_hash tx | j q m tx. (j, q, m) \<in> set fs \<and> msg_type m = NEW_TX \<and>
     transactionFromJson J (msg_payload m) = Inr tx}"

definition room :: "('d, 'j) node \<Rightarrow> nat" where
  "room n = 2 ^ 64 - length (bc_chain (nd_chain n))"

definition missing :: "hash32 set \<Rightarrow> ('d, 'j) node \<Rightarrow> nat" where
  "missing H n = card {h \<in> H. \<not> contains (nd_mempool n) h}"

definition load :: "(nat \<times> nat \<times> 'j message) list \<Rightarrow> nat" where
  "load fs = sum_list (map (\<lambda>(j, q, m). rank (msg_type m)) fs)"

definition gossip_measure :: "hash32 set \<Rightarrow> (('d, 'j) gossip \<times> ('d, 'j) gossip) set" where
  "gossip_measure H = inv_image (less_than <*lex*> less_than <*lex*> less_than)
     (\<lambda>s. (sum_list (map room (gs_nodes s)), sum_list (map (missing H) (gs_nodes s)), load (gs_flying s)))"

lemma wf_gossip_measure: "wf (gossip_measure H)"
  unfolding gossip_measure_def by auto

lemma finite_hashes_in: "finite (hashes_in J fs)"
proof (rule finite_subset)
  show "hashes_in J fs \<subseteq> (\<lambda>(j, q, m). case transactionFromJson J (msg_payload m) of Inl e \<Rightarrow> [] | Inr tx \<Rightarrow> tx_hash tx) ` set fs"
    by (force simp: hashes_in_def)
qed simp

lemma rank_pos: "0 < rank t"
  by (cases t) simp_all

lemma sum_list_update_less:
  fixes f :: "'a \<Rightarrow> nat"
  assumes "i < length xs" and "f y < f (xs ! i)"
  shows "sum_list (map f (xs[i := y])) < sum_list (map f xs)"
  using assms by (induction xs arbitrary: i) (auto simp: nth_Cons split: nat.splits)

lemma sum_list_update_same:
  fixes f :: "'a \<Rightarrow> nat"
  assumes "i < length xs" and "f y = f (xs ! i)"
  shows "sum_list (map f (xs[i := y])) = sum_list (map f xs)"
  using assms by (induction xs arbitrary: i) (auto simp: nth_Cons split: nat.splits)

lemma load_append: "load (fs @ gs) = load fs + load gs"
  by (simp add: load_def)

lemma routed_in: "(j, q, m) \<in> set (routed link k i ps) \<Longrightarrow> j < k \<and> (\<exists>p. (p, m) \<in> set ps)"
  by (auto simp: routed_def split: option.splits if_splits)

lemma routed_load: "ps = [] \<or> (\<exists>p m. ps = [(p, m)] \<and> rank (msg_type m) < r) \<Longrightarrow> 0 < r \<Longrightarrow> load (routed link k i ps) < r"
  by (auto simp: routed_def load_def split: option.splits)

section \<open>Every step is sound and decreases the measure\<close>

lemma grown_length:
  "k < 2 ^ 64 \<Longrightarrow> numbered_from k bs \<Longrightarrow> \<forall>b\<in>set bs. numbered b \<Longrightarrow> k + length bs < 2 ^ 64"
proof (induction bs arbitrary: k)
  case (Cons b bs)
  then have "Suc k < 2 ^ 64" by (simp add: numbered_def unat_of_nat)
  from Cons.IH [OF this] Cons.prems show ?case by simp
qed simp

lemma carried_wf: "carries J m b \<Longrightarrow> wf_block b"
  by (auto simp: carries_def dest: blockFromJson_wf)

lemma answer_sound:
  assumes J: "json_ok J" and n: "sound_node n"
    and m: "msg_type m = PONG \<or> msg_type m = GET_BLOCKS \<or>
      (\<exists>bs. set bs \<subseteq> set (bc_chain (nd_chain n)) \<and> m = blocksMessage J (map (blockToJson J) bs))"
  shows "sound_message J m"
proof (cases "msg_type m = PONG \<or> msg_type m = GET_BLOCKS")
  case True
  then show ?thesis by (auto simp: sound_message_def carries_def)
next
  case False
  then obtain bs where bs: "set bs \<subseteq> set (bc_chain (nd_chain n))" "m = blocksMessage J (map (blockToJson J) bs)"
    using m by blast
  have dec: "blockFromJson J (blockToJson J b) = Inr b" if "b \<in> set bs" for b
    using that n bs(1) by (intro blockFromJson_toJson [OF J]) (auto simp: sound_node_def)
  have "j_at J (msg_payload m) ''blocks'' = Inr (j_array J (map (blockToJson J) bs))"
    by (simp add: bs(2) blocksMessage_def json_at [OF J])
  then show ?thesis
    using n bs dec by (auto simp: sound_message_def carries_def json_leaf [OF J] sound_node_def blocksMessage_def)
qed

lemma handled_sound:
  assumes J: "json_ok J" and n: "sound_node n" and msg: "sound_message J msg"
    and out: "grows J msg n n' \<or> pools J msg n n' \<or> answers J msg n n'"
  shows "sound_node n'" and "(p, m) \<in> set (posted_since n n') \<Longrightarrow> sound_message J m"
proof -
  consider (grows) "grows J msg n n'" | (pools) "pools J msg n n'" | (answers) "answers J msg n n'" using out by blast
  then have "sound_node n' \<and> (\<forall>(p, m)\<in>set (posted_since n n'). sound_message J m)"
  proof cases
    case grows
    then obtain bs where bs: "bc_chain (nd_chain n') = bc_chain (nd_chain n) @ bs"
        "numbered_from (length (bc_chain (nd_chain n))) bs" "\<forall>b\<in>set bs. carries J msg b"
      by (auto simp: grows_def)
    have num: "\<forall>b\<in>set bs. numbered b" using bs(3) msg by (simp add: sound_message_def)
    then have "sound_node n'"
      using n bs(1,3) grown_length [OF _ bs(2) num] num by (auto simp: sound_node_def dest: carried_wf)
    then show ?thesis using grows msg by (auto simp: grows_def forwards_def)
  next
    case pools
    then show ?thesis using n msg by (auto simp: pools_def forwards_def sound_node_def)
  next
    case answers
    then have "sound_node n'" using n by (simp add: answers_def sound_node_def)
    moreover have "sound_message J m" if "(p, m) \<in> set (posted_since n n')" for p m
      by (rule answer_sound [OF J n]) (use answers that in \<open>auto simp: answers_def\<close>)
    ultimately show ?thesis by blast
  qed
  then show "sound_node n'" and "(p, m) \<in> set (posted_since n n') \<Longrightarrow> sound_message J m" by auto
qed

lemma deliver_sound:
  assumes J: "json_ok J" and s: "sound J s" and fs: "gs_flying s = xs @ (j, q, m) # ys"
  shows "sound J (deliver C J L link j q m (xs @ ys) s)"
proof -
  let ?n = "gs_nodes s ! j" let ?n' = "snd (handleMessage C J L m q ?n)"
  have j: "j < length (gs_nodes s)" and m: "sound_message J m" using s fs by (auto simp: sound_def)
  then have "sound_node ?n" using s by (simp add: sound_def)
  note after = handled_sound [OF J this m message_outcome]
  have "\<forall>n\<in>set ((gs_nodes s)[j := ?n']). sound_node n"
    using s after(1) by (auto simp: sound_def dest!: set_update_subset_insert [THEN subsetD])
  moreover have "fst f < length (gs_nodes s) \<and> sound_message J (snd (snd f))"
    if f: "f \<in> set (routed link (length (gs_nodes s)) j (posted_since ?n ?n'))" for f
  proof -
    obtain p where "fst f < length (gs_nodes s)" "(p, snd (snd f)) \<in> set (posted_since ?n ?n')"
      using f routed_in by (metis prod.collapse)
    then show ?thesis using after(2) by blast
  qed
  ultimately show ?thesis using s fs by (auto simp: sound_def deliver_def Let_def)
qed

lemma hashes_deliver:
  assumes f: "gs_flying s = xs @ (j, q, m) # ys"
  shows "hashes_in J (gs_flying (deliver C J L link j q m (xs @ ys) s)) \<subseteq> hashes_in J (gs_flying s)"
proof -
  let ?n = "gs_nodes s ! j" let ?n' = "snd (handleMessage C J L m q ?n)"
  have same: "k = m" if "(i, p, k) \<in> set (routed link (length (gs_nodes s)) j (posted_since ?n ?n'))" "msg_type k = NEW_TX"
    for i p k
    using routed_in [OF that(1)] that(2) message_outcome [of J m ?n C L q]
    by (auto simp: grows_def pools_def answers_def forwards_def blocksMessage_def)
  then show ?thesis unfolding hashes_in_def deliver_def Let_def f by (simp, blast)
qed

lemma missing_less:
  assumes "finite H" and "h \<in> H" and "\<not> contains (nd_mempool n) h" and "contains (nd_mempool n') h"
    and "\<forall>h. contains (nd_mempool n) h \<longrightarrow> contains (nd_mempool n') h"
  shows "missing H n' < missing H n"
  unfolding missing_def using assms by (intro psubset_card_mono) auto

lemma deliver_decreases:
  assumes s: "sound J s" and J: "json_ok J" and f: "gs_flying s = xs @ (j, q, m) # ys"
    and H: "finite H" "hashes_in J (gs_flying s) \<subseteq> H"
  shows "(deliver C J L link j q m (xs @ ys) s, s) \<in> gossip_measure H"
proof -
  let ?n = "gs_nodes s ! j" let ?n' = "snd (handleMessage C J L m q ?n)"
  let ?s = "deliver C J L link j q m (xs @ ys) s"
  have j: "j < length (gs_nodes s)" and m: "sound_message J m" using s f by (auto simp: sound_def)
  then have n: "sound_node ?n" using s by (simp add: sound_def)
  have nodes: "gs_nodes ?s = (gs_nodes s)[j := ?n']"
    and flying: "gs_flying ?s = xs @ ys @ routed link (length (gs_nodes s)) j (posted_since ?n ?n')"
    by (simp_all add: deliver_def Let_def)
  note out = message_outcome [of J m ?n C L q]
  consider (grows) "grows J m ?n ?n'" | (pools) "pools J m ?n ?n'" | (answers) "answers J m ?n ?n'" using out by blast
  then show ?thesis
  proof cases
    case grows
    then have "length (bc_chain (nd_chain ?n)) < length (bc_chain (nd_chain ?n'))" by (auto simp: grows_def)
    moreover have "length (bc_chain (nd_chain ?n')) < 2 ^ 64"
      using handled_sound(1) [OF J n m out] by (simp add: sound_node_def)
    ultimately have "room ?n' < room ?n" by (simp add: room_def)
    then show ?thesis unfolding gossip_measure_def nodes by (simp add: sum_list_update_less [OF j] nodes)
  next
    case pools
    then have "room ?n' = room ?n" by (simp add: pools_def room_def)
    moreover have "missing H ?n' < missing H ?n"
    proof -
      obtain tx where tx: "msg_type m = NEW_TX" "transactionFromJson J (msg_payload m) = Inr tx"
          "\<not> contains (nd_mempool ?n) (tx_hash tx)" "contains (nd_mempool ?n') (tx_hash tx)"
          "\<forall>h. contains (nd_mempool ?n) h \<longrightarrow> contains (nd_mempool ?n') h"
        using pools by (auto simp: pools_def)
      have "tx_hash tx \<in> hashes_in J (gs_flying s)"
        unfolding hashes_in_def using tx(1,2)
        by (intro CollectI exI [of _ tx] exI [of _ j] exI [of _ q] exI [of _ m]) (simp add: f)
      then show ?thesis using H(2) by (intro missing_less [OF H(1) _ tx(3-5)]) blast
    qed
    ultimately show ?thesis
      unfolding gossip_measure_def by (simp add: nodes sum_list_update_less [OF j] sum_list_update_same [OF j])
  next
    case answers
    then have "room ?n' = room ?n" "missing H ?n' = missing H ?n" by (simp_all add: answers_def room_def missing_def)
    moreover have "load (routed link (length (gs_nodes s)) j (posted_since ?n ?n')) < rank (msg_type m)"
      using answers rank_pos by (intro routed_load) (auto simp: answers_def)
    then have "load (gs_flying ?s) < load (gs_flying s)"
      unfolding flying f by (simp add: load_append) (simp add: load_def)
    ultimately show ?thesis
      unfolding gossip_measure_def by (simp add: nodes sum_list_update_same [OF j])
  qed
qed

lemma gossip_step_invariants:
  assumes "gossip_step C J L link s t" and "json_ok J" and "sound J s" and "finite H" and "hashes_in J (gs_flying s) \<subseteq> H"
  shows "sound J t" and "hashes_in J (gs_flying t) \<subseteq> H" and "(t, s) \<in> gossip_measure H"
proof -
  have "sound J t \<and> hashes_in J (gs_flying t) \<subseteq> H \<and> (t, s) \<in> gossip_measure H"
    using assms(1)
  proof cases
    case gossip_deliver
    then obtain xs j q m ys where f: "gs_flying s = xs @ (j, q, m) # ys" "t = deliver C J L link j q m (xs @ ys) s"
      by (auto elim: delivery.cases)
    show ?thesis
      using deliver_sound [OF assms(2,3) f(1)] hashes_deliver [OF f(1)]
        deliver_decreases [OF assms(3,2) f(1) assms(4,5)] assms(5) unfolding f(2) by blast
  next
    case (gossip_lose xs x ys)
    have "load (xs @ ys) < load (gs_flying s)"
      using rank_pos by (cases x) (simp add: gossip_lose(2) load_def)
    then have "(t, s) \<in> gossip_measure H" by (simp add: gossip_lose gossip_measure_def)
    moreover have "sound J t" using assms(3) gossip_lose by (auto simp: sound_def)
    moreover have "hashes_in J (gs_flying t) \<subseteq> hashes_in J (gs_flying s)"
      unfolding gossip_lose(1,2) hashes_in_def by auto
    ultimately show ?thesis using assms(5) by blast
  qed
  then show "sound J t" and "hashes_in J (gs_flying t) \<subseteq> H" and "(t, s) \<in> gossip_measure H" by simp_all
qed

text \<open>No run goes on for ever, and delivering alone comes to rest.\<close>

lemma no_endless_gossip:
  assumes "json_ok J" and "sound J s"
  shows "\<not> (\<exists>f. f 0 = s \<and> (\<forall>i. gossip_step C J L link (f i) (f (Suc i))))"
proof
  assume "\<exists>f. f 0 = s \<and> (\<forall>i. gossip_step C J L link (f i) (f (Suc i)))"
  then obtain f where f: "f 0 = s" "\<And>i. gossip_step C J L link (f i) (f (Suc i))" by blast
  let ?H = "hashes_in J (gs_flying s)"
  have inv: "sound J (f i) \<and> hashes_in J (gs_flying (f i)) \<subseteq> ?H" for i
  proof (induction i)
    case 0
    then show ?case using f(1) assms(2) by simp
  next
    case (Suc i)
    then show ?case using gossip_step_invariants [OF f(2) assms(1) _ finite_hashes_in] by blast
  qed
  then have "\<forall>i. (f (Suc i), f i) \<in> gossip_measure ?H"
    using gossip_step_invariants(3) [OF f(2) assms(1) _ finite_hashes_in] by blast
  then show False using wf_gossip_measure [of ?H] unfolding wf_iff_no_infinite_down_chain by blast
qed

lemma deliveries_rest:
  assumes "json_ok J" and "sound J s" and "finite H" and "hashes_in J (gs_flying s) \<subseteq> H"
  shows "\<exists>t. (delivery C J L link)\<^sup>*\<^sup>* s t \<and> gs_flying t = []"
  using assms(2,4)
proof (induction s rule: wf_induct_rule [OF wf_gossip_measure [of H]])
  case (1 s)
  show ?case
  proof (cases "gs_flying s")
    case Nil
    then show ?thesis by blast
  next
    case (Cons x ys)
    obtain j q m where f: "gs_flying s = [] @ (j, q, m) # ys" using Cons by (cases x) auto
    have "j < length (gs_nodes s)" using 1(2) f by (simp add: sound_def)
    then have step: "delivery C J L link s (deliver C J L link j q m ([] @ ys) s)" by (rule deliveryI [OF f])
    note next_state = gossip_step_invariants [OF gossip_deliver [OF step] assms(1) 1(2) assms(3) 1(3)]
    from 1(1) [OF next_state(3,1,2)] step show ?thesis by (blast intro: converse_rtranclp_into_rtranclp)
  qed
qed

end
