(* ===== verification/Cluster_Rounds.thy ===== *)
theory Cluster_Rounds
  imports Cluster_Progress Gossip Peer_Session
begin

text \<open>
  Honest rounds of a cluster, message by message: a node connects to the one with the longest
  chain, both ends run the handlers the network calls, and what they hand to the session is
  serialised, framed, read by the session at the other end and handled there. One round brings
  every node up to the log and extends it, provided the requests and answers fit a frame.
\<close>

section \<open>A message on the wire\<close>

definition sendable :: "'j json_api \<Rightarrow> 'j message \<Rightarrow> bool" where
  "sendable J m \<longleftrightarrow> (\<exists>frame. serializeMessage J m = Inr frame \<and> length frame \<le> 4 + 16 * 1024 * 1024)"

text \<open>What the session at the other end delivers when it reads the message's frame.\<close>

definition transmit :: "'j json_api \<Rightarrow> 'j message \<Rightarrow> 'j message list" where
  "transmit J m =
     (case serializeMessage J m of
        Inl e \<Rightarrow> []
      | Inr frame \<Rightarrow> (case feed J newSession Header frame of (s, ms, rest) \<Rightarrow> ms))"

lemma transmit_plain:
  assumes J: "json_ok J" and plain: "json_plain J (msg_payload m)"
  shows "transmit J m = (if sendable J m then [delivered J m] else [])"
proof (cases "serializeMessage J m")
  case (Inr frame)
  show ?thesis
  proof (cases "length frame \<le> 4 + 16 * 1024 * 1024")
    case True
    then show ?thesis
      using feed_frames [OF J, of "[m]" "[frame]" newSession] plain Inr by (simp add: transmit_def sendable_def)
  next
    case False
    obtain body where body: "length body < 2 ^ 32" "frame = encodeLength (word_of_nat (length body)) @ string_bytes body"
      using serializeMessage_Inr [OF Inr] by metis
    then have "maxBody < word_of_nat (length body)"
      using False by (simp add: maxBody_def word_less_nat_alt unat_of_nat)
    then show ?thesis
      using feed_too_large [of _ J newSession "string_bytes body"] Inr False body(2)
      by (auto simp: transmit_def sendable_def)
  qed
qed (simp add: transmit_def sendable_def)

lemma transmit_object:
  assumes "json_ok J" and "json_plain J (msg_payload m)" and "\<exists>fields. msg_payload m = j_object J fields"
  shows "transmit J m = (if sendable J m then [m] else [])"
  using transmit_plain [OF assms(1,2)] assms(1,3)
  by (cases m) (auto simp: delivered_def sent_payload_def json_leaf)

lemma getBlocksMessage_plain: "json_plain J (msg_payload (getBlocksMessage J h))"
  by (auto simp: getBlocksMessage_def intro!: plain_object plain_uint)

lemma transmit_request: "json_ok J \<Longrightarrow>
  transmit J (getBlocksMessage J h) = (if sendable J (getBlocksMessage J h) then [getBlocksMessage J h] else [])"
  by (intro transmit_object getBlocksMessage_plain) (auto simp: getBlocksMessage_def)

lemma transmit_answer: "json_ok J \<Longrightarrow>
  transmit J (blocksMessage J (map (blockToJson J) bs)) =
    (if sendable J (blocksMessage J (map (blockToJson J) bs)) then [blocksMessage J (map (blockToJson J) bs)] else [])"
  by (intro transmit_object blocksMessage_plain) (auto simp: blocksMessage_def)

section \<open>What the ends of a connection post\<close>

text \<open>Messages handed to session \<open>p\<close> between two states of a node.\<close>

definition posted_on :: "nat \<Rightarrow> ('d, 'j) node \<Rightarrow> ('d, 'j) node \<Rightarrow> 'j message list" where
  "posted_on p n n' = map snd (filter (\<lambda>e. fst e = p) (posted_since n n'))"

lemma connect_effect:
  "snd (node_connectDone J (Some p) n) =
     n\<lparr>nd_network := (addPeer p (nd_network n))\<lparr>net_posted := net_posted (nd_network n) @
       (case serializeMessage J (getBlocksMessage J (getHeight (nd_chain n))) of
          Inl e \<Rightarrow> [] | Inr f \<Rightarrow> [(p, getBlocksMessage J (getHeight (nd_chain n)))])\<rparr>\<rparr>"
  by (auto simp: node_connectDone_def connectDone_def connected_def onPeerConnected_def on_network_def on_part_def send_to_def
      bind_p_cases proc_simps addPeer_def split: sum.split)

lemma accept_effect: "\<exists>t. snd (node_acceptDone J socket n) = n\<lparr>nd_network := t\<rparr>"
proof -
  have "keeps (\<lambda>k. \<exists>t. k = n\<lparr>nd_network := t\<rparr>) (node_acceptDone J socket)"
    by (rule keeps_network_handlers) (auto simp: keeps_def on_network_snd)
  from keepsD [OF this same_network] show ?thesis .
qed

lemma send_effect:
  "\<exists>k. snd (on_network (send_to J q m) n) = n\<lparr>nd_network := (nd_network n)\<lparr>net_posted := net_posted (nd_network n) @ k\<rparr>\<rparr> \<and>
     (k = [] \<or> k = [(q, m)])"
proof (cases "serializeMessage J m")
  case (Inl e)
  then show ?thesis by (intro exI [of _ "[]"]) (simp add: on_network_snd send_to_def bind_eval_p)
next
  case (Inr f)
  then show ?thesis by (intro exI [of _ "[(q, m)]"]) (simp add: on_network_snd send_to_run)
qed

lemma getBlocks_effect:
  "\<exists>k. snd (onGetBlocks J payload q n) = n\<lparr>nd_network := (nd_network n)\<lparr>net_posted := net_posted (nd_network n) @ k\<rparr>\<rparr> \<and>
     (k = [] \<or> (\<exists>bs. k = [(q, blocksMessage J (map (blockToJson J) bs))]))"
proof -
  let ?ok = "\<lambda>n'. \<exists>k. n' = n\<lparr>nd_network := (nd_network n)\<lparr>net_posted := net_posted (nd_network n) @ k\<rparr>\<rparr> \<and>
     (k = [] \<or> (\<exists>bs. k = [(q, blocksMessage J (map (blockToJson J) bs))]))"
  have sent: "?ok (snd (on_network (send_to J q (blocksMessage J (map (blockToJson J) bs))) n))" for bs
    using send_effect [of J q "blocksMessage J (map (blockToJson J) bs)" n] by auto
  show ?thesis
  proof (cases "at_uint J payload ''from''")
    case (Inl e)
    then have same: "snd (onGetBlocks J payload q n) = n" by (simp add: onGetBlocks_def bind_eval_p)
    show ?thesis unfolding same by (intro exI [of _ "[]"]) simp
  next
    case (Inr i)
    let ?js = "map_e (\<lambda>i. bind_e (getBlock (nd_chain n) (word_of_nat i)) (\<lambda>b. Inr (blockToJson J b)))
        [unat i..<unat (getHeight (nd_chain n))]"
    consider "getHeight (nd_chain n) \<le> i" | e where "\<not> getHeight (nd_chain n) \<le> i" "?js = Inl e"
      | js where "\<not> getHeight (nd_chain n) \<le> i" "?js = Inr js"
      by (cases ?js) auto
    then show ?thesis
    proof cases
      case 1
      then show ?thesis using sent [of "[]"] Inr by (simp add: onGetBlocks_def bind_eval_p Let_def)
    next
      case 2
      then have same: "snd (onGetBlocks J payload q n) = n" using Inr by (simp add: onGetBlocks_def bind_eval_p Let_def)
      show ?thesis unfolding same by (intro exI [of _ "[]"]) simp
    next
      case 3
      then obtain bs where "js = map (blockToJson J) bs" using chain_blocks_json by blast
      then show ?thesis using sent [of bs] Inr 3 by (simp add: onGetBlocks_def bind_eval_p Let_def)
    qed
  qed
qed

section \<open>Catching up over the wire\<close>

definition height_at :: "('d, 'j) cluster \<Rightarrow> nat \<Rightarrow> nat" where
  "height_at cl i = length (bc_chain (nd_chain (cl_nodes cl ! i)))"

definition longest :: "('d, 'j) cluster \<Rightarrow> nat" where
  "longest cl = fold (\<lambda>i k. if height_at cl k < height_at cl i then i else k) [0..<length (cl_nodes cl)] 0"

definition full :: "('d, 'j) cluster \<Rightarrow> nat \<Rightarrow> bool" where
  "full cl i \<longleftrightarrow> height_at cl i = length (cl_signed cl)"

text \<open>A session nobody uses at the node.\<close>

definition unused :: "('d, 'j) node \<Rightarrow> nat" where
  "unused n = Suc (sum_list (net_peers (nd_network n)))"

text \<open>
  A node \<open>i\<close> opens a connection to node \<open>a\<close>: \<open>connectToPeer\<close>'s handler at the one end, that of
  \<open>async_accept\<close> at the other.
\<close>

definition linked :: "'j json_api \<Rightarrow> nat \<Rightarrow> nat \<Rightarrow> ('d, 'j) cluster \<Rightarrow> ('d, 'j) cluster" where
  "linked J a i cl =
     at_node a (node_acceptDone J (Some (unused (cl_nodes cl ! a))))
       (at_node i (node_connectDone J (Some (unused (cl_nodes cl ! i)))) cl)"

text \<open>
  What a node handed to session \<open>p\<close> between two of its states arrives at node \<open>j\<close>, on session
  \<open>q\<close> there, and is handled.
\<close>

definition carry ::
  "crypto_api \<Rightarrow> 'j json_api \<Rightarrow> 'd leveldb_api \<Rightarrow> nat \<Rightarrow> ('d, 'j) node \<Rightarrow> ('d, 'j) node \<Rightarrow>
   nat \<Rightarrow> nat \<Rightarrow> ('d, 'j) cluster \<Rightarrow> ('d, 'j) cluster" where
  "carry C J L p n n' j q cl =
     fold (\<lambda>m. at_node j (handleMessage C J L m q)) (concat (map (transmit J) (posted_on p n n'))) cl"

text \<open>
  The node's request for blocks travels to \<open>a\<close>, and what \<open>a\<close>'s handler of it posts travels back.
\<close>

definition asked ::
  "crypto_api \<Rightarrow> 'j json_api \<Rightarrow> 'd leveldb_api \<Rightarrow> nat \<Rightarrow> nat \<Rightarrow> ('d, 'j) cluster \<Rightarrow> ('d, 'j) cluster" where
  "asked C J L a i cl =
     carry C J L (unused (cl_nodes cl ! i)) (cl_nodes cl ! i) (cl_nodes (linked J a i cl) ! i)
       a (unused (cl_nodes cl ! a)) (linked J a i cl)"

definition fill ::
  "crypto_api \<Rightarrow> 'j json_api \<Rightarrow> 'd leveldb_api \<Rightarrow> nat \<Rightarrow> nat \<Rightarrow> ('d, 'j) cluster \<Rightarrow> ('d, 'j) cluster" where
  "fill C J L a i cl =
     (if i = a then cl
      else carry C J L (unused (cl_nodes cl ! a)) (cl_nodes (linked J a i cl) ! a) (cl_nodes (asked C J L a i cl) ! a)
             i (unused (cl_nodes cl ! i)) (asked C J L a i cl))"

definition fill_all ::
  "crypto_api \<Rightarrow> 'j json_api \<Rightarrow> 'd leveldb_api \<Rightarrow> ('d, 'j) cluster \<Rightarrow> ('d, 'j) cluster" where
  "fill_all C J L cl = fold (fill C J L (longest cl)) [0..<length (cl_nodes cl)] cl"

text \<open>What the two of them say.\<close>

abbreviation request :: "'j json_api \<Rightarrow> ('d, 'j) node \<Rightarrow> 'j message" where
  "request J n \<equiv> getBlocksMessage J (getHeight (nd_chain n))"

abbreviation blocks_from :: "'j json_api \<Rightarrow> ('d, 'j) node \<Rightarrow> nat \<Rightarrow> 'j message" where
  "blocks_from J n k \<equiv> blocksMessage J (map (blockToJson J) (drop k (bc_chain (nd_chain n))))"

definition answers_fit :: "'j json_api \<Rightarrow> ('d, 'j) node \<Rightarrow> bool" where
  "answers_fit J n \<longleftrightarrow> (\<forall>k. sendable J (blocks_from J n k))"

lemma linked_frame [simp]:
  "length (cl_nodes (linked J a i cl)) = length (cl_nodes cl)" "cl_signed (linked J a i cl) = cl_signed cl"
  "cl_paid (linked J a i cl) = cl_paid cl"
  by (simp_all add: linked_def)

lemma linked_nth:
  assumes "a < length (cl_nodes cl)" and "i < length (cl_nodes cl)" and "i \<noteq> a"
  shows "cl_nodes (linked J a i cl) ! i = snd (node_connectDone J (Some (unused (cl_nodes cl ! i))) (cl_nodes cl ! i))"
    and "cl_nodes (linked J a i cl) ! a = snd (node_acceptDone J (Some (unused (cl_nodes cl ! a))) (cl_nodes cl ! a))"
    and "j < length (cl_nodes cl) \<Longrightarrow> j \<noteq> i \<Longrightarrow> j \<noteq> a \<Longrightarrow> cl_nodes (linked J a i cl) ! j = cl_nodes cl ! j"
  using assms by (simp_all add: linked_def)

lemma linked_node:
  assumes "a < length (cl_nodes cl)" and "i < length (cl_nodes cl)" and "i \<noteq> a" and "j < length (cl_nodes cl)"
  obtains t where "cl_nodes (linked J a i cl) ! j = (cl_nodes cl ! j)\<lparr>nd_network := t\<rparr>"
proof (cases "j = i")
  case True
  then show ?thesis using that linked_nth(1) [OF assms(1-3)] by (simp add: connect_effect)
next
  case False
  then show ?thesis
    using that linked_nth(2,3) [OF assms(1-3)] assms(4) same_network [of "cl_nodes cl ! j"]
      accept_effect [of J "Some (unused (cl_nodes cl ! a))" "cl_nodes cl ! a"]
    by (cases "j = a") auto
qed

lemma linked_chain:
  assumes "a < length (cl_nodes cl)" and "i < length (cl_nodes cl)" and "i \<noteq> a" and "j < length (cl_nodes cl)"
  shows "nd_chain (cl_nodes (linked J a i cl) ! j) = nd_chain (cl_nodes cl ! j)"
  by (rule linked_node [OF assms, of J]) simp

lemma posted_request:
  "concat (map (transmit J) (posted_on p n (snd (node_connectDone J (Some p) n)))) =
     concat (map (transmit J) (if sendable J (request J n) then [request J n] else []))"
  if J: "json_ok J"
proof -
  have "posted_on p n (snd (node_connectDone J (Some p) n)) =
      (case serializeMessage J (request J n) of Inl e \<Rightarrow> [] | Inr f \<Rightarrow> [request J n])"
    by (auto simp: connect_effect posted_on_def posted_since_def addPeer_def split: sum.split)
  then show ?thesis
    using transmit_request [OF J, of "getHeight (nd_chain n)"]
    by (auto simp: sendable_def transmit_def split: sum.splits)
qed

lemma asked_cases:
  assumes J: "json_ok J" and "a < length (cl_nodes cl)" and "i < length (cl_nodes cl)" and "i \<noteq> a"
  shows "asked C J L a i cl =
    (if sendable J (request J (cl_nodes cl ! i))
     then at_node a (handleMessage C J L (request J (cl_nodes cl ! i)) (unused (cl_nodes cl ! a))) (linked J a i cl)
     else linked J a i cl)"
  unfolding asked_def carry_def linked_nth(1) [OF assms(2-4)] posted_request [OF J]
  by (simp add: transmit_request [OF J])

text \<open>A reply travels back when there is one: the handler of a request posts blocks or nothing.\<close>

lemma asked_effect:
  assumes J: "json_ok J" and "a < length (cl_nodes cl)" and "i < length (cl_nodes cl)" and "i \<noteq> a"
  obtains k where "cl_nodes (asked C J L a i cl) ! a =
      (cl_nodes (linked J a i cl) ! a)\<lparr>nd_network := (nd_network (cl_nodes (linked J a i cl) ! a))
        \<lparr>net_posted := net_posted (nd_network (cl_nodes (linked J a i cl) ! a)) @ k\<rparr>\<rparr>"
    and "k = [] \<or> (\<exists>bs. k = [(unused (cl_nodes cl ! a), blocksMessage J (map (blockToJson J) bs))])"
proof (cases "sendable J (request J (cl_nodes cl ! i))")
  case True
  let ?n = "cl_nodes (linked J a i cl) ! a" and ?q = "unused (cl_nodes cl ! a)"
  have "handleMessage C J L (request J (cl_nodes cl ! i)) ?q =
      onGetBlocks J (msg_payload (request J (cl_nodes cl ! i))) ?q"
    by (simp add: handleMessage_def getBlocksMessage_def)
  then have "cl_nodes (asked C J L a i cl) ! a = snd (onGetBlocks J (msg_payload (request J (cl_nodes cl ! i))) ?q ?n)"
    using asked_cases [OF assms] True assms(2) by simp
  then show ?thesis using getBlocks_effect [of J "msg_payload (request J (cl_nodes cl ! i))" ?q ?n] that by metis
next
  case False
  then have "asked C J L a i cl = linked J a i cl" using asked_cases [OF assms] by simp
  then show ?thesis by (intro that [of "[]"]) simp_all
qed

lemma posted_reply:
  "n' = n\<lparr>nd_network := (nd_network n)\<lparr>net_posted := net_posted (nd_network n) @ k\<rparr>\<rparr> \<Longrightarrow>
     posted_on p n n' = map snd (filter (\<lambda>e. fst e = p) k)"
  by (simp add: posted_on_def posted_since_def)

lemma fill_cases:
  assumes J: "json_ok J" and "a < length (cl_nodes cl)" and "i < length (cl_nodes cl)" and "i \<noteq> a"
  shows "fill C J L a i cl = asked C J L a i cl \<or>
    (\<exists>bs. fill C J L a i cl =
       at_node i (handleMessage C J L (blocksMessage J (map (blockToJson J) bs)) (unused (cl_nodes cl ! i))) (asked C J L a i cl))"
proof -
  obtain k where k: "cl_nodes (asked C J L a i cl) ! a =
      (cl_nodes (linked J a i cl) ! a)\<lparr>nd_network := (nd_network (cl_nodes (linked J a i cl) ! a))
        \<lparr>net_posted := net_posted (nd_network (cl_nodes (linked J a i cl) ! a)) @ k\<rparr>\<rparr>"
    "k = [] \<or> (\<exists>bs. k = [(unused (cl_nodes cl ! a), blocksMessage J (map (blockToJson J) bs))])"
    by (rule asked_effect [OF assms])
  note posted = posted_reply [OF k(1)]
  from k(2) show ?thesis
  proof
    assume "k = []"
    then show ?thesis using assms(4) by (simp add: fill_def carry_def posted)
  next
    assume "\<exists>bs. k = [(unused (cl_nodes cl ! a), blocksMessage J (map (blockToJson J) bs))]"
    then obtain bs where bs: "k = [(unused (cl_nodes cl ! a), blocksMessage J (map (blockToJson J) bs))]" by blast
    have "fill C J L a i cl =
        (if sendable J (blocksMessage J (map (blockToJson J) bs))
         then at_node i (handleMessage C J L (blocksMessage J (map (blockToJson J) bs)) (unused (cl_nodes cl ! i))) (asked C J L a i cl)
         else asked C J L a i cl)"
      using assms(4) by (simp add: fill_def carry_def posted bs transmit_answer [OF J])
    then show ?thesis by metis
  qed
qed

lemma fill_answered:
  assumes J: "json_ok J" and a: "a < length (cl_nodes cl)" and i: "i < length (cl_nodes cl)" and ne: "i \<noteq> a"
    and request: "sendable J (request J (cl_nodes cl ! i))"
    and reply: "sendable J (blocks_from J (cl_nodes cl ! a) (height_at cl i))"
    and behind: "height_at cl i \<le> height_at cl a" and room: "height_at cl a < 2 ^ 64"
  shows "fill C J L a i cl =
    at_node i (handleMessage C J L (blocks_from J (cl_nodes cl ! a) (height_at cl i)) (unused (cl_nodes cl ! i))) (asked C J L a i cl)"
proof -
  let ?n = "cl_nodes (linked J a i cl) ! a" and ?q = "unused (cl_nodes cl ! a)"
  let ?m = "blocks_from J (cl_nodes cl ! a) (height_at cl i)"
  have chain: "bc_chain (nd_chain ?n) =
      take (height_at cl i) (bc_chain (nd_chain (cl_nodes cl ! a))) @ drop (height_at cl i) (bc_chain (nd_chain (cl_nodes cl ! a)))"
    using linked_chain [OF a i ne a] by simp
  obtain frame where frame: "serializeMessage J ?m = Inr frame" using reply by (auto simp: sendable_def)
  have "handleMessage C J L (request J (cl_nodes cl ! i)) ?q ?n =
      (Inr (), ?n\<lparr>nd_network := (nd_network ?n)\<lparr>net_posted := net_posted (nd_network ?n) @ [(?q, ?m)]\<rparr>\<rparr>)"
    by (rule answers_rest [OF J chain _ frame])
      (use linked_chain [OF a i ne a] behind room in \<open>simp_all add: height_at_def getHeight_def\<close>)
  then have "cl_nodes (asked C J L a i cl) ! a = ?n\<lparr>nd_network := (nd_network ?n)\<lparr>net_posted := net_posted (nd_network ?n) @ [(?q, ?m)]\<rparr>\<rparr>"
    using asked_cases [OF J a i ne] request a by simp
  note posted = posted_reply [OF this]
  show ?thesis using ne reply by (simp add: fill_def carry_def posted transmit_answer [OF J])
qed

section \<open>What a round keeps\<close>

text \<open>
  Whatever arrives, the members stay members, a collision stays, and the node that answers keeps
  its chain.
\<close>

definition onward ::
  "crypto_api \<Rightarrow> 'j json_api \<Rightarrow> 'd leveldb_api \<Rightarrow> cluster_setup \<Rightarrow> ('d, 'j) cluster \<Rightarrow> ('d, 'j) cluster \<Rightarrow> bool" where
  "onward C J L S cl cl' \<longleftrightarrow>
     crewed C J L S cl' \<and> length (cl_nodes cl') = length (cl_nodes cl) \<and>
     cl_signed cl' = cl_signed cl \<and> cl_paid cl' = cl_paid cl \<and> (clash C J cl \<longrightarrow> clash C J cl')"

lemma onward_refl: "crewed C J L S cl \<Longrightarrow> onward C J L S cl cl"
  by (simp add: onward_def)

lemma onward_trans: "onward C J L S cl cl' \<Longrightarrow> onward C J L S cl' cl'' \<Longrightarrow> onward C J L S cl cl''"
  by (simp add: onward_def)

lemma onwardD:
  assumes "onward C J L S cl cl'"
  shows "crewed C J L S cl'" and "length (cl_nodes cl') = length (cl_nodes cl)" and "cl_signed cl' = cl_signed cl"
    and "\<not> clash C J cl' \<Longrightarrow> \<not> clash C J cl" and "cl_paid cl' = cl_paid cl"
  using assms by (auto simp: onward_def)

lemma onward_node:
  assumes env: "environment C J L S" and crew: "crewed C J L S cl"
    and step: "\<And>n. node_step C J L n (snd (m n))"
  shows "onward C J L S cl (at_node i m cl)"
proof -
  have "local_step C J L S k (cl_nodes cl ! k) (cl_nodes (at_node i m cl) ! k)" if "k < length (cl_nodes cl)" for k
    using that by (auto intro: local_idle local_op step)
  from crew_moves [OF env crew _ this] show ?thesis by (simp add: onward_def)
qed

lemma onward_linked:
  assumes env: "environment C J L S" and crew: "crewed C J L S cl"
  shows "onward C J L S cl (linked J a i cl)"
proof -
  have first: "onward C J L S cl (at_node i (node_connectDone J (Some (unused (cl_nodes cl ! i)))) cl)"
    by (intro onward_node [OF env crew] step_connect)
  show ?thesis
    unfolding linked_def by (intro onward_trans [OF first] onward_node [OF env onwardD(1) [OF first]] step_accept)
qed

lemma fit_exchange [simp]: "fit_message J (getBlocksMessage J h)" "fit_message J (blocksMessage J js)"
  by (simp_all add: fit_message_def getBlocksMessage_def blocksMessage_def)

lemma onward_asked:
  assumes env: "environment C J L S" and crew: "crewed C J L S cl"
    and a: "a < length (cl_nodes cl)" and i: "i < length (cl_nodes cl)" and ne: "i \<noteq> a"
  shows "onward C J L S cl (asked C J L a i cl)"
proof -
  have J: "json_ok J" using env by (simp add: environment_def)
  note first = onward_linked [OF env crew, of a i]
  have "onward C J L S (linked J a i cl) (at_node a (handleMessage C J L m q) (linked J a i cl))" if "fit_message J m" for m q
    by (intro onward_node [OF env onwardD(1) [OF first]] step_message that)
  then show ?thesis using asked_cases [OF J a i ne] first by (auto intro: onward_trans)
qed

lemma onward_fill:
  assumes env: "environment C J L S" and crew: "crewed C J L S cl"
    and a: "a < length (cl_nodes cl)" and i: "i < length (cl_nodes cl)"
  shows "onward C J L S cl (fill C J L a i cl)"
proof (cases "i = a")
  case True
  then show ?thesis using crew by (simp add: fill_def onward_refl)
next
  case False
  have J: "json_ok J" using env by (simp add: environment_def)
  note first = onward_asked [OF env crew a i False]
  have "onward C J L S (asked C J L a i cl) (at_node i (handleMessage C J L m q) (asked C J L a i cl))" if "fit_message J m" for m q
    by (intro onward_node [OF env onwardD(1) [OF first]] step_message that)
  then show ?thesis using fill_cases [OF J a i False, of C L] first by (auto intro: onward_trans)
qed

lemma asked_node:
  assumes J: "json_ok J" and a: "a < length (cl_nodes cl)" and i: "i < length (cl_nodes cl)" and ne: "i \<noteq> a"
    and j: "j < length (cl_nodes cl)"
  obtains t where "cl_nodes (asked C J L a i cl) ! j = (cl_nodes cl ! j)\<lparr>nd_network := t\<rparr>"
proof -
  obtain t where t: "cl_nodes (linked J a i cl) ! j = (cl_nodes cl ! j)\<lparr>nd_network := t\<rparr>"
    by (rule linked_node [OF a i ne j])
  show ?thesis
  proof (cases "j = a")
    case True
    obtain u where "cl_nodes (asked C J L a i cl) ! a = (cl_nodes (linked J a i cl) ! a)\<lparr>nd_network := u\<rparr>"
      by (rule asked_effect [OF J a i ne, of C L])
    then show ?thesis using that [of u] t True by simp
  next
    case False
    then show ?thesis using that [of t] asked_cases [OF J a i ne, of C L] j t by simp
  qed
qed

lemma asked_chain:
  assumes "json_ok J" and "a < length (cl_nodes cl)" and "i < length (cl_nodes cl)" and "i \<noteq> a"
    and "j < length (cl_nodes cl)"
  shows "nd_chain (cl_nodes (asked C J L a i cl) ! j) = nd_chain (cl_nodes cl ! j)"
  by (rule asked_node [OF assms, of C L]) simp

lemma fill_node:
  assumes J: "json_ok J" and a: "a < length (cl_nodes cl)" and i: "i < length (cl_nodes cl)"
    and j: "j < length (cl_nodes cl)" "j \<noteq> i \<or> j = a"
  obtains t where "cl_nodes (fill C J L a i cl) ! j = (cl_nodes cl ! j)\<lparr>nd_network := t\<rparr>"
proof (cases "i = a")
  case True
  then show ?thesis using that [of "nd_network (cl_nodes cl ! j)"] by (simp add: fill_def)
next
  case False
  have "length (cl_nodes (asked C J L a i cl)) = length (cl_nodes cl)"
    using asked_cases [OF J a i False] by simp
  then have "cl_nodes (fill C J L a i cl) ! j = cl_nodes (asked C J L a i cl) ! j"
    using fill_cases [OF J a i False, of C L] j False by auto
  then show ?thesis using asked_node [OF J a i False j(1), of C L] that by metis
qed

lemma fill_chain:
  assumes "json_ok J" and "a < length (cl_nodes cl)" and "i < length (cl_nodes cl)"
    and "j < length (cl_nodes cl)" and "j \<noteq> i \<or> j = a"
  shows "nd_chain (cl_nodes (fill C J L a i cl) ! j) = nd_chain (cl_nodes cl ! j)"
  by (rule fill_node [OF assms, of C L]) simp

text \<open>An answer that does not fit a frame never arrives, and the node stays where it is.\<close>

lemma fill_stuck:
  assumes J: "json_ok J" and a: "a < length (cl_nodes cl)" and i: "i < length (cl_nodes cl)" and ne: "i \<noteq> a"
    and too_large: "\<not> sendable J (blocks_from J (cl_nodes cl ! a) (height_at cl i))"
    and behind: "height_at cl i \<le> height_at cl a" and room: "height_at cl a < 2 ^ 64"
  shows "nd_chain (cl_nodes (fill C J L a i cl) ! i) = nd_chain (cl_nodes cl ! i)"
proof -
  let ?n = "cl_nodes (linked J a i cl) ! a" and ?q = "unused (cl_nodes cl ! a)"
  let ?m = "blocks_from J (cl_nodes cl ! a) (height_at cl i)"
  have chain: "bc_chain (nd_chain ?n) =
      take (height_at cl i) (bc_chain (nd_chain (cl_nodes cl ! a))) @ drop (height_at cl i) (bc_chain (nd_chain (cl_nodes cl ! a)))"
    using linked_chain [OF a i ne a] by simp
  have "handleMessage C J L (request J (cl_nodes cl ! i)) ?q ?n = on_network (send_to J ?q ?m) ?n"
    by (rule answers_sends [OF J chain])
      (use linked_chain [OF a i ne a] behind room in \<open>simp_all add: height_at_def getHeight_def\<close>)
  then have "cl_nodes (asked C J L a i cl) ! a = ?n \<or> cl_nodes (asked C J L a i cl) ! a = snd (on_network (send_to J ?q ?m) ?n)"
    using asked_cases [OF J a i ne] a by simp
  then obtain k where k: "cl_nodes (asked C J L a i cl) ! a = ?n\<lparr>nd_network := (nd_network ?n)\<lparr>net_posted := net_posted (nd_network ?n) @ k\<rparr>\<rparr>"
      "k = [] \<or> k = [(?q, ?m)]"
  proof (elim disjE)
    assume "cl_nodes (asked C J L a i cl) ! a = ?n"
    then show thesis by (intro that [of "[]"]) simp_all
  next
    assume "cl_nodes (asked C J L a i cl) ! a = snd (on_network (send_to J ?q ?m) ?n)"
    then show thesis using send_effect [of J ?q ?m ?n] that by metis
  qed
  note posted = posted_reply [OF k(1)]
  have "fill C J L a i cl = asked C J L a i cl"
    using ne too_large k(2) by (auto simp: fill_def carry_def posted transmit_answer [OF J])
  then show ?thesis using asked_chain [OF J a i ne i] by simp
qed

section \<open>Everybody catches up\<close>

lemma longest_fold:
  "let k = fold (\<lambda>i k. if h k < (h i :: nat) then i else k) [0..<n] 0
   in (0 < n \<longrightarrow> k < n) \<and> (\<forall>i<n. h i \<le> h k)"
proof (induction n)
  case (Suc n)
  then show ?case by (cases "n = 0") (auto simp: Let_def less_Suc_eq)
qed simp

lemma longest_max:
  assumes "i < length (cl_nodes cl)"
  shows "longest cl < length (cl_nodes cl)" and "height_at cl i \<le> height_at cl (longest cl)"
  using longest_fold [of "height_at cl" "length (cl_nodes cl)"] assms
  by (auto simp: longest_def Let_def)

text \<open>Somebody has the whole log: who appended its last block, or anybody at the beginning.\<close>

lemma longest_full:
  assumes one: "one_log C S cl" and ne: "cl_signed cl \<noteq> []" and i: "i < length (cl_nodes cl)"
    and nonempty: "bc_chain (nd_chain (cl_nodes cl ! i)) \<noteq> []"
  shows "full cl (longest cl)"
proof -
  have le: "height_at cl k \<le> length (cl_signed cl)" if "k < length (cl_nodes cl)" for k
    unfolding height_at_def using one that by (intro follows_length) (simp add: one_log_def)
  let ?h = "length (cl_signed cl) - 1"
  have h: "?h < length (cl_signed cl)" using ne by simp
  have "\<exists>a<length (cl_nodes cl). ?h < height_at cl a"
  proof (cases "?h = 0")
    case True
    then show ?thesis using i nonempty by (intro exI [of _ i]) (simp add: height_at_def)
  next
    case False
    then show ?thesis using one h unfolding one_log_def height_at_def by blast
  qed
  then obtain a where "a < length (cl_nodes cl)" "?h < height_at cl a" by blast
  then have "length (cl_signed cl) \<le> height_at cl (longest cl)" using longest_max(2) [of a cl] by simp
  then show ?thesis using le [OF longest_max(1) [OF i]] by (simp add: full_def height_at_def)
qed

lemma asked_steps:
  assumes J: "json_ok J" and a: "a < length (cl_nodes cl)" and i: "i < length (cl_nodes cl)" and ne: "i \<noteq> a"
  shows "(cluster_step C J L S)\<^sup>*\<^sup>* cl (asked C J L a i cl)"
proof -
  let ?up = "at_node i (node_connectDone J (Some (unused (cl_nodes cl ! i)))) cl"
  have first: "cluster_step C J L S cl ?up" by (rule cluster_quiet [OF i quiet_connect])
  have second: "cluster_step C J L S ?up (linked J a i cl)"
    unfolding linked_def using a by (intro cluster_quiet quiet_accept) simp
  have third: "cluster_step C J L S (linked J a i cl) (at_node a (handleMessage C J L (getBlocksMessage J h) q) (linked J a i cl))" for h q
    by (intro cluster_deliver fit_exchange) (use a in \<open>simp_all add: carries_def getBlocksMessage_def\<close>)
  have "(cluster_step C J L S)\<^sup>*\<^sup>* cl (linked J a i cl)"
    using first second by (meson converse_rtranclp_into_rtranclp r_into_rtranclp)
  then show ?thesis
    using asked_cases [OF J a i ne, of C L] third by (simp add: rtranclp.rtrancl_into_rtrancl)
qed

lemma fill_steps:
  assumes env: "environment C J L S" and run: "cluster_run C J L S cl" and safe: "\<not> clash C J (fill C J L a i cl)"
    and room: "length (cl_signed cl) < 2 ^ 64" and a: "a < length (cl_nodes cl)" "full cl a" and i: "i < length (cl_nodes cl)"
    and requests: "\<And>h. sendable J (getBlocksMessage J h)" and replies: "answers_fit J (cl_nodes cl ! a)"
  shows "(cluster_step C J L S)\<^sup>*\<^sup>* cl (fill C J L a i cl) \<and> full (fill C J L a i cl) i"
proof (cases "i = a")
  case True
  then show ?thesis using a(2) by (simp add: fill_def)
next
  case False
  have J: "json_ok J" using env by (simp add: environment_def)
  have crew: "crewed C J L S cl" using cluster_run_inv [OF run env] by (simp add: cluster_inv_def)
  let ?cl = "asked C J L a i cl" let ?n = "cl_nodes ?cl ! i" and ?a = "cl_nodes ?cl ! a"
  let ?m = "blocks_from J (cl_nodes cl ! a) (height_at cl i)"
  note ask = onward_asked [OF env crew a(1) i False]
  note steps = asked_steps [OF J a(1) i False, of C L S]
  note run' = cluster_run_steps [OF steps run]
  note chains = asked_chain [OF J a(1) i False i, of C L] asked_chain [OF J a(1) i False a(1), of C L]
  have followed: "height_at cl k \<le> length (cl_signed cl)" if k: "k < length (cl_nodes cl)" "\<not> clash C J cl" for k
    unfolding height_at_def using cluster_invD(7) [OF cluster_run_inv [OF run env] room k(2)] k(1)
    by (intro follows_length) simp
  have safe_cl: "\<not> clash C J cl" by (rule onwardD(4) [OF onward_fill [OF env crew a(1) i] safe])
  have answered: "fill C J L a i cl = at_node i (handleMessage C J L ?m (unused (cl_nodes cl ! i))) ?cl"
    using followed [OF i safe_cl] a(2) room requests replies
    by (intro fill_answered [OF J a(1) i False]) (simp_all add: full_def answers_fit_def)
  have safe': "\<not> clash C J ?cl"
    using onwardD(4) [OF onward_node [OF env onwardD(1) [OF ask]]] step_message [of J ?m] safe
    unfolding answered by (metis fit_exchange(2))
  have room': "length (cl_signed ?cl) < 2 ^ 64" and len: "length (cl_nodes ?cl) = length (cl_nodes cl)"
    using onwardD(2,3) [OF ask] room by simp_all
  note inv = cluster_invD [OF cluster_run_inv [OF run' env] room' safe']
  have facts: "recoverable C J L (cl_nodes ?cl ! k)" "consistent C J (cl_nodes ?cl ! k)"
      "configured (cs_auths S) (cs_allocs S) (cl_nodes ?cl ! k)" "follows (cl_signed ?cl) (cl_nodes ?cl ! k)"
    if "k < length (cl_nodes cl)" for k
    using member_facts [OF env _ inv(4)] inv(3,7) len that by simp_all
  have arrives: "cluster_step C J L S ?cl (fill C J L a i cl)"
    unfolding answered
    by (rule cluster_deliver) (use i len rest_authentic [OF J facts(2,4) [OF a(1)]] in \<open>simp_all add: chains\<close>)
  have "full (fill C J L a i cl) i"
    using fills_up(2) [OF J facts(1) [OF i] facts(2) [OF a(1)] facts(3) [OF i] facts(3) [OF a(1)] facts(4) [OF i] facts(4) [OF a(1)] _ _ refl refl]
      a(2) room room' i len onwardD(3) [OF ask] by (simp add: full_def height_at_def answered chains)
  then show ?thesis using rtranclp.rtrancl_into_rtrancl [OF steps arrives] by simp
qed

lemma full_stays:
  assumes env: "environment C J L S" and crew: "crewed C J L S cl" and "a < length (cl_nodes cl)" and "i < length (cl_nodes cl)"
    and "j < length (cl_nodes cl)" and "full cl j" and "j \<noteq> i \<or> j = a"
  shows "full (fill C J L a i cl) j"
  using fill_chain [of J a cl i j C L] onwardD(3) [OF onward_fill [OF env crew assms(3,4)]] assms
  by (simp add: full_def height_at_def environment_def)

text \<open>From every state the nodes all get the whole log.\<close>

lemma fold_fill_moves:
  assumes env: "environment C J L S" and crew: "crewed C J L S cl" and a: "a < length (cl_nodes cl)"
  shows "k \<le> length (cl_nodes cl) \<Longrightarrow>
    onward C J L S cl (fold (fill C J L a) [0..<k] cl) \<and>
    nd_chain (cl_nodes (fold (fill C J L a) [0..<k] cl) ! a) = nd_chain (cl_nodes cl ! a)"
proof (induction k)
  case (Suc k)
  let ?cl = "fold (fill C J L a) [0..<k] cl"
  have first: "onward C J L S cl ?cl" and chain: "nd_chain (cl_nodes ?cl ! a) = nd_chain (cl_nodes cl ! a)" using Suc by simp_all
  have J: "json_ok J" using env by (simp add: environment_def)
  have "onward C J L S ?cl (fill C J L a k ?cl)"
    using onward_fill [OF env onwardD(1) [OF first]] onwardD(2) [OF first] a Suc.prems by simp
  then show ?case
    using onward_trans [OF first] fill_chain [OF J, of a ?cl k a C L] chain onwardD(2) [OF first] a Suc.prems by simp
qed (simp add: onward_refl [OF crew])

lemma fold_fill:
  assumes env: "environment C J L S" and run: "cluster_run C J L S cl" and room: "length (cl_signed cl) < 2 ^ 64"
    and a: "a < length (cl_nodes cl)" "full cl a"
    and requests: "\<And>h. sendable J (getBlocksMessage J h)" and replies: "answers_fit J (cl_nodes cl ! a)"
  shows "k \<le> length (cl_nodes cl) \<Longrightarrow> \<not> clash C J (fold (fill C J L a) [0..<k] cl) \<Longrightarrow>
    (cluster_step C J L S)\<^sup>*\<^sup>* cl (fold (fill C J L a) [0..<k] cl) \<and> (\<forall>i<k. full (fold (fill C J L a) [0..<k] cl) i)"
proof (induction k)
  case (Suc k)
  let ?cl = "fold (fill C J L a) [0..<k] cl"
  have crew: "crewed C J L S cl" using cluster_run_inv [OF run env] by (simp add: cluster_inv_def)
  have moved: "onward C J L S cl ?cl" and chain: "nd_chain (cl_nodes ?cl ! a) = nd_chain (cl_nodes cl ! a)"
    using fold_fill_moves [OF env crew a(1), of k] Suc.prems(1) by simp_all
  note len = onwardD(2) [OF moved] and log = onwardD(3) [OF moved]
  have k: "k < length (cl_nodes ?cl)" and a': "a < length (cl_nodes ?cl)" "full ?cl a"
    using Suc.prems(1) a len log chain by (simp_all add: full_def height_at_def)
  have end': "\<not> clash C J (fill C J L a k ?cl)" using Suc.prems(2) by simp
  have safe: "\<not> clash C J ?cl" by (rule onwardD(4) [OF onward_fill [OF env onwardD(1) [OF moved] a'(1) k] end'])
  then have steps: "(cluster_step C J L S)\<^sup>*\<^sup>* cl ?cl" and filled: "\<forall>i<k. full ?cl i" using Suc by simp_all
  have "length (cl_signed ?cl) < 2 ^ 64" "answers_fit J (cl_nodes ?cl ! a)"
    using room log replies chain by (simp_all add: answers_fit_def)
  note next_fill = fill_steps [OF env cluster_run_steps [OF steps run] end' this(1) a' k requests this(2)]
  have "full (fill C J L a k ?cl) i" if "i < Suc k" for i
    using next_fill full_stays [OF env onwardD(1) [OF moved] a'(1) k, of i] filled that k by (cases "i = k") simp_all
  then show ?case using rtranclp_trans [OF steps conjunct1 [OF next_fill]] by simp
qed simp

lemma fill_all_moves:
  assumes "environment C J L S" and "crewed C J L S cl" and "cl_nodes cl \<noteq> []"
  shows "onward C J L S cl (fill_all C J L cl)"
    and "nd_chain (cl_nodes (fill_all C J L cl) ! longest cl) = nd_chain (cl_nodes cl ! longest cl)"
  using fold_fill_moves [OF assms(1,2) longest_max(1) order_refl, of 0] assms(3) by (simp_all add: fill_all_def)

lemma fill_all_reaches:
  assumes env: "environment C J L S" and run: "cluster_run C J L S cl" and room: "length (cl_signed cl) < 2 ^ 64"
    and safe: "\<not> clash C J (fill_all C J L cl)" and ne: "cl_nodes cl \<noteq> []"
    and requests: "\<And>h. sendable J (getBlocksMessage J h)" and replies: "answers_fit J (cl_nodes cl ! longest cl)"
  shows "(cluster_step C J L S)\<^sup>*\<^sup>* cl (fill_all C J L cl)" and "i < length (cl_nodes cl) \<Longrightarrow> full (fill_all C J L cl) i"
proof -
  have crew: "crewed C J L S cl" using cluster_run_inv [OF run env] by (simp add: cluster_inv_def)
  have "\<not> clash C J cl" by (rule onwardD(4) [OF fill_all_moves(1) [OF env crew ne] safe])
  note inv = cluster_invD [OF cluster_run_inv [OF run env] room this]
  have pos: "0 < length (cl_nodes cl)" using ne by simp
  have "consistent C J (cl_nodes cl ! 0)" using member_facts(2) [OF env _ inv(4) [OF pos]] pos inv(3) by simp
  then have "full cl (longest cl)" by (intro longest_full [OF inv(6,2) pos] consistentD(6))
  note filled = fold_fill [OF env run room longest_max(1) [OF pos] this requests replies order_refl]
  show "(cluster_step C J L S)\<^sup>*\<^sup>* cl (fill_all C J L cl)" and "i < length (cl_nodes cl) \<Longrightarrow> full (fill_all C J L cl) i"
    using filled safe by (simp_all add: fill_all_def)
qed

section \<open>A round\<close>

text \<open>
  Every node asks the one with the longest chain, the authority in turn produces a block, and
  every node asks again.
\<close>

definition produce_in_turn ::
  "crypto_api \<Rightarrow> 'j json_api \<Rightarrow> 'd leveldb_api \<Rightarrow> cluster_setup \<Rightarrow> u64 \<Rightarrow> ('d, 'j) cluster \<Rightarrow> ('d, 'j) cluster" where
  "produce_in_turn C J L S now cl =
     (case find (\<lambda>i. owns C S i (length (cl_signed cl))) [0..<length (cl_nodes cl)] of
        None \<Rightarrow> cl
      | Some i \<Rightarrow> (at_node i (produceBlock C J L now) cl)
          \<lparr>cl_signed := cl_signed cl @ created C J now (cl_nodes cl ! i)\<rparr>)"

definition cluster_round ::
  "crypto_api \<Rightarrow> 'j json_api \<Rightarrow> 'd leveldb_api \<Rightarrow> cluster_setup \<Rightarrow> u64 \<Rightarrow> ('d, 'j) cluster \<Rightarrow> ('d, 'j) cluster" where
  "cluster_round C J L S now cl = fill_all C J L (produce_in_turn C J L S now (fill_all C J L cl))"

text \<open>A full node in turn appends a block.\<close>

lemma turn_of:
  assumes env: "environment C J L S" and run: "cluster_run C J L S cl" and safe: "\<not> clash C J cl"
    and room: "length (cl_signed cl) < 2 ^ 64" and i: "i < length (cl_nodes cl)" and full: "full cl i"
    and own: "owns C S i (length (cl_signed cl))"
  obtains b where "created C J now (cl_nodes cl ! i) = [b]"
proof -
  let ?n = "cl_nodes cl ! i" and ?h = "length (cl_signed cl)"
  note inv = cluster_invD [OF cluster_run_inv [OF run env] room safe]
  have "i < length (cs_keys S)" using i inv(3) by simp
  note facts = member_facts [OF env this inv(4) [OF i]]
  obtain p where p: "bc_consensus (nd_chain ?n) = Some p" "poa_authorities p = cs_auths S"
    using facts(5) by (auto simp: configured_def)
  have "getHeight (nd_chain ?n) = word_of_nat ?h" using full by (simp add: full_def height_at_def getHeight_def)
  then have turn: "getProducer p (getHeight (nd_chain ?n)) = nd_addr ?n"
    using getProducer_nat [OF room, of p] p(2) own facts(4) by (simp add: owns_def producer_at_def)
  show ?thesis using that produceBlock_made [OF facts(2) p(1) turn] created_block [OF p(1) turn] by metis
qed

definition all_staffed :: "crypto_api \<Rightarrow> cluster_setup \<Rightarrow> bool" where
  "all_staffed C S \<longleftrightarrow> cs_keys S \<noteq> [] \<and> set (cs_auths S) \<subseteq> set (map (address_of C) (cs_keys S))"

lemma somebody_owns:
  assumes env: "environment C J L S" and crew: "crewed C J L S cl" and staffed: "all_staffed C S"
  obtains i where "find (\<lambda>i. owns C S i h) [0..<length (cl_nodes cl)] = Some i" and "i < length (cl_nodes cl)"
    and "owns C S i h"
proof -
  have pos: "0 < length (cl_nodes cl)" "0 < length (cs_keys S)"
    using staffed crewedD(1) [OF crew] by (simp_all add: all_staffed_def)
  have "cs_auths S \<noteq> []" by (rule member_facts(3) [OF env pos(2) crewedD(2) [OF crew pos(1)]])
  then have "producer_at S h \<in> set (cs_auths S)" by (simp add: producer_at_def)
  then have "producer_at S h \<in> set (map (address_of C) (cs_keys S))" using staffed by (auto simp: all_staffed_def)
  then obtain j where "j < length (cs_keys S)" "address_of C (cs_keys S ! j) = producer_at S h"
    unfolding in_set_conv_nth by auto
  then have "j < length (cs_keys S)" "owns C S j h" by (simp_all add: owns_def)
  then have "find (\<lambda>i. owns C S i h) [0..<length (cl_nodes cl)] \<noteq> None"
    using crewedD(1) [OF crew] by (auto simp: find_None_iff)
  then obtain i where i: "find (\<lambda>i. owns C S i h) [0..<length (cl_nodes cl)] = Some i" by auto
  moreover have "i < length (cl_nodes cl) \<and> owns C S i h" using i by (auto simp: find_Some_iff)
  ultimately show ?thesis using that by blast
qed

lemma produce_in_turn_step:
  assumes env: "environment C J L S" and run: "cluster_run C J L S cl" and safe: "\<not> clash C J cl"
    and room: "length (cl_signed cl) < 2 ^ 64" and full: "\<forall>i<length (cl_nodes cl). full cl i" and staffed: "all_staffed C S"
  shows "cluster_step C J L S cl (produce_in_turn C J L S now cl)"
    and "length (cl_signed (produce_in_turn C J L S now cl)) = Suc (length (cl_signed cl))"
proof -
  note inv = cluster_invD [OF cluster_run_inv [OF run env] room safe]
  obtain i where i: "find (\<lambda>i. owns C S i (length (cl_signed cl))) [0..<length (cl_nodes cl)] = Some i"
      "i < length (cl_nodes cl)" "owns C S i (length (cl_signed cl))"
    by (rule somebody_owns [OF env inv(1) staffed])
  have eq: "produce_in_turn C J L S now cl =
      (at_node i (produceBlock C J L now) cl)\<lparr>cl_signed := cl_signed cl @ created C J now (cl_nodes cl ! i)\<rparr>"
    by (simp add: produce_in_turn_def i(1))
  show "cluster_step C J L S cl (produce_in_turn C J L S now cl)"
    unfolding eq by (rule cluster_produce [OF i(2)])
  obtain b where "created C J now (cl_nodes cl ! i) = [b]"
    using turn_of [OF env run safe room i(2) _ i(3)] full i(2) by metis
  then show "length (cl_signed (produce_in_turn C J L S now cl)) = Suc (length (cl_signed cl))" by (simp add: eq)
qed

lemma produce_in_turn_moves:
  assumes "environment C J L S" and "crewed C J L S cl"
  shows "crewed C J L S (produce_in_turn C J L S now cl)"
    and "clash C J cl \<Longrightarrow> clash C J (produce_in_turn C J L S now cl)"
proof -
  have "produce_in_turn C J L S now cl = cl \<or> cluster_step C J L S cl (produce_in_turn C J L S now cl)"
    by (auto simp: produce_in_turn_def find_Some_iff split: option.split intro!: cluster_produce)
  then show "crewed C J L S (produce_in_turn C J L S now cl)"
    and "clash C J cl \<Longrightarrow> clash C J (produce_in_turn C J L S now cl)"
    using crew_step(1,2) [OF assms] assms(2) by auto
qed

lemma produce_in_turn_length [simp]: "length (cl_nodes (produce_in_turn C J L S now cl)) = length (cl_nodes cl)"
  by (simp add: produce_in_turn_def split: option.split)

lemma round_extends:
  assumes env: "environment C J L S" and run: "cluster_run C J L S cl" and room: "Suc (length (cl_signed cl)) < 2 ^ 64"
    and staffed: "all_staffed C S" and cl': "cl' = cluster_round C J L S now cl" and safe: "\<not> clash C J cl'"
    and requests: "\<And>h. sendable J (getBlocksMessage J h)"
    and replies: "\<And>n. n \<in> set (cl_nodes cl) \<union> set (cl_nodes cl') \<Longrightarrow> answers_fit J n"
  shows "(cluster_step C J L S)\<^sup>*\<^sup>* cl cl'" and "length (cl_signed cl') = Suc (length (cl_signed cl))"
    and "n \<in> set (cl_nodes cl') \<Longrightarrow> map blk_hash (bc_chain (nd_chain n)) = map blk_hash (cl_signed cl')"
proof -
  let ?a = "fill_all C J L cl" let ?b = "produce_in_turn C J L S now ?a"
  have eq: "cl' = fill_all C J L ?b" by (simp add: cl' cluster_round_def)
  have small: "length (cl_signed cl) < 2 ^ 64" using room by simp
  have crew: "crewed C J L S cl" using cluster_run_inv [OF run env] by (simp add: cluster_inv_def)
  have some: "cl_nodes cl \<noteq> []" using staffed crewedD(1) [OF crew] by (auto simp: all_staffed_def)
  note a = onwardD [OF fill_all_moves(1) [OF env crew some]]
  note b = produce_in_turn_moves [OF env a(1), of now]
  have some_b: "cl_nodes ?b \<noteq> []" using some a(2) by (metis length_0_conv produce_in_turn_length)
  note c = onwardD [OF fill_all_moves(1) [OF env b(1) some_b]]
  have len: "length (cl_nodes cl') = length (cl_nodes cl)" using a(2) c(2) by (simp add: eq)
  have safe_b: "\<not> clash C J ?b" using c(4) safe by (simp add: eq)
  then have safe_a: "\<not> clash C J ?a" using b(2) by auto
  have tops: "longest cl < length (cl_nodes cl)" "longest ?b < length (cl_nodes cl)"
    using longest_max(1) [of 0 cl] longest_max(1) [of 0 ?b] some some_b a(2) by simp_all
  have "answers_fit J (cl_nodes cl ! longest cl)" using tops(1) by (intro replies) simp
  note ra = fill_all_reaches [OF env run small safe_a some requests this]
  have run_a: "cluster_run C J L S ?a" by (rule cluster_run_steps [OF ra(1) run])
  have small_a: "length (cl_signed ?a) < 2 ^ 64" using small a(3) by simp
  have "\<forall>i<length (cl_nodes ?a). full ?a i" using ra(2) a(2) by simp
  note rb = produce_in_turn_step [OF env run_a safe_a small_a this staffed, of now]
  have run_b: "cluster_run C J L S ?b" by (rule cluster_more [OF run_a rb(1)])
  have small_b: "length (cl_signed ?b) < 2 ^ 64" using room rb(2) a(3) by simp
  have "answers_fit J (cl_nodes cl' ! longest ?b)" using tops(2) len by (intro replies) simp
  then have "answers_fit J (cl_nodes ?b ! longest ?b)"
    using fill_all_moves(2) [OF env b(1) some_b] by (simp add: eq answers_fit_def)
  note rc = fill_all_reaches [OF env run_b small_b safe [unfolded eq] some_b requests this]
  show steps: "(cluster_step C J L S)\<^sup>*\<^sup>* cl cl'"
    unfolding eq using rtranclp_trans [OF rtranclp.rtrancl_into_rtrancl [OF ra(1) rb(1)] rc(1)] .
  show longer: "length (cl_signed cl') = Suc (length (cl_signed cl))" using rb(2) a(3) c(3) eq by simp
  have small_c: "length (cl_signed cl') < 2 ^ 64" using longer room by simp
  note inv = cluster_invD [OF cluster_run_inv [OF cluster_run_steps [OF steps run] env] small_c safe]
  show "map blk_hash (bc_chain (nd_chain n)) = map blk_hash (cl_signed cl')" if n: "n \<in> set (cl_nodes cl')"
  proof (rule follows_full [OF inv(7) [OF n]])
    obtain i where "i < length (cl_nodes cl')" "n = cl_nodes cl' ! i" using n by (metis in_set_conv_nth)
    then show "length (bc_chain (nd_chain n)) = length (cl_signed cl')"
      using rc(2) [of i] len a(2) eq by (simp add: full_def height_at_def)
  qed
qed

end
