(* ===== verification/Cluster_Samples.thy ===== *)
theory Cluster_Samples
  imports Cluster_Rounds Samples
begin

text \<open>
  A cluster of two nodes, the authority and an observer, through the making and the delivery of
  one block. Its digest, the length and the sum of the bytes, keeps the few texts of this run
  apart, which can be checked by computation.
\<close>

definition tally :: "bytes \<Rightarrow> bytes" where
  "tally d =
     replicate 12 0 @ [word_of_nat (length d), word_of_nat (sum_list (map unat d)), if d = [] then 0 else 1] @ replicate 17 0"

definition tally_crypto :: crypto_api where
  "tally_crypto = demo_crypto\<lparr>evp_final := \<lambda>d. Some (tally d, 32)\<rparr>"

lemma tally_crypto_ok: "crypto_ok tally_crypto"
  using demo_crypto_ok by (simp add: tally_crypto_def tally_def crypto_ok_def evp_ok_def secp_ok_def)

lemma digest_tally: "digest tally_crypto d = tally d"
  by (simp add: digest_def sha256_def tally_crypto_def demo_crypto_def)

definition observer_keys :: key_pair where
  "observer_keys = \<lparr>privateKey = replicate 32 2, publicKey = 2 # replicate 32 2\<rparr>"

definition sample_setup :: cluster_setup where
  "sample_setup =
     \<lparr>cs_keys = [sample_keys, observer_keys], cs_dirs = [''a'', ''b''], cs_genesis = sample_keys,
      cs_auths = [address_of tally_crypto sample_keys], cs_allocs = [(address_of tally_crypto sample_keys, 100)]\<rparr>"

lemma sample_addresses: "address_of tally_crypto sample_keys \<noteq> address_of tally_crypto observer_keys"
  by (simp add: address_of_def deriveAddress_def digest_tally tally_def sample_keys_def observer_keys_def sum_list_replicate)

lemma sample_environment: "environment tally_crypto demo_json demo_leveldb sample_setup"
proof -
  have "key_pair_ok tally_crypto sample_keys" "key_pair_ok tally_crypto observer_keys"
    by (simp_all add: key_pair_ok_def sample_keys_def observer_keys_def tally_crypto_def demo_crypto_def derivePublicKey_def)
  then have "setup_ok tally_crypto sample_setup"
    using sample_addresses sample_addresses [symmetric]
    by (auto simp: setup_ok_def sample_setup_def less_Suc_eq)
  then show ?thesis by (simp add: environment_def tally_crypto_ok demo_json_ok demo_leveldb_reliable)
qed

lemma sample_staffed: "all_staffed tally_crypto sample_setup"
  by (simp add: all_staffed_def sample_setup_def)

lemma sample_header_length:
  assumes "wf_block a" and "wf_block b"
  shows "length (header_bytes tally_crypto demo_json a) + (length (to_string (blk_index b)) + length (to_string (blk_timestamp b))) =
    length (header_bytes tally_crypto demo_json b) + (length (to_string (blk_index a)) + length (to_string (blk_timestamp a)))"
proof -
  have "length (digest tally_crypto d) = 32" for d by (simp add: digest_tally tally_def)
  then show ?thesis
    using assms
    by (simp add: header_bytes_def headerJson_def enc_string_def wf_block_def sized_def computeTransactionRootHash_def)
qed

lemma tally_empty: "tally d = tally [] \<longleftrightarrow> d = []" "tally [] = tally d \<longleftrightarrow> d = []"
  by (simp_all add: tally_def)

lemma tally_separates:
  assumes "length h = length k + 4" and "x \<in> {[], h, k}" and "y \<in> {[], h, k}"
  shows "\<not> collision tally_crypto x y"
proof -
  have "tally h \<noteq> tally k" using assms(1) by (simp add: tally_def)
  then show ?thesis
    using assms(2,3) by (elim insertE emptyE) (auto simp: collision_def digest_tally tally_empty)
qed

lemma sample_no_collision:
  assumes "wf_block g" and "wf_block b" and "blk_index g = 0" and "blk_timestamp g = 0"
    and "blk_index b = 1" and "blk_timestamp b = 10000"
    and "x \<in> insert [] (header_bytes tally_crypto demo_json ` {g, b})"
    and "y \<in> insert [] (header_bytes tally_crypto demo_json ` {g, b})"
  shows "\<not> collision tally_crypto x y"
proof -
  have "length (to_string (10000 :: u64)) = 5" by (simp add: to_string_def to_string_nat_step)
  then have "length (header_bytes tally_crypto demo_json b) = length (header_bytes tally_crypto demo_json g) + 4"
    using sample_header_length [OF assms(1,2)] assms(3-6) by (simp add: to_string_def)
  from tally_separates [OF this] show ?thesis using assms(7,8) by auto
qed

text \<open>The authority's block, and its arrival at the observer.\<close>

lemma sample_produces:
  fixes n :: "((string \<times> string) list, jval) node"
  assumes n: "member tally_crypto demo_json demo_leveldb sample_setup 0 n" and chain: "bc_chain (nd_chain n) = [g]"
  obtains b where "created tally_crypto demo_json 10000 n = [b]" and "wf_block b" and "blk_index b = 1"
    and "blk_timestamp b = 10000" and "accepts tally_crypto demo_json (nd_chain n) b"
    and "blk_transactions b = getTransactionsForBlock (nd_mempool n) 100"
    and "bc_chain (nd_chain (snd (produceBlock tally_crypto demo_json demo_leveldb 10000 n))) = [g, b]"
proof -
  have "0 < length (cs_keys sample_setup)" by (simp add: sample_setup_def)
  note facts = member_facts [OF sample_environment this n]
  obtain p where p: "bc_consensus (nd_chain n) = Some p" "poa_authorities p = cs_auths sample_setup"
    using facts(5) by (auto simp: configured_def)
  have turn: "getProducer p (getHeight (nd_chain n)) = nd_addr n"
    using p(2) facts(4) by (simp add: getProducer_def sample_setup_def)
  obtain b where b: "createBlock tally_crypto demo_json 10000 (nd_keys n) (getLatestBlock (nd_chain n))
        (getTransactionsForBlock (nd_mempool n) 100) = Inr b"
      "accepts tally_crypto demo_json (nd_chain n) b" "wf_block b"
      "took tally_crypto demo_json b n (snd (produceBlock tally_crypto demo_json demo_leveldb 10000 n))"
    by (rule produceBlock_made [OF facts(2) p(1) turn])
  show ?thesis
    by (rule that [OF created_block [OF p(1) turn b(1)] b(3) _ createBlock_Inr(6) [OF b(1)] b(2) createBlock_Inr(4) [OF b(1)]])
      (use b(2) chain took_chain [OF b(4,2)] in \<open>simp_all add: accepts_def getHeight_def\<close>)
qed

lemma sample_clusters:
  obtains n0 n1 :: "((string \<times> string) list, jval) node" and g
  where "cluster_run tally_crypto demo_json demo_leveldb sample_setup \<lparr>cl_nodes = [n0, n1], cl_signed = [g], cl_paid = []\<rparr>"
    and "member tally_crypto demo_json demo_leveldb sample_setup 0 n0"
    and "member tally_crypto demo_json demo_leveldb sample_setup 1 n1"
    and "bc_chain (nd_chain n0) = [g]" and "bc_chain (nd_chain n1) = [g]" and "nd_mempool n0 = newMempool"
    and "wf_block g" and "blk_index g = 0" and "blk_timestamp g = 0" and "blk_transactions g = []"
proof -
  have empty: "\<forall>k. ldb_get demo_leveldb [] k = NotFound" by (simp add: demo_leveldb_def demo_get_def)
  have ne: "cs_auths sample_setup \<noteq> []" and keys: "length (cs_keys sample_setup) = 2" by (simp_all add: sample_setup_def)
  obtain ns :: "((string \<times> string) list, jval) node list" and g where ns: "length ns = length (cs_keys sample_setup)"
      "\<And>i. i < length ns \<Longrightarrow> born tally_crypto demo_json demo_leveldb sample_setup i (ns ! i)"
      "createGenesisBlock tally_crypto demo_json (cs_genesis sample_setup) = Inr g"
      "cluster_run tally_crypto demo_json demo_leveldb sample_setup \<lparr>cl_nodes = ns, cl_signed = [g], cl_paid = []\<rparr>"
    using cluster_starts [OF sample_environment ne empty] by metis
  have S: "setup_ok tally_crypto sample_setup" using sample_environment by (simp add: environment_def)
  obtain n0 n1 where n: "ns = [n0, n1]" using ns(1) keys by (auto simp: numeral_2_eq_2 length_Suc_conv)
  have born: "born tally_crypto demo_json demo_leveldb sample_setup 0 n0" "born tally_crypto demo_json demo_leveldb sample_setup 1 n1"
    using ns(2) [of 0] ns(2) [of 1] n by simp_all
  note first = born_member [OF sample_environment _ born(1) ns(3)] and second = born_member [OF sample_environment _ born(2) ns(3)]
  have wf: "wf_block g" by (rule createGenesisBlock_wf [OF tally_crypto_ok setup_okD(1) [OF S] ns(3)])
  show ?thesis
    by (rule that [OF ns(4) [unfolded n] first(1) second(1) first(2) second(2) first(3) wf createGenesisBlock_Inr(1,3,5) [OF ns(3)]])
      (simp_all add: keys)
qed

text \<open>The messages of this run fit a frame.\<close>

lemma sample_sendable:
  assumes "json_plain demo_json (msg_payload m)" and "length (enc (envelope demo_json m)) < 10000"
  shows "sendable demo_json m"
proof -
  let ?body = "j_text demo_json (envelope demo_json m)"
  have body: "messageBody demo_json m = Inr ?body" by (rule messageBody_text [OF demo_json_ok assms(1)])
  have len: "length ?body < 10000" using assms(2) by simp
  have "serializeMessage demo_json m = Inr (encodeLength (word_of_nat (length ?body)) @ string_bytes ?body)"
    using len by (intro serializeMessage_frame [OF body]) simp
  moreover have "length (encodeLength (word_of_nat (length ?body)) @ string_bytes ?body) \<le> 4 + 16 * 1024 * 1024"
    unfolding length_append length_encodeLength string_bytes_length using len by simp
  ultimately show ?thesis unfolding sendable_def by blast
qed

lemma sample_request: "sendable demo_json (getBlocksMessage demo_json h)"
proof (rule sample_sendable [OF getBlocksMessage_plain])
  show "length (enc (envelope demo_json (getBlocksMessage demo_json h))) < 10000"
    using enc_uint_length [of h]
    by (simp add: envelope_def sent_payload_def getBlocksMessage_def messageTypeToString_def enc_string_def to_string_nat_step)
qed

lemma sample_answer:
  fixes n :: "((string \<times> string) list, jval) node"
  assumes n: "consistent tally_crypto demo_json n" and two: "length (bc_chain (nd_chain n)) \<le> 2"
    and empty: "\<forall>b\<in>set (bc_chain (nd_chain n)). blk_transactions b = []"
  shows "answers_fit demo_json n"
  unfolding answers_fit_def
proof (intro allI sample_sendable blocksMessage_plain)
  fix k
  have small: "length (enc (blockToJson demo_json b)) < 1000" if b: "b \<in> set (bc_chain (nd_chain n))" for b
  proof (rule demo_block_text_small)
    show "wf_block b" using consistentD(4) [OF n] b by (simp add: wf_node_def list_all_iff)
    have "verify tally_crypto (blk_hash b) (blk_signature b) (blk_validatorPublicKey b)"
      using valid_blocks_verify [OF consistentD(5) [OF n] b] by (auto simp: verifyBlock_def Let_def split: if_splits)
    then show "length (blk_signature b) = 64"
      by (auto simp: verify_def tally_crypto_def demo_crypto_def split: option.splits if_splits)
  qed (use empty b in blast)
  have bound: "length (concat (map enc (map (blockToJson demo_json) bs))) \<le> 1000 * length bs"
    if "set bs \<subseteq> set (bc_chain (nd_chain n))" for bs
    using that
  proof (induction bs)
    case (Cons b bs)
    then show ?case using small [of b] by simp
  qed simp
  show "length (enc (envelope demo_json (blocks_from demo_json n k))) < 10000"
    using bound [of "drop k (bc_chain (nd_chain n))"] set_drop_subset [of k "bc_chain (nd_chain n)"] two
    by (simp add: envelope_def sent_payload_def blocksMessage_def messageTypeToString_def enc_string_def to_string_nat_step)
qed

text \<open>The observer catches up with the authority.\<close>

lemma sample_fill:
  fixes cl :: "((string \<times> string) list, jval) cluster"
  assumes crew: "crewed tally_crypto demo_json demo_leveldb sample_setup cl"
    and chains: "bc_chain (nd_chain (cl_nodes cl ! 1)) = ys" "bc_chain (nd_chain (cl_nodes cl ! 0)) = ys @ zs"
    and room: "length (ys @ zs) < 2 ^ 64" and fits: "answers_fit demo_json (cl_nodes cl ! 0)"
    and cl': "cl' = fill_all tally_crypto demo_json demo_leveldb cl"
  shows "onward tally_crypto demo_json demo_leveldb sample_setup cl cl'"
    and "bc_chain (nd_chain (cl_nodes cl' ! 0)) = ys @ zs" and "bc_chain (nd_chain (cl_nodes cl' ! 1)) = ys @ zs"
    and "\<exists>t. cl_nodes cl' ! 0 = (cl_nodes cl ! 0)\<lparr>nd_network := t\<rparr>"
proof -
  have nodes: "length (cl_nodes cl) = 2" using crewedD(1) [OF crew] by (simp add: sample_setup_def)
  then have two: "0 < length (cl_nodes cl)" "1 < length (cl_nodes cl)" "(1 :: nat) \<noteq> 0" "[0..<length (cl_nodes cl)] = [0, 1]"
    by (simp_all add: upt_rec)
  have "longest cl = 0" using chains by (simp add: longest_def height_at_def two(4))
  then have one: "cl' = fill tally_crypto demo_json demo_leveldb 0 1 cl"
    by (simp add: cl' fill_all_def two(4)) (simp add: fill_def)
  let ?cl = "asked tally_crypto demo_json demo_leveldb 0 1 cl"
  note ask = onward_asked [OF sample_environment crew two(1-3)]
  note heights = asked_chain [OF demo_json_ok two(1-3), of _ tally_crypto demo_leveldb]
  have members: "member tally_crypto demo_json demo_leveldb sample_setup k (cl_nodes ?cl ! k)" if "k < 2" for k
    using crewedD(2) [OF onwardD(1) [OF ask]] onwardD(2) [OF ask] nodes that by simp
  have keys: "0 < length (cs_keys sample_setup)" "1 < length (cs_keys sample_setup)" by (simp_all add: sample_setup_def)
  note f0 = member_facts [OF sample_environment keys(1) members] and f1 = member_facts [OF sample_environment keys(2) members]
  have filled: "cl' = at_node 1 (handleMessage tally_crypto demo_json demo_leveldb
      (blocks_from demo_json (cl_nodes cl ! 0) (height_at cl 1)) (unused (cl_nodes cl ! 1))) ?cl"
    unfolding one
    by (rule fill_answered [OF demo_json_ok two(1-3) sample_request fits [unfolded answers_fit_def, rule_format]])
      (use room chains in \<open>simp_all add: height_at_def\<close>)
  have "follows (ys @ zs) (cl_nodes ?cl ! 0)" "follows (ys @ zs) (cl_nodes ?cl ! 1)"
    using heights [OF two(1)] heights [OF two(2)] chains by (simp_all add: follows_def)
  from fills_up(1) [OF demo_json_ok f1(1) f0(2) f1(5) f0(5) this(2,1) _ room refl refl, of "unused (cl_nodes cl ! 1)"]
  show "bc_chain (nd_chain (cl_nodes cl' ! 1)) = ys @ zs"
    using heights [OF two(1)] heights [OF two(2)] chains onwardD(2) [OF ask] nodes
    by (simp add: filled height_at_def)
  show "onward tally_crypto demo_json demo_leveldb sample_setup cl cl'"
    unfolding one by (rule onward_fill [OF sample_environment crew two(1,2)])
  show same: "\<exists>t. cl_nodes cl' ! 0 = (cl_nodes cl ! 0)\<lparr>nd_network := t\<rparr>"
    unfolding one by (rule fill_node [OF demo_json_ok two(1,2,1), of tally_crypto demo_leveldb]) auto
  show "bc_chain (nd_chain (cl_nodes cl' ! 0)) = ys @ zs" using same chains by auto
qed

text \<open>
  One round of this cluster and one production in it: the nodes before, after the production and
  after the round, and the blocks.
\<close>

definition sample_course ::
  "((string \<times> string) list, jval) node list \<Rightarrow> ((string \<times> string) list, jval) node \<Rightarrow>
   ((string \<times> string) list, jval) node list \<Rightarrow> block \<Rightarrow> block \<Rightarrow>
   ((string \<times> string) list, jval) cluster \<Rightarrow> ((string \<times> string) list, jval) cluster \<Rightarrow>
   ((string \<times> string) list, jval) cluster \<Rightarrow> bool" where
  "sample_course ns k ms g b cl cl1 cl2 \<longleftrightarrow>
     cl = \<lparr>cl_nodes = ns, cl_signed = [g], cl_paid = []\<rparr> \<and>
     cl1 = \<lparr>cl_nodes = [k, ns ! 1], cl_signed = [g, b], cl_paid = []\<rparr> \<and>
     cl2 = \<lparr>cl_nodes = ms, cl_signed = [g, b], cl_paid = []\<rparr> \<and>
     cluster_run tally_crypto demo_json demo_leveldb sample_setup cl \<and>
     cluster_step tally_crypto demo_json demo_leveldb sample_setup cl cl1 \<and>
     cluster_round tally_crypto demo_json demo_leveldb sample_setup 10000 cl = cl2 \<and>
     map (\<lambda>n. bc_chain (nd_chain n)) ns = [[g], [g]] \<and> bc_chain (nd_chain k) = [g, b] \<and>
     map (\<lambda>n. bc_chain (nd_chain n)) ms = [[g, b], [g, b]] \<and>
     \<not> clash tally_crypto demo_json cl1 \<and> \<not> clash tally_crypto demo_json cl2 \<and>
     \<not> collide tally_crypto (chain_texts tally_crypto demo_json (ms ! 0)) (chain_texts tally_crypto demo_json (ms ! 1)) \<and>
     (\<forall>n\<in>set ns \<union> set ms. answers_fit demo_json n)"

lemma sample_courseD:
  assumes "sample_course [n0, n1] k [m0, m1] g b cl cl1 cl2"
  shows "cl = \<lparr>cl_nodes = [n0, n1], cl_signed = [g], cl_paid = []\<rparr>"
    and "cl1 = \<lparr>cl_nodes = [k, n1], cl_signed = [g, b], cl_paid = []\<rparr>"
    and "cl2 = \<lparr>cl_nodes = [m0, m1], cl_signed = [g, b], cl_paid = []\<rparr>"
    and "cluster_run tally_crypto demo_json demo_leveldb sample_setup cl"
    and "cluster_step tally_crypto demo_json demo_leveldb sample_setup cl cl1"
    and "cluster_round tally_crypto demo_json demo_leveldb sample_setup 10000 cl = cl2"
    and "bc_chain (nd_chain n0) = [g]" and "bc_chain (nd_chain n1) = [g]" and "bc_chain (nd_chain k) = [g, b]"
    and "bc_chain (nd_chain m0) = [g, b]" and "bc_chain (nd_chain m1) = [g, b]"
    and "\<not> clash tally_crypto demo_json cl1" and "\<not> clash tally_crypto demo_json cl2"
    and "\<not> collide tally_crypto (chain_texts tally_crypto demo_json m0) (chain_texts tally_crypto demo_json m1)"
    and "\<And>n. n \<in> set (cl_nodes cl) \<union> set (cl_nodes cl2) \<Longrightarrow> answers_fit demo_json n"
  using assms unfolding sample_course_def by auto

lemma sample_members:
  assumes "crewed tally_crypto demo_json demo_leveldb sample_setup cl" and "k < 2"
  shows "member tally_crypto demo_json demo_leveldb sample_setup k (cl_nodes cl ! k)"
    and "consistent tally_crypto demo_json (cl_nodes cl ! k)" and "length (cl_nodes cl) = 2"
proof -
  show two: "length (cl_nodes cl) = 2" using crewedD(1) [OF assms(1)] by (simp add: sample_setup_def)
  then show m: "member tally_crypto demo_json demo_leveldb sample_setup k (cl_nodes cl ! k)"
    using crewedD(2) [OF assms(1)] assms(2) by simp
  show "consistent tally_crypto demo_json (cl_nodes cl ! k)"
    by (rule member_facts(2) [OF sample_environment _ m]) (use assms(2) in \<open>simp add: sample_setup_def\<close>)
qed

lemma sample_turn:
  fixes cl :: "((string \<times> string) list, jval) cluster"
  assumes crew: "crewed tally_crypto demo_json demo_leveldb sample_setup cl" and signed: "cl_signed cl = [g]"
    and chains: "bc_chain (nd_chain (cl_nodes cl ! 0)) = [g]" "bc_chain (nd_chain (cl_nodes cl ! 1)) = [g]"
    and made: "created tally_crypto demo_json 10000 (cl_nodes cl ! 0) = [b]"
    and cl': "cl' = produce_in_turn tally_crypto demo_json demo_leveldb sample_setup 10000 cl"
  shows "crewed tally_crypto demo_json demo_leveldb sample_setup cl'" and "cl_signed cl' = [g, b]" and "cl_paid cl' = cl_paid cl"
    and "bc_chain (nd_chain (cl_nodes cl' ! 0)) = [g, b]" and "bc_chain (nd_chain (cl_nodes cl' ! 1)) = [g]"
proof -
  note two = sample_members(3) [OF crew zero_less_numeral]
  have "owns tally_crypto sample_setup 0 h" for h by (simp add: owns_def producer_at_def sample_setup_def)
  then have eq: "cl' = (at_node 0 (produceBlock tally_crypto demo_json demo_leveldb 10000) cl)\<lparr>cl_signed := [g, b]\<rparr>"
    using made signed two by (simp add: cl' produce_in_turn_def upt_rec)
  show "cl_signed cl' = [g, b]" and "cl_paid cl' = cl_paid cl" and "bc_chain (nd_chain (cl_nodes cl' ! 1)) = [g]"
    using two chains by (simp_all add: eq)
  show "crewed tally_crypto demo_json demo_leveldb sample_setup cl'"
    unfolding cl' by (rule produce_in_turn_moves(1) [OF sample_environment crew])
  show "bc_chain (nd_chain (cl_nodes cl' ! 0)) = [g, b]"
    by (rule sample_produces [OF sample_members(1) [OF crew zero_less_numeral] chains(1)]) (use made two in \<open>simp add: eq\<close>)
qed

lemma sample_rounds:
  fixes n0 n1 :: "((string \<times> string) list, jval) node"
  assumes crew: "crewed tally_crypto demo_json demo_leveldb sample_setup \<lparr>cl_nodes = [n0, n1], cl_signed = [g], cl_paid = []\<rparr>"
    and chains: "bc_chain (nd_chain n0) = [g]" "bc_chain (nd_chain n1) = [g]"
    and made: "created tally_crypto demo_json 10000 n0 = [b]"
    and empty: "blk_transactions g = []" "blk_transactions b = []"
  obtains m0 m1 where "cluster_round tally_crypto demo_json demo_leveldb sample_setup 10000
      \<lparr>cl_nodes = [n0, n1], cl_signed = [g], cl_paid = []\<rparr> = \<lparr>cl_nodes = [m0, m1], cl_signed = [g, b], cl_paid = []\<rparr>"
    and "bc_chain (nd_chain m0) = [g, b]" and "bc_chain (nd_chain m1) = [g, b]"
    and "consistent tally_crypto demo_json m0" and "consistent tally_crypto demo_json m1"
proof -
  let ?cl = "\<lparr>cl_nodes = [n0, n1], cl_signed = [g], cl_paid = []\<rparr>"
  let ?a = "fill_all tally_crypto demo_json demo_leveldb ?cl"
  let ?b = "produce_in_turn tally_crypto demo_json demo_leveldb sample_setup 10000 ?a"
  let ?c = "fill_all tally_crypto demo_json demo_leveldb ?b"
  have fit: "answers_fit demo_json (cl_nodes cl ! 0)"
    if "crewed tally_crypto demo_json demo_leveldb sample_setup cl"
      and "bc_chain (nd_chain (cl_nodes cl ! 0)) = [g] \<or> bc_chain (nd_chain (cl_nodes cl ! 0)) = [g, b]"
    for cl :: "((string \<times> string) list, jval) cluster"
    using that(2) empty by (intro sample_answer [OF sample_members(2) [OF that(1) zero_less_numeral]]) auto
  note a = sample_fill [OF crew, of "[g]" "[]", OF _ _ _ fit [OF crew] refl]
  have a_chains: "bc_chain (nd_chain (cl_nodes ?a ! 0)) = [g]" "bc_chain (nd_chain (cl_nodes ?a ! 1)) = [g]"
    and a_moved: "onward tally_crypto demo_json demo_leveldb sample_setup ?cl ?a"
    and a_node: "\<exists>t. cl_nodes ?a ! 0 = n0\<lparr>nd_network := t\<rparr>"
    using a chains by simp_all
  note a_crew = onwardD(1) [OF a_moved]
  have "created tally_crypto demo_json 10000 (n0\<lparr>nd_network := t\<rparr>) = [b]" for t
    using made by (simp add: created_def cong: option.case_cong if_cong)
  then have "created tally_crypto demo_json 10000 (cl_nodes ?a ! 0) = [b]" using a_node by metis
  note b = sample_turn [OF a_crew _ a_chains this refl]
  have b_log: "cl_signed ?b = [g, b]" "cl_paid ?b = []"
    using b(2,3) onwardD(3,5) [OF a_moved] by simp_all
  have b_crew: "crewed tally_crypto demo_json demo_leveldb sample_setup ?b"
    and b_chains: "bc_chain (nd_chain (cl_nodes ?b ! 0)) = [g, b]" "bc_chain (nd_chain (cl_nodes ?b ! 1)) = [g]"
    using b(1,4,5) onwardD(3) [OF a_moved] by simp_all
  note c = sample_fill [OF b_crew, of "[g]" "[b]", OF _ _ _ fit [OF b_crew] refl]
  have c_chains: "bc_chain (nd_chain (cl_nodes ?c ! 0)) = [g, b]" "bc_chain (nd_chain (cl_nodes ?c ! 1)) = [g, b]"
    and c_moved: "onward tally_crypto demo_json demo_leveldb sample_setup ?b ?c"
    using c b_chains by simp_all
  note c_crew = onwardD(1) [OF c_moved]
  note members = sample_members [OF c_crew]
  obtain m0 m1 where m: "cl_nodes ?c = [m0, m1]"
    using members(3) [OF zero_less_numeral] by (auto simp: numeral_2_eq_2 length_Suc_conv)
  have "cluster_round tally_crypto demo_json demo_leveldb sample_setup 10000 ?cl = \<lparr>cl_nodes = [m0, m1], cl_signed = [g, b], cl_paid = []\<rparr>"
    using m onwardD(3,5) [OF c_moved] b_log by (simp add: cluster_round_def cluster.equality)
  then show ?thesis
    using c_chains members(2) [of 0] members(2) [of 1] m by (intro that [of m0 m1]) simp_all
qed

lemma sample_round:
  obtains n0 n1 k m0 m1 g b cl cl1 cl2 where "sample_course [n0, n1] k [m0, m1] g b cl cl1 cl2"
proof -
  obtain n0 n1 :: "((string \<times> string) list, jval) node" and g
    where s: "cluster_run tally_crypto demo_json demo_leveldb sample_setup \<lparr>cl_nodes = [n0, n1], cl_signed = [g], cl_paid = []\<rparr>"
      "member tally_crypto demo_json demo_leveldb sample_setup 0 n0" "member tally_crypto demo_json demo_leveldb sample_setup 1 n1"
      "bc_chain (nd_chain n0) = [g]" "bc_chain (nd_chain n1) = [g]" "nd_mempool n0 = newMempool"
      "wf_block g" "blk_index g = 0" "blk_timestamp g = 0" "blk_transactions g = []"
    by (rule sample_clusters)
  obtain b where b: "created tally_crypto demo_json 10000 n0 = [b]" "wf_block b" "blk_index b = 1" "blk_timestamp b = 10000"
      "accepts tally_crypto demo_json (nd_chain n0) b" "blk_transactions b = getTransactionsForBlock (nd_mempool n0) 100"
      "bc_chain (nd_chain (snd (produceBlock tally_crypto demo_json demo_leveldb 10000 n0))) = [g, b]"
    by (rule sample_produces [OF s(2,4)])
  have txs: "blk_transactions b = []"
    using b(6) s(6) by (simp add: newMempool_def pooled_def getTransactionsForBlock_take)
  let ?cl = "\<lparr>cl_nodes = [n0, n1], cl_signed = [g], cl_paid = []\<rparr>"
  let ?k = "snd (produceBlock tally_crypto demo_json demo_leveldb 10000 n0)"
  let ?cl1 = "\<lparr>cl_nodes = [?k, n1], cl_signed = [g, b], cl_paid = []\<rparr>"
  have step1: "cluster_step tally_crypto demo_json demo_leveldb sample_setup ?cl ?cl1"
    using cluster_produce [of 0 ?cl tally_crypto demo_json demo_leveldb sample_setup 10000] b(1)
    by (simp add: at_node_def)
  note crew = cluster_inv_def [THEN iffD1, OF cluster_run_inv [OF s(1) sample_environment], THEN conjunct1]
  obtain m0 m1 where cl2: "cluster_round tally_crypto demo_json demo_leveldb sample_setup 10000 ?cl =
        \<lparr>cl_nodes = [m0, m1], cl_signed = [g, b], cl_paid = []\<rparr>"
      "bc_chain (nd_chain m0) = [g, b]" "bc_chain (nd_chain m1) = [g, b]"
      "consistent tally_crypto demo_json m0" "consistent tally_crypto demo_json m1"
    by (rule sample_rounds [OF crew s(4,5) b(1) s(10) txs])
  let ?cl2 = "\<lparr>cl_nodes = [m0, m1], cl_signed = [g, b], cl_paid = []\<rparr>"
  note safe = sample_no_collision [OF s(7) b(2) s(8,9) b(3,4)]
  have strayed: "\<not> stray tally_crypto demo_json [g, b] [] n" if "set (bc_chain (nd_chain n)) \<subseteq> {g, b}"
    for n :: "((string \<times> string) list, jval) node"
    unfolding stray_def
  proof (intro notI, elim bexE)
    fix x t assume "x \<in> set (bc_chain (nd_chain n))" and "collision tally_crypto (header_bytes tally_crypto demo_json x) t"
      and "t \<in> header_bytes tally_crypto demo_json ` set [g, b] \<union> paid_text demo_json ` set []"
    moreover from this have "\<not> collision tally_crypto (header_bytes tally_crypto demo_json x) t"
      using that by (intro safe) auto
    ultimately show False by blast
  qed
  have roots: "root_bytes g = []" "root_bytes b = []" using s(10) txs by (simp_all add: root_bytes_def)
  have texts: "chain_texts tally_crypto demo_json n = insert [] (header_bytes tally_crypto demo_json ` {g, b})"
    if "bc_chain (nd_chain n) = [g, b]" for n :: "((string \<times> string) list, jval) node"
    using that s(10) txs roots by (auto simp: chain_texts_def block_texts_def)
  have clashes: "\<not> clash tally_crypto demo_json ?cl1" "\<not> clash tally_crypto demo_json ?cl2"
    using strayed [of ?k] strayed [of n1] strayed [of m0] strayed [of m1] b(7) cl2(2,3) s(5) by (simp_all add: clash_def)
  have collides: "\<not> collide tally_crypto (chain_texts tally_crypto demo_json m0) (chain_texts tally_crypto demo_json m1)"
    unfolding collide_def texts [OF cl2(2)] texts [OF cl2(3)] using safe by blast
  have "answers_fit demo_json n" if "n \<in> set [n0, n1] \<union> set [m0, m1]" for n
  proof (rule sample_answer)
    show "consistent tally_crypto demo_json n"
      using that sample_members(2) [OF crew, of 0] sample_members(2) [OF crew, of 1] cl2(4,5) by auto
  qed (use that s(4,5,10) cl2(2,3) txs in auto)
  then have "sample_course [n0, n1] ?k [m0, m1] g b ?cl ?cl1 ?cl2"
    unfolding sample_course_def using s(1,4,5) step1 cl2(1-3) b(7) clashes collides by simp
  then show ?thesis by (rule that)
qed

end
