(* ===== verification/Cluster_Properties.thy ===== *)
theory Cluster_Properties
  imports Cluster_Samples
begin

text \<open>
  The properties of clusters: one log, finality, agreement on the accounts, and progress. Each
  is stated up to a collision of the digest among texts of the run itself.
\<close>

text \<open>C1. The nodes of a cluster implement one append-only journal: in every run, under any
  delay, loss, repetition, reordering and forging of messages and any restarts, but for blocks
  forged in an authority's name, each step either leaves the journal of signed blocks alone or
  appends to it one block, signed by the authority scheduled for that height, whose node had
  read it all; and the hashes of every node's chain are a prefix of the journal. Otherwise the
  headers of two blocks of the run, or a header and a signed transaction, have the same digest.\<close>

theorem cluster_refines_journal:
  assumes "cluster_run C J L S cl" and "environment C J L S" and "cluster_step C J L S cl cl'"
    and "length (cl_signed cl') < 2 ^ 64"
  shows "clash C J cl' \<or>
     journal_step (owns C S) (journal_of cl) (journal_of cl') \<and>
     (\<forall>n\<in>set (cl_nodes cl'). map blk_hash (bc_chain (nd_chain n)) =
        take (length (bc_chain (nd_chain n))) (jn_log (journal_of cl')))"
proof (cases "clash C J cl'")
  case False
  have inv: "cluster_inv C J L S cl'" by (rule cluster_run_inv [OF cluster_more [OF assms(1,3)] assms(2)])
  have "journal_step (owns C S) (journal_of cl) (journal_of cl')"
    by (rule cluster_journal_step [OF assms(2) cluster_run_inv [OF assms(1,2)] assms(3,4) False])
  then show ?thesis
    using follows_take [OF cluster_invD(7) [OF inv assms(4) False]] by (simp add: journal_of_def)
qed simp

theorem cluster_refines_journal_witness:
  "\<exists>(cl :: ((string \<times> string) list, jval) cluster) (cl' :: ((string \<times> string) list, jval) cluster).
     journal_step (owns tally_crypto sample_setup) (journal_of cl) (journal_of cl') \<and>
     length (jn_log (journal_of cl)) = 1 \<and> length (jn_log (journal_of cl')) = 2"
proof -
  obtain n0 n1 k m0 m1 g b cl cl1 cl2 where course: "sample_course [n0, n1] k [m0, m1] g b cl cl1 cl2" by (rule sample_round)
  note s = sample_courseD [OF course]
  from cluster_refines_journal [OF s(4) sample_environment s(5)] s(12)
  have "journal_step (owns tally_crypto sample_setup) (journal_of cl) (journal_of cl1)" by (simp add: s(2))
  then show ?thesis by (intro exI [of _ cl] exI [of _ cl1]) (simp add: journal_of_def s(1,2))
qed

text \<open>C2. Finality without forks: a block that any node of the cluster has held at some height is
  the block, by its hash, that every node holds at that height then and at any later moment,
  through restarts; and no node ever drops or replaces a block of its own chain.\<close>

theorem blocks_final:
  assumes "cluster_run C J L S cl" and "environment C J L S" and "(cluster_step C J L S)\<^sup>*\<^sup>* cl cl'"
    and "length (cl_signed cl') < 2 ^ 64"
  shows "clash C J cl' \<or>
     (\<forall>m\<in>set (cl_nodes cl). \<forall>n\<in>set (cl_nodes cl'). \<forall>h.
        h < length (bc_chain (nd_chain m)) \<longrightarrow> h < length (bc_chain (nd_chain n)) \<longrightarrow>
        blk_hash (bc_chain (nd_chain m) ! h) = blk_hash (bc_chain (nd_chain n) ! h)) \<and>
     (\<forall>i<length (cl_nodes cl). prefix (bc_chain (nd_chain (cl_nodes cl ! i))) (bc_chain (nd_chain (cl_nodes cl' ! i))))"
proof (cases "clash C J cl'")
  case False
  have inv: "cluster_inv C J L S cl" "cluster_inv C J L S cl'"
    using cluster_run_inv [OF _ assms(2)] assms(1) cluster_run_steps [OF assms(3,1)] by blast+
  then have "crewed C J L S cl" by (simp add: cluster_inv_def)
  note moved = crew_steps [OF assms(2) this assms(3)]
  have sig: "prefix (cl_signed cl) (cl_signed cl')" and safe: "\<not> clash C J cl" using moved False by auto
  have room: "length (cl_signed cl) < 2 ^ 64" using prefix_length_le [OF sig] assms(4) by simp
  have "blk_hash (bc_chain (nd_chain m) ! h) = blk_hash (bc_chain (nd_chain n) ! h)"
    if "m \<in> set (cl_nodes cl)" "n \<in> set (cl_nodes cl')" "h < length (bc_chain (nd_chain m))" "h < length (bc_chain (nd_chain n))"
    for m n h
    using follows_nth [OF cluster_invD(7) [OF inv(1) room safe that(1)] that(3)]
      follows_nth [OF cluster_invD(7) [OF inv(2) assms(4) False that(2)] that(4)] sig
    by (auto simp: prefix_def nth_append)
  then show ?thesis using moved by blast
qed simp

theorem blocks_final_witness:
  "\<exists>(cl :: ((string \<times> string) list, jval) cluster) (cl' :: ((string \<times> string) list, jval) cluster) m n.
     m \<in> set (cl_nodes cl) \<and> n \<in> set (cl_nodes cl') \<and> length (bc_chain (nd_chain m)) = 1 \<and> length (bc_chain (nd_chain n)) = 2 \<and>
     blk_hash (bc_chain (nd_chain m) ! 0) = blk_hash (bc_chain (nd_chain n) ! 0)"
proof -
  obtain n0 n1 k m0 m1 g b cl cl1 cl2 where course: "sample_course [n0, n1] k [m0, m1] g b cl cl1 cl2" by (rule sample_round)
  note s = sample_courseD [OF course]
  from blocks_final [OF s(4) sample_environment r_into_rtranclp [of "cluster_step _ _ _ _", OF s(5)]] s(12)
  have "blk_hash (bc_chain (nd_chain n1) ! 0) = blk_hash (bc_chain (nd_chain k) ! 0)" by (simp add: s(1,2,8,9))
  then show ?thesis by (intro exI [of _ cl] exI [of _ cl1] exI [of _ n1] exI [of _ k]) (simp add: s(1,2,8,9))
qed

text \<open>C3. Agreement: nodes of a cluster with chains of the same height have the same blocks, by
  their hashes, and report the same balance and nonce for every address, or two of the texts
  hashed for these two chains collide.\<close>

theorem nodes_agree:
  assumes "cluster_run C J L S cl" and "environment C J L S" and "length (cl_signed cl) < 2 ^ 64"
    and "m \<in> set (cl_nodes cl)" and "n \<in> set (cl_nodes cl)" and "node_getChainHeight m = node_getChainHeight n"
  shows "clash C J cl \<or> collide C (chain_texts C J m) (chain_texts C J n) \<or>
     map blk_hash (bc_chain (nd_chain m)) = map blk_hash (bc_chain (nd_chain n)) \<and>
     (\<forall>a. node_getBalance m a = node_getBalance n a \<and> node_getNonce m a = node_getNonce n a)"
proof (cases "clash C J cl \<or> collide C (chain_texts C J m) (chain_texts C J n)")
  case False
  then have safe: "\<not> clash C J cl" "\<not> collide C (chain_texts C J m) (chain_texts C J n)" by simp_all
  note inv = cluster_invD [OF cluster_run_inv [OF assms(1,2)] assms(3) safe(1)]
  have node: "consistent C J k \<and> nd_genesisAllocations k = cs_allocs S \<and> length (bc_chain (nd_chain k)) < 2 ^ 64"
    if k: "k \<in> set (cl_nodes cl)" for k
  proof -
    obtain i where "i < length (cl_nodes cl)" "k = cl_nodes cl ! i" using k by (metis in_set_conv_nth)
    then show ?thesis
      using member_facts(2,5) [OF assms(2) _ inv(4)] inv(3) follows_length [OF inv(7) [OF k]] assms(3)
      by (simp add: configured_def)
  qed
  have "length (bc_chain (nd_chain m)) = length (bc_chain (nd_chain n))"
    using assms(6) node [OF assms(4)] node [OF assms(5)] word_position
    by (simp add: node_getChainHeight_def getHeight_def)
  then have hashes: "map blk_hash (bc_chain (nd_chain m)) = map blk_hash (bc_chain (nd_chain n))"
    using follows_take [OF inv(7) [OF assms(4)]] follows_take [OF inv(7) [OF assms(5)]] by simp
  have "json_ok J" using assms(2) by (simp add: environment_def)
  then have "st_accounts (nd_state m) = st_accounts (nd_state n)"
    using node [OF assms(4)] node [OF assms(5)] by (intro same_hashes_same_accounts [OF _ _ _ _ hashes safe(2)]) simp_all
  then show ?thesis
    using hashes by (simp add: node_getBalance_def node_getNonce_def accountExists_def getBalance_def getNonce_def)
qed blast

theorem nodes_agree_witness:
  "\<exists>(cl :: ((string \<times> string) list, jval) cluster) m n. cl_nodes cl = [m, n] \<and>
     length (bc_chain (nd_chain m)) = 2 \<and> length (bc_chain (nd_chain n)) = 2 \<and>
     (\<forall>a. node_getBalance m a = node_getBalance n a)"
proof -
  obtain n0 n1 k m0 m1 g b cl cl1 cl2 where course: "sample_course [n0, n1] k [m0, m1] g b cl cl1 cl2" by (rule sample_round)
  note s = sample_courseD [OF course]
  have "Suc (length (cl_signed cl)) < 2 ^ 64" by (simp add: s(1))
  then have "cluster_run tally_crypto demo_json demo_leveldb sample_setup cl2"
    using round_extends(1) [OF sample_environment s(4) _ sample_staffed s(6) [symmetric] s(13) sample_request s(15)]
      cluster_run_steps s(4) by blast
  from nodes_agree [OF this sample_environment, of m0 m1] s(13,14)
  have "\<forall>a. node_getBalance m0 a = node_getBalance m1 a"
    by (simp add: s(3,10,11) node_getChainHeight_def getHeight_def)
  then show ?thesis by (intro exI [of _ cl2] exI [of _ m0] exI [of _ m1]) (simp add: s(3,10,11))
qed

text \<open>C4. Progress: when every authority runs a node of the cluster, one round of honest
  behaviour from a state the cluster can get to, whatever happened before, extends the journal by
  one block and brings every node up to it. In a round every node connects to the node with the
  longest chain, the handlers at both ends of the connection run, the request for blocks they
  post and the answer its handler posts are serialised, framed, read by the session at the other
  end and handled there; then the authority in turn produces a block, and every node connects
  and asks again. This holds as long as the requests, and the blocks of the round's chains from
  any height on, fit one frame, which the code neither ensures nor works around; and unless two
  texts of the run collide.\<close>

theorem cluster_progress:
  assumes "cluster_run C J L S cl" and "environment C J L S" and "Suc (length (cl_signed cl)) < 2 ^ 64"
    and "all_staffed C S" and "cl' = cluster_round C J L S now cl"
    and "\<And>h. sendable J (getBlocksMessage J h)"
    and "\<And>n. n \<in> set (cl_nodes cl) \<union> set (cl_nodes cl') \<Longrightarrow> answers_fit J n"
  shows "clash C J cl' \<or>
     (cluster_step C J L S)\<^sup>*\<^sup>* cl cl' \<and> length (cl_signed cl') = Suc (length (cl_signed cl)) \<and>
     (\<forall>n\<in>set (cl_nodes cl'). map blk_hash (bc_chain (nd_chain n)) = map blk_hash (cl_signed cl'))"
  using round_extends [OF assms(2,1,3,4,5) _ assms(6,7)] by blast

theorem cluster_progress_witness:
  "\<exists>(cl :: ((string \<times> string) list, jval) cluster) (cl' :: ((string \<times> string) list, jval) cluster) m n.
     cluster_round tally_crypto demo_json demo_leveldb sample_setup 10000 cl = cl' \<and>
     length (cl_signed cl) = 1 \<and> length (cl_signed cl') = 2 \<and> cl_nodes cl' = [m, n] \<and>
     length (bc_chain (nd_chain m)) = 2 \<and> length (bc_chain (nd_chain n)) = 2"
proof -
  obtain n0 n1 k m0 m1 g b cl cl1 cl2 where course: "sample_course [n0, n1] k [m0, m1] g b cl cl1 cl2" by (rule sample_round)
  note s = sample_courseD [OF course]
  have "Suc (length (cl_signed cl)) < 2 ^ 64" by (simp add: s(1))
  from cluster_progress [OF s(4) sample_environment this sample_staffed s(6) [symmetric] sample_request s(15)] s(13)
  have "length (cl_signed cl2) = 2" "map blk_hash (bc_chain (nd_chain m0)) = map blk_hash (cl_signed cl2)"
      "map blk_hash (bc_chain (nd_chain m1)) = map blk_hash (cl_signed cl2)"
    by (simp_all add: s(1,3))
  then have "length (bc_chain (nd_chain m0)) = 2" "length (bc_chain (nd_chain m1)) = 2" by (metis length_map)+
  with s(6) show ?thesis
    by (intro exI [of _ cl] exI [of _ cl2] exI [of _ m0] exI [of _ m1]) (simp add: s(1,3))
qed

end
