(* ===== verification/Rpc_Server.thy ===== *)
theory Rpc_Server
  imports Rpc
begin

text \<open>
  The life cycle of \<open>rpc/rpc_server.cpp\<close>: construction, \<open>start\<close>, which leaves the listening to a
  thread of its own, and \<open>stop\<close>. cpp-httplib is not part of the sources; what is used of it is
  that \<open>listen\<close> returns when it cannot bind the port or when the server is stopped while it
  listens, and that \<open>is_running\<close> holds while it listens. These are the moves of the thread, an
  abstraction of the library: binding the port and becoming \<open>is_running\<close> are one move, and a
  \<open>listen\<close> that ends by itself, because accepting connections fails, is not among them. The lemmas
  say when \<open>stop\<close> comes back.
\<close>

text \<open>The thread: none (or joined), started, inside the loop of \<open>listen\<close>, or at its end.\<close>

datatype listener = NoThread | Spawned | Listening | Returned

record rpc_server =
  rs_port :: u16
  rs_route :: bool
  rs_listener :: listener
  rs_stopped :: bool

definition newRpcServer :: "u16 \<Rightarrow> rpc_server" where
  "newRpcServer port = \<lparr>rs_port = port, rs_route = False, rs_listener = NoThread, rs_stopped = False\<rparr>"

text \<open>Assigning to a thread that was not joined ends the program, here \<open>None\<close>.\<close>

definition rpc_start :: "rpc_server \<Rightarrow> rpc_server option" where
  "rpc_start s =
     (if rs_listener s \<noteq> NoThread then None
      else Some (s\<lparr>rs_route := True, rs_listener := Spawned, rs_stopped := False\<rparr>))"

definition is_running :: "rpc_server \<Rightarrow> bool" where
  "is_running s \<longleftrightarrow> rs_listener s = Listening"

text \<open>\<open>stop\<close> up to the join, and the join, which waits unless the thread has ended.\<close>

definition rpc_close :: "rpc_server \<Rightarrow> rpc_server" where
  "rpc_close s = (if is_running s then s\<lparr>rs_stopped := True\<rparr> else s)"

definition rpc_join :: "rpc_server \<Rightarrow> rpc_server option" where
  "rpc_join s =
     (case rs_listener s of
        NoThread \<Rightarrow> Some s
      | Returned \<Rightarrow> Some (s\<lparr>rs_listener := NoThread\<rparr>)
      | _ \<Rightarrow> None)"

definition rpc_getPort :: "rpc_server \<Rightarrow> u16" where
  "rpc_getPort s = rs_port s"

text \<open>The moves of the thread.\<close>

inductive listens :: "rpc_server \<Rightarrow> rpc_server \<Rightarrow> bool" where
  listen_binds: "rs_listener s = Spawned \<Longrightarrow> listens s (s\<lparr>rs_listener := Listening\<rparr>)"
| listen_fails: "rs_listener s = Spawned \<Longrightarrow> listens s (s\<lparr>rs_listener := Returned\<rparr>)"
| listen_ends: "rs_listener s = Listening \<Longrightarrow> rs_stopped s \<Longrightarrow> listens s (s\<lparr>rs_listener := Returned\<rparr>)"

inductive_simps listens_simps: "listens s s'"

text \<open>Servers of the program: constructed, started when not running, their thread moving, closed and joined.\<close>

inductive server_run :: "rpc_server \<Rightarrow> bool" where
  server_new: "server_run (newRpcServer port)"
| server_start: "server_run s \<Longrightarrow> rpc_start s = Some s' \<Longrightarrow> server_run s'"
| server_listens: "server_run s \<Longrightarrow> listens s s' \<Longrightarrow> server_run s'"
| server_close: "server_run s \<Longrightarrow> server_run (rpc_close s)"
| server_join: "server_run s \<Longrightarrow> rpc_join s = Some s' \<Longrightarrow> server_run s'"

text \<open>A started thread has not been told to stop; requests are only served with the route in place.\<close>

lemma server_run_inv:
  "server_run s \<Longrightarrow> (rs_listener s = Spawned \<longrightarrow> \<not> rs_stopped s) \<and> (rs_listener s \<noteq> NoThread \<longrightarrow> rs_route s)"
  by (induction rule: server_run.induct)
    (auto simp: newRpcServer_def rpc_start_def rpc_close_def rpc_join_def is_running_def listens_simps
      split: if_splits listener.splits)

text \<open>\<open>stop\<close> waits for good in states from which no move leads to a join.\<close>

definition joins :: "rpc_server \<Rightarrow> rpc_server \<Rightarrow> bool" where
  "joins s s' \<longleftrightarrow> (\<exists>t. listens\<^sup>*\<^sup>* s t \<and> rpc_join t = Some s')"

lemma joined_rest: "rpc_join s = Some s' \<Longrightarrow> \<not> listens s t"
  by (auto simp: rpc_join_def listens_simps split: listener.splits)

lemma listening_stays:
  assumes "listens\<^sup>*\<^sup>* s t" and "rs_listener s = Listening" and "\<not> rs_stopped s"
  shows "t = s"
  using assms by (induction rule: rtranclp_induct) (auto simp: listens_simps)

lemma listening_stopped:
  assumes "listens\<^sup>*\<^sup>* s t" and "rs_listener s = Listening" and "rs_stopped s"
  shows "t = s \<or> t = s\<lparr>rs_listener := Returned\<rparr>"
  using assms by (induction rule: rtranclp_induct) (auto simp: listens_simps)

lemma resting_stays:
  assumes "listens\<^sup>*\<^sup>* s t" and "rs_listener s = NoThread \<or> rs_listener s = Returned"
  shows "t = s"
  using assms by (induction rule: rtranclp_induct) (auto simp: listens_simps)

end
