(* ===== verification/Entry_Point.thy ===== *)
theory Entry_Point
  imports Cli Rpc_Server
begin

text \<open>
  The program of \<open>main.cpp\<close> as a whole: the version constants, the banner and the help text, \<open>main\<close>
  from the arguments to an exit code or a running node, and the way \<open>runNode\<close> ends. The state of
  \<open>main\<close> is the disk and standard output, to which the lines logged by \<open>main\<close> and \<open>parseArgs\<close> go
  as well as what is written to \<open>std::cout\<close>; the lines the modes themselves log are left out.
\<close>

section \<open>Version constants\<close>

definition VERSION_MAJOR :: int where "VERSION_MAJOR = 1"
definition VERSION_MINOR :: int where "VERSION_MINOR = 0"
definition VERSION_PATCH :: int where "VERSION_PATCH = 0"
definition VERSION_STRING :: string where "VERSION_STRING = ''1.0.0''"
definition PROJECT_NAME :: string where "PROJECT_NAME = ''TitanCore''"
definition CURRENCY_NAME :: string where "CURRENCY_NAME = ''ODM''"
definition CURRENCY_SYMBOL :: string where "CURRENCY_SYMBOL = ''ODM''"

section \<open>Texts\<close>

definition text_lines :: "string list \<Rightarrow> string" where
  "text_lines ls = concat (map (\<lambda>l. l @ ''\<newline>'') ls)"

definition printUsage :: string where
  "printUsage = text_lines
     [''TitanCore Node v'' @ VERSION_STRING,
      [],
      ''Usage:'',
      ''  titancore_node --generate-keys [options] Generate keys & genesis config'',
      ''  titancore_node --index N [options]       Run a single node'',
      ''  titancore_node --sign-tx [options]       Sign a transaction (offline)'',
      ''  titancore_node --help                    Show this help'',
      [],
      ''Bootstrap options:'',
      ''  --count N          Number of authority key pairs (default: 3)'',
      ''  --genesis-dir DIR  Output directory (default: genesis/)'',
      [],
      ''Node options:'',
      ''  --index N          This node'' @ [CHR 0x27] @ ''s authority index (0, 1, 2, ...)'',
      ''  --port P           Listen port (default: 9000)'',
      ''  --peers H:P,...    Comma-separated peer addresses'',
      ''  --data-dir DIR     LevelDB data directory'',
      ''  --rpc-port P       JSON-RPC HTTP port (default: 8545)'',
      ''  --genesis-dir DIR  Genesis config directory (default: genesis/)'',
      [],
      ''Sign-tx options:'',
      ''  --key FILE         Sender'' @ [CHR 0x27] @ ''s private key file'',
      ''  --to ADDRESS       Recipient address (hex)'',
      ''  --amount N         Amount of ODM to send'',
      ''  --nonce N          Sender'' @ [CHR 0x27] @ ''s current nonce'',
      [],
      ''Examples:'',
      ''  # Generate keys for a 3-node network'',
      ''  titancore_node --generate-keys --count 3'',
      [],
      ''  # Run node 0'',
      ''  titancore_node --index 0 --port 9001 --peers 192.168.1.5:9002'',
      [],
      ''  # Sign a transaction offline'',
      ''  titancore_node --sign-tx --key genesis/auth0.key '' @ [CHR 0x5C],
      ''    --to a1b2c3... --amount 500 --nonce 0'',
      []]"

definition banner :: "string list" where
  "banner =
     [replicate 45 CHR ''='',
      ''  '' @ PROJECT_NAME @ '' v'' @ VERSION_STRING,
      ''  Native Currency: '' @ CURRENCY_NAME @ '' ('' @ CURRENCY_SYMBOL @ '')'',
      replicate 45 CHR ''='']"

section \<open>From the arguments to a mode\<close>

text \<open>
  What appears on standard output, in order: the lines of spdlog's default logger, without the time
  and level it puts before them, and the texts written to \<open>std::cout\<close>.
\<close>

datatype shown = Logged string | Printed string

record 'f console =
  con_files :: 'f
  con_out :: "shown list"

definition isSigning :: "string list \<Rightarrow> bool" where
  "isSigning argv = list_ex (\<lambda>arg. arg = ''--sign-tx'') argv"

text \<open>\<open>None\<close> is a key generation that never ends; an exception nobody catches ends the program.\<close>

definition run_mode ::
  "crypto_api \<Rightarrow> 'j json_api \<Rightarrow> 'd leveldb_api \<Rightarrow> 'f files_api \<Rightarrow> ports_api \<Rightarrow> (nat \<Rightarrow> nat) \<Rightarrow> private_key \<Rightarrow> u64 \<Rightarrow>
     (string \<Rightarrow> 'd) \<Rightarrow> cli_args \<Rightarrow> 'f console \<Rightarrow> (('d, 'j) outcome result \<times> 'f console) option" where
  "run_mode C J L F P at unset now databases args w =
     (case main_mode args of
        ShowHelp code \<Rightarrow> Some (Inr (Exit code), w\<lparr>con_out := con_out w @ [Printed printUsage]\<rparr>)
      | GenerateKeys \<Rightarrow>
          (case runGenerateKeys C J F at unset args (con_files w) of
             None \<Rightarrow> None
           | Some (Inl e, f) \<Rightarrow> Some (Inl e, w\<lparr>con_files := f\<rparr>)
           | Some (Inr code, f) \<Rightarrow> Some (Inr (Exit code), w\<lparr>con_files := f\<rparr>))
      | SignTx \<Rightarrow>
          (case runSignTx C J F now args (con_files w) of
             Inl e \<Rightarrow> Some (Inl e, w)
           | Inr (code, text) \<Rightarrow> Some (Inr (Exit code), w\<lparr>con_out := con_out w @ [Printed text]\<rparr>))
      | RunNode \<Rightarrow>
          (case runNode C J L F P databases args (con_files w) of (r, f) \<Rightarrow> Some (r, w\<lparr>con_files := f\<rparr>)))"

definition main ::
  "crypto_api \<Rightarrow> 'j json_api \<Rightarrow> 'd leveldb_api \<Rightarrow> 'f files_api \<Rightarrow> ports_api \<Rightarrow> (nat \<Rightarrow> nat) \<Rightarrow> private_key \<Rightarrow> u64 \<Rightarrow>
     (string \<Rightarrow> 'd) \<Rightarrow> string list \<Rightarrow> 'f console \<Rightarrow> (('d, 'j) outcome result \<times> 'f console) option" where
  "main C J L F P at unset now databases argv w =
     (let out = con_out w @ (if isSigning argv then [] else map Logged banner)
      in case parseArgs argv [] of
           (Inl e, warnings) \<Rightarrow> Some (Inl e, w\<lparr>con_out := out @ map Logged warnings\<rparr>)
         | (Inr args, warnings) \<Rightarrow>
             run_mode C J L F P at unset now databases args (w\<lparr>con_out := out @ map Logged warnings\<rparr>))"

section \<open>How a running node ends\<close>

text \<open>
  The RPC server is started beside the node. After the main loop \<open>stop\<close> closes it and waits for its
  thread, here \<open>None\<close> as long as the thread runs; then the node is destroyed, which stops it, and
  the server's destructor calls \<open>stop\<close> once more.
\<close>

definition serve :: "cli_args \<Rightarrow> rpc_server option" where
  "serve args = rpc_start (newRpcServer (arg_rpcPort args))"

definition shut_down :: "rpc_server \<Rightarrow> ('d, 'j) node \<Rightarrow> (rpc_server \<times> ('d, 'j) node) option" where
  "shut_down s n =
     (case rpc_join s of
        None \<Rightarrow> None
      | Some s' \<Rightarrow> map_option (\<lambda>s''. (s'', snd (node_stop n))) (rpc_join (rpc_close s')))"

end
