(* ===== verification/Entry_Properties.thy ===== *)
theory Entry_Properties
  imports Entry_Point Cli_Properties Rpc_Properties
begin

text \<open>
  The program from its command line: rendered arguments parse back, a transaction signed offline is
  taken by a running node's RPC interface, a restarted program resumes its chain, and the RPC server
  stops.
\<close>

section \<open>Arguments as text\<close>

text \<open>\<open>std::to_string\<close> on \<open>int\<close>, and the texts of the peers and of all arguments.\<close>

definition to_string_int :: "int \<Rightarrow> string" where
  "to_string_int i = (if i < 0 then CHR ''-'' # to_string_nat (nat (- i)) else to_string_nat (nat i))"

definition peer_text :: "string \<times> u16 \<Rightarrow> string" where
  "peer_text p = fst p @ '':'' @ to_string_nat (unat (snd p))"

fun peers_text :: "(string \<times> u16) list \<Rightarrow> string" where
  "peers_text [] = []"
| "peers_text [p] = peer_text p"
| "peers_text (p # q # ps) = peer_text p @ CHR '','' # peers_text (q # ps)"

definition argv_of :: "cli_args \<Rightarrow> string list" where
  "argv_of a =
     (if arg_showHelp a then [''--help''] else []) @ (if arg_generateKeys a then [''--generate-keys''] else []) @
     (if arg_signTx a then [''--sign-tx''] else []) @
     [''--count'', to_string_int (arg_count a), ''--genesis-dir'', arg_genesisDir a,
      ''--index'', to_string_int (arg_index a), ''--port'', to_string_nat (unat (arg_port a)),
      ''--data-dir'', arg_dataDir a, ''--rpc-port'', to_string_nat (unat (arg_rpcPort a)),
      ''--key'', arg_keyFile a, ''--to'', arg_toAddress a, ''--amount'', to_string (arg_amount a),
      ''--nonce'', to_string (arg_nonce a), ''--peers'', peers_text (arg_peers a)]"

lemma strto_minus: "strto 10 (CHR ''-'' # to_string_nat n) = Some (True, n)"
proof -
  have all: "takeWhile (is_digit 10) (to_string_nat n) = to_string_nat n"
    using to_string_nat_all_digits [of n] unfolding list_all_iff by (rule takeWhile_eq_all_conv [THEN iffD2])
  show ?thesis by (simp add: strto_def is_space_def Let_def all)
qed

lemma stoi_to_string_int: "- (2 ^ 31) \<le> i \<Longrightarrow> i < 2 ^ 31 \<Longrightarrow> stoi (to_string_int i) = Inr i"
  by (cases "i < 0") (simp_all add: stoi_def to_string_int_def strto_minus Let_def)

lemma parse_port_text: "parse_port (to_string_nat (unat p)) = Inr p"
proof -
  have p: "unat p < 2 ^ 16" using unsigned_less [of p, where ?'a = nat] by simp
  then have "stoi (to_string_nat (unat p)) = Inr (int (unat p))"
    unfolding stoi_def by (simp del: of_nat_unat)
  then show ?thesis by (simp add: parse_port_def)
qed

lemma no_digit: "CHR '':'' \<notin> set (to_string_nat n)" "CHR '','' \<notin> set (to_string_nat n)"
  using to_string_nat_all_digits [of n] by (auto simp: list_all_iff is_digit_def digit_value_def code_of_def)

lemma split_at:
  assumes "c \<notin> set t"
  shows "takeWhile (\<lambda>x. x \<noteq> c) (t @ c # s) = t" and "dropWhile (\<lambda>x. x \<noteq> c) (t @ c # s) = c # s"
    and "takeWhile (\<lambda>x. x \<noteq> c) t = t" and "dropWhile (\<lambda>x. x \<noteq> c) t = []"
  using assms by (induction t) auto

lemma parse_peer_text: "parse_peer (peer_text p) = Inr (Some p)"
proof -
  have "CHR '':'' \<notin> set (rev (to_string_nat (unat (snd p))))" by (simp add: no_digit)
  from split_at(1,2) [OF this] show ?thesis
    by (simp add: parse_peer_def peer_text_def parse_port_text)
qed

lemma tokens_Nil [simp]: "tokens [] = []"
  by (subst tokens.simps) simp

lemma tokens_comma: "CHR '','' \<notin> set t \<Longrightarrow> tokens (t @ CHR '','' # s) = t # tokens s"
  by (subst tokens.simps) (simp add: split_at)

lemma tokens_last: "CHR '','' \<notin> set t \<Longrightarrow> t \<noteq> [] \<Longrightarrow> tokens t = [t]"
  by (subst tokens.simps) (simp add: split_at)

lemma peer_text_comma: "CHR '','' \<notin> set (fst p) \<Longrightarrow> CHR '','' \<notin> set (peer_text p)"
  by (simp add: peer_text_def no_digit)

lemma tokens_peers: "\<forall>p\<in>set ps. CHR '','' \<notin> set (fst p) \<Longrightarrow> tokens (peers_text ps) = map peer_text ps"
proof (induction ps rule: peers_text.induct)
  case (2 p)
  then show ?case using peer_text_comma [of p] by (simp add: tokens_last peer_text_def)
next
  case (3 p q ps)
  then show ?case using peer_text_comma [of p] by (simp add: tokens_comma)
qed simp

lemma parse_peers_text:
  assumes "\<forall>p\<in>set ps. CHR '','' \<notin> set (fst p)"
  shows "parse_peers (peers_text ps) = Inr ps"
proof -
  have "map_e parse_peer (map peer_text ps) = Inr (map Some ps)"
    by (induction ps) (simp_all add: parse_peer_text)
  then show ?thesis by (simp add: parse_peers_def tokens_peers [OF assms] o_def)
qed

text \<open>One option of the loop.\<close>

lemma parse_value:
  assumes "value_option arg = Some f" and "f v a = Inr a'"
  shows "parse_loop a (arg # v # rest) log = parse_loop a' rest log"
proof -
  have "\<not> (arg = ''--help'' \<or> arg = ''-h'')" "arg \<noteq> ''--generate-keys''" "arg \<noteq> ''--sign-tx''"
    using assms(1) by (auto simp: value_option_def)
  then show ?thesis using assms by (simp add: proc_simps bind_p_cases)
qed

lemmas value_options = value_option_def stoull_to_string parse_port_text

text \<open>C28. The command line loses nothing: written out as text and parsed again, the arguments are the
  ones given, whatever the strings among them look like (an option's value may itself look like an
  option), and nothing is logged; the integers must fit \<open>int\<close> and a peer's host has no comma.\<close>

theorem command_line_roundtrip:
  assumes "- (2 ^ 31) \<le> arg_count a" and "arg_count a < 2 ^ 31" and "- (2 ^ 31) \<le> arg_index a" and "arg_index a < 2 ^ 31"
    and "\<forall>p\<in>set (arg_peers a). CHR '','' \<notin> set (fst p)"
  shows "parseArgs (argv_of a) log = (Inr a, log)"
proof -
  let ?a = "defaultArgs\<lparr>arg_showHelp := arg_showHelp a, arg_generateKeys := arg_generateKeys a, arg_signTx := arg_signTx a\<rparr>"
  have flags: "parseArgs (argv_of a) log = parse_loop ?a
     [''--count'', to_string_int (arg_count a), ''--genesis-dir'', arg_genesisDir a,
      ''--index'', to_string_int (arg_index a), ''--port'', to_string_nat (unat (arg_port a)),
      ''--data-dir'', arg_dataDir a, ''--rpc-port'', to_string_nat (unat (arg_rpcPort a)),
      ''--key'', arg_keyFile a, ''--to'', arg_toAddress a, ''--amount'', to_string (arg_amount a),
      ''--nonce'', to_string (arg_nonce a), ''--peers'', peers_text (arg_peers a)] log"
    unfolding parseArgs_def argv_of_def
    by (cases "arg_showHelp a"; cases "arg_generateKeys a"; cases "arg_signTx a")
      (simp_all add: defaultArgs_def del: parse_loop.simps add: parse_loop.simps(2))
  have ints: "stoi (to_string_int (arg_count a)) = Inr (arg_count a)" "stoi (to_string_int (arg_index a)) = Inr (arg_index a)"
    using assms(1-4) by (simp_all add: stoi_to_string_int)
  show ?thesis
    unfolding flags
    by (simp add: value_option_def proc_simps bind_p_cases ints parse_port_text stoull_to_string
        parse_peers_text [OF assms(5)] defaultArgs_def)
qed

theorem command_line_roundtrip_witness:
  "parseArgs (argv_of (defaultArgs\<lparr>arg_index := 2, arg_dataDir := ''--help'',
       arg_peers := [(''10.0.0.1'', 9001), (''::1'', 65535)]\<rparr>)) [] =
     (Inr (defaultArgs\<lparr>arg_index := 2, arg_dataDir := ''--help'', arg_peers := [(''10.0.0.1'', 9001), (''::1'', 65535)]\<rparr>), [])"
  by (rule command_line_roundtrip) (simp_all add: defaultArgs_def)

section \<open>Signing offline\<close>

text \<open>What parsing logs, and where the signing flag comes from.\<close>

definition unknown_argument :: "string \<Rightarrow> string" where
  "unknown_argument arg = ''Unknown argument: '' @ arg"

lemma value_option_signTx:
  "value_option arg = Some f \<Longrightarrow> f v a = Inr a' \<Longrightarrow> arg_signTx a' = arg_signTx a"
  by (auto simp: value_option_def split: if_splits)

text \<open>One pass over the arguments: the warnings are about some of them, and the flag comes from one.\<close>

definition parsed :: "cli_args \<Rightarrow> string list \<Rightarrow> (string list, cli_args) proc \<Rightarrow> bool" where
  "parsed a argv m \<longleftrightarrow>
     (\<forall>log. (\<exists>ws. set ws \<subseteq> set argv \<and> snd (m log) = log @ map unknown_argument ws) \<and>
        (\<forall>b. fst (m log) = Inr b \<longrightarrow> arg_signTx b \<longrightarrow> arg_signTx a \<or> isSigning argv))"

lemma parsed_more:
  assumes "parsed b rest m" and "set rest \<subseteq> set argv" and "arg_signTx b \<Longrightarrow> arg_signTx a \<or> isSigning argv"
  shows "parsed a argv m"
proof -
  have "isSigning rest \<Longrightarrow> isSigning argv" using assms(2) by (auto simp: isSigning_def list_ex_iff)
  then show ?thesis using assms unfolding parsed_def by (meson subset_trans)
qed

lemma parsed_warned:
  assumes "parsed a argv m" and "arg \<in> set argv"
  shows "parsed a argv (then_p (log_line (''Unknown argument: '' @ arg)) m)"
  unfolding parsed_def
proof (intro allI conjI)
  fix log
  let ?log = "log @ [unknown_argument arg]"
  have run: "then_p (log_line (''Unknown argument: '' @ arg)) m log = m ?log"
    by (simp add: log_line_def proc_simps unknown_argument_def)
  obtain ws where "set ws \<subseteq> set argv" "snd (m ?log) = ?log @ map unknown_argument ws"
    using assms(1) unfolding parsed_def by blast
  then show "\<exists>ws. set ws \<subseteq> set argv \<and>
      snd (then_p (log_line (''Unknown argument: '' @ arg)) m log) = log @ map unknown_argument ws"
    using assms(2) unfolding run by (intro exI [of _ "arg # ws"]) simp
  show "fst (then_p (log_line (''Unknown argument: '' @ arg)) m log) = Inr b \<longrightarrow>
      arg_signTx b \<longrightarrow> arg_signTx a \<or> isSigning argv" for b
    using assms(1) unfolding run parsed_def by blast
qed

lemma parsed_ret: "parsed a argv (ret a)"
  by (auto simp: parsed_def proc_simps intro!: exI [of _ "[]"])

lemma parse_loop_parsed: "parsed a argv (parse_loop a argv)"
proof (induction a argv rule: parse_loop.induct)
  case (1 a)
  then show ?case by (simp add: parsed_ret)
next
  case (2 a arg rest)
  have sub: "set rest \<subseteq> set (arg # rest)" by auto
  show ?case
  proof (cases "arg = ''--help'' \<or> arg = ''-h''")
    case True
    from parsed_more [OF "2.IH"(1) [OF True] sub, of a] True show ?thesis by simp
  next
    case no_help: False
    show ?thesis
    proof (cases "arg = ''--generate-keys''")
      case True
      from parsed_more [OF "2.IH"(2) [OF no_help True] sub, of a] True show ?thesis by simp
    next
      case no_generate: False
      show ?thesis
      proof (cases "arg = ''--sign-tx''")
        case True
        from parsed_more [OF "2.IH"(3) [OF no_help no_generate True] sub, of a] True show ?thesis
          by (simp add: isSigning_def)
      next
        case no_sign: False
        show ?thesis
        proof (cases "value_option arg")
          case None
          have "parsed a (arg # rest) (parse_loop a rest)"
            by (rule parsed_more [OF "2.IH"(4) [OF no_help no_generate no_sign None] sub]) simp
          from parsed_warned [OF this, of arg] None no_help no_generate no_sign show ?thesis by simp
        next
          case (Some f)
          show ?thesis
          proof (cases rest)
            case Nil
            from parsed_warned [OF parsed_ret, of arg "arg # rest" a] Nil Some no_help no_generate no_sign
            show ?thesis by simp
          next
            case (Cons v rest')
            have loop: "parse_loop a (arg # rest) = bind_p (eval_p (\<lambda>_. f v a)) (\<lambda>a'. parse_loop a' rest')"
              using Cons Some no_help no_generate no_sign by simp
            show ?thesis
            proof (cases "f v a")
              case (Inl e)
              then show ?thesis
                unfolding loop by (auto simp: parsed_def bind_eval_p intro!: exI [of _ "[]"])
            next
              case (Inr a')
              have "parsed a (arg # rest) (parse_loop a' rest')"
              proof (rule parsed_more [OF "2.IH"(5) [OF no_help no_generate no_sign Some Cons]])
                show "set rest' \<subseteq> set (arg # rest)" using Cons by auto
                show "arg_signTx a' \<Longrightarrow> arg_signTx a \<or> isSigning (arg # rest)"
                  using value_option_signTx [OF Some Inr] by simp
              qed
              then show ?thesis unfolding loop parsed_def by (simp add: bind_eval_p Inr)
            qed
          qed
        qed
      qed
    qed
  qed
qed

lemma parseArgs_log:
  assumes "parseArgs argv log = (r, log')"
  obtains ws where "set ws \<subseteq> set argv" and "log' = log @ map unknown_argument ws"
  using parse_loop_parsed [of defaultArgs argv] assms unfolding parsed_def parseArgs_def by (metis snd_conv)

lemma parseArgs_signs: "parseArgs argv log = (Inr args, log') \<Longrightarrow> arg_signTx args \<Longrightarrow> isSigning argv"
  using parse_loop_parsed [of defaultArgs argv] unfolding parsed_def parseArgs_def
  by (metis cli_args.select_convs(2) defaultArgs_def fst_conv)

lemma runSignTx_run:
  assumes "crypto_ok C" and "json_ok J" and "arg_keyFile args \<noteq> []" and "arg_amount args \<noteq> 0"
    and "loadKeyFile F (arg_keyFile args) f = Inr sk" and "key_pair_ok C \<lparr>privateKey = sk, publicKey = pk\<rparr>"
    and "arg_toAddress args = toHex rcp" and "length rcp = 20"
  obtains tx where "createTransaction C J now \<lparr>privateKey = sk, publicKey = pk\<rparr> rcp (arg_amount args) (arg_nonce args) = Inr tx"
    and "runSignTx C J F now args f = Inr (0, j_text J (transactionToJson J tx) @ ''\<newline>'')"
proof -
  have "length (toHex rcp) \<noteq> length []" using assms(8) by simp
  then have ne: "toHex rcp \<noteq> []" by (rule contrapos_nn) (rule arg_cong)
  obtain tx where tx: "createTransaction C J now \<lparr>privateKey = sk, publicKey = pk\<rparr> rcp (arg_amount args) (arg_nonce args) = Inr tx"
    by (rule createTransaction_total [OF assms(1,6)])
  moreover have "derivePublicKey C sk = Inr pk" using assms(6) by (simp add: key_pair_ok_def)
  moreover have "j_dump J (transactionToJson J tx) = Inr (j_text J (transactionToJson J tx))"
    by (rule json_plain_dump [OF assms(2) transactionToJson_plain])
  ultimately have "runSignTx C J F now args f = Inr (0, j_text J (transactionToJson J tx) @ ''\<newline>'')"
    using assms(3-5,7,8) ne by (simp add: runSignTx_def)
  with tx show ?thesis by (rule that)
qed

text \<open>C17. From the offline signer to the network: with \<open>--sign-tx\<close>, a key file, a recipient of 20
  bytes and an amount, the program exits with 0 and leaves the disk alone; on standard output appear
  the logged warnings of unknown arguments, if there are any, and then one line, the JSON text of a
  transaction from the key's address with the given amount and nonce, and nothing else. Parsed and submitted to the RPC interface of any node that does
  not have it yet, at which the sender's pending balance covers the amount and the pending nonce
  is the given one, it is answered as accepted under its hash and is in the node's pool.\<close>

theorem signed_offline_accepted_online:
  fixes L :: "'d leveldb_api" and J :: "'j json_api" and F :: "'f files_api"
  assumes "crypto_ok C" and "json_ok J" and "parseArgs argv [] = (Inr args, warnings)" and "main_mode args = SignTx"
    and "arg_keyFile args \<noteq> []" and "arg_amount args \<noteq> 0" and "loadKeyFile F (arg_keyFile args) (con_files w) = Inr sk"
    and "key_pair_ok C \<lparr>privateKey = sk, publicKey = pk\<rparr>" and "arg_toAddress args = toHex rcp" and "length rcp = 20"
  shows "\<exists>tx ws. tx_sender tx = deriveAddress C pk \<and> tx_recipient tx = rcp \<and> tx_amount tx = arg_amount args \<and>
    tx_nonce tx = arg_nonce args \<and> set ws \<subseteq> set argv \<and>
    main C J L F P at unset now databases argv w = Some (Inr (Exit 0),
      w\<lparr>con_out := con_out w @ map (\<lambda>a. Logged (unknown_argument a)) ws @
        [Printed (j_text J (transactionToJson J tx) @ ''\<newline>'')]\<rparr>) \<and>
    j_parse J (j_text J (transactionToJson J tx)) = Inr (transactionToJson J tx) \<and>
    (\<forall>(n :: ('d, 'j) node) ident. json_plain J ident \<longrightarrow>
       (net_peers (nd_network n) \<noteq> [] \<longrightarrow>
          (\<exists>frame. serializeMessage J \<lparr>msg_type = NEW_TX, msg_payload = transactionToJson J tx\<rparr> = Inr frame)) \<longrightarrow>
       \<not> contains (nd_mempool n) (tx_hash tx) \<longrightarrow> admissible (nd_state n) (nd_mempool n) tx \<longrightarrow>
       (let (r, n') = rpc_call C J ''submitTransaction'' (transaction_params J (transactionToJson J tx)) ident n
        in r = Inr (j_text J (successResponse J (j_object J
             [(''accepted'', j_bool J True), (''hash'', j_string J (toHex (tx_hash tx)))]) ident)) \<and>
           contains (nd_mempool n') (tx_hash tx)))"
proof -
  obtain tx where tx: "createTransaction C J now \<lparr>privateKey = sk, publicKey = pk\<rparr> rcp (arg_amount args) (arg_nonce args) = Inr tx"
    and run: "runSignTx C J F now args (con_files w) = Inr (0, j_text J (transactionToJson J tx) @ ''\<newline>'')"
    by (rule runSignTx_run [OF assms(1,2,5-10)])
  obtain ws where ws: "set ws \<subseteq> set argv" "warnings = map unknown_argument ws"
    by (rule parseArgs_log [OF assms(3)]) simp
  have "arg_signTx args" using assms(4) by (auto simp: main_mode_def split: if_splits)
  then have "isSigning argv" by (rule parseArgs_signs [OF assms(3)])
  then have program: "main C J L F P at unset now databases argv w = Some (Inr (Exit 0),
      w\<lparr>con_out := con_out w @ map (\<lambda>a. Logged (unknown_argument a)) ws @
        [Printed (j_text J (transactionToJson J tx) @ ''\<newline>'')]\<rparr>)"
    using assms(3,4) run by (simp add: main_def run_mode_def ws(2) comp_def)
  have fields: "tx_sender tx = deriveAddress C pk" "tx_recipient tx = rcp" "tx_amount tx = arg_amount args"
      "tx_nonce tx = arg_nonce args"
    using createTransaction_Inr(1) [OF tx] by (simp_all add: signable_def)
  have verified: "verifyTransaction C J tx" by (rule createTransaction_verifies [OF assms(1,8) tx])
  have wf: "wf_transaction tx" using createTransaction_wf [OF assms(1,8) _ tx] assms(10) by (simp add: sized_def)
  have submitted: "let (r, n') = rpc_call C J ''submitTransaction'' (transaction_params J (transactionToJson J tx)) ident n
      in r = Inr (j_text J (successResponse J (j_object J
           [(''accepted'', j_bool J True), (''hash'', j_string J (toHex (tx_hash tx)))]) ident)) \<and>
         contains (nd_mempool n') (tx_hash tx)"
    if ident: "json_plain J ident" and frame: "net_peers (nd_network n) \<noteq> [] \<longrightarrow>
          (\<exists>frame. serializeMessage J \<lparr>msg_type = NEW_TX, msg_payload = transactionToJson J tx\<rparr> = Inr frame)"
      and fresh: "\<not> contains (nd_mempool n) (tx_hash tx)" and adm: "admissible (nd_state n) (nd_mempool n) tx"
    for n :: "('d, 'j) node" and ident
  proof -
    obtain p where add: "addTransaction C J (nd_state n) (nd_mempool n) tx = (True, p)"
      using addTransaction_fst [of C J "nd_state n" "nd_mempool n" tx] verified fresh adm by (metis prod.collapse)
    show ?thesis
      using rpc_submission_call [OF assms(2) ident wf frame add] submitTransaction_run [OF frame add] added_is_pooled [OF add]
      by (simp add: submission_answer_def)
  qed
  show ?thesis
    by (intro exI [of _ tx] exI [of _ ws] conjI allI fields ws(1) program
        json_parse_text [OF assms(2) transactionToJson_plain]) (intro impI, rule submitted)
qed

theorem signed_offline_accepted_online_witness:
  "\<exists>tx ws (n :: ((string \<times> string) list, jval) node).
     main demo_crypto demo_json (demo_leveldb :: (string \<times> string) list leveldb_api) demo_files (\<lambda>_. None) Suc [] 5 (\<lambda>_. [])
       [''--sign-tx'', ''--key'', ''alice.key'', ''--to'', toHex sample_bob, ''--amount'', ''30'', ''--verbose'']
       \<lparr>con_files = [(''alice.key'', savePrivateKey_text (privateKey sample_keys))], con_out = []\<rparr> =
     Some (Inr (Exit 0 :: ((string \<times> string) list, jval) outcome),
       \<lparr>con_files = [(''alice.key'', savePrivateKey_text (privateKey sample_keys))],
        con_out = map (\<lambda>a. Logged (unknown_argument a)) ws @ [Printed (j_text demo_json (transactionToJson demo_json tx) @ ''\<newline>'')]\<rparr>) \<and>
     contains (nd_mempool (snd (rpc_call demo_crypto demo_json ''submitTransaction''
       (transaction_params demo_json (transactionToJson demo_json tx)) (JUint 7) n))) (tx_hash tx)"
proof -
  let ?argv = "[''--sign-tx'', ''--key'', ''alice.key'', ''--to'', toHex sample_bob, ''--amount'', ''30'', ''--verbose'']"
  let ?w = "\<lparr>con_files = [(''alice.key'', savePrivateKey_text (privateKey sample_keys))], con_out = []\<rparr>"
  let ?args = "defaultArgs\<lparr>arg_signTx := True, arg_keyFile := ''alice.key'', arg_toAddress := toHex sample_bob, arg_amount := 30\<rparr>"
  have amount: "stoull ''30'' = Inr 30" 
    by (simp add: stoull_def to_unsigned_def strto_def is_space_def is_digit_def digit_value_def code_of_def
        digits_value_def digit_or_0_def)
  have args: "parseArgs ?argv [] = (Inr ?args, [unknown_argument ''--verbose''])"
    by (simp add: parseArgs_def value_option_def proc_simps bind_p_cases amount log_line_def defaultArgs_def unknown_argument_def)
  have mode: "main_mode ?args = SignTx" by (simp add: main_mode_def defaultArgs_def)
  have key: "loadKeyFile demo_files (arg_keyFile ?args) (con_files ?w) = Inr (privateKey sample_keys)"
    by (simp add: loadKeyFile_def demo_files_def loadPrivateKey_saved sample_keys_def)
  have given: "arg_keyFile ?args \<noteq> []" "arg_amount ?args \<noteq> 0" "arg_toAddress ?args = toHex sample_bob" "length sample_bob = 20"
    by (simp_all add: defaultArgs_def sample_bob_def)
  have pair: "key_pair_ok demo_crypto \<lparr>privateKey = privateKey sample_keys, publicKey = publicKey sample_keys\<rparr>"
    using sample_keys_ok by (simp add: key_pair_ok_def)
  note signed = signed_offline_accepted_online [where L = demo_leveldb and P = "\<lambda>_. None" and at = Suc and unset = "[]" and now = 5 and databases = "\<lambda>_. []",
      OF demo_crypto_ok demo_json_ok args mode given(1,2) key pair given(3,4)]
  obtain tx ws where tx: "tx_sender tx = sample_alice" "tx_amount tx = 30" "tx_nonce tx = 0"
    and program: "main demo_crypto demo_json (demo_leveldb :: (string \<times> string) list leveldb_api) demo_files (\<lambda>_. None) Suc [] 5 (\<lambda>_. []) ?argv ?w =
      Some (Inr (Exit 0 :: ((string \<times> string) list, jval) outcome),
        ?w\<lparr>con_out := con_out ?w @ map (\<lambda>a. Logged (unknown_argument a)) ws @
          [Printed (j_text demo_json (transactionToJson demo_json tx) @ ''\<newline>'')]\<rparr>)"
    and online: "\<And>(n :: ((string \<times> string) list, jval) node) ident. json_plain demo_json ident \<Longrightarrow> net_peers (nd_network n) = [] \<Longrightarrow>
      \<not> contains (nd_mempool n) (tx_hash tx) \<Longrightarrow> admissible (nd_state n) (nd_mempool n) tx \<Longrightarrow>
      contains (nd_mempool (snd (rpc_call demo_crypto demo_json ''submitTransaction''
        (transaction_params demo_json (transactionToJson demo_json tx)) ident n))) (tx_hash tx)"
    using signed by (auto simp: sample_alice_def defaultArgs_def Let_def split_beta)
  obtain n :: "((string \<times> string) list, jval) node"
    where n: "st_accounts (nd_state n) = st_accounts sample_state" "nd_mempool n = newMempool" "nd_network n = freshNetwork"
    by (rule sample_node)
  have "admissible (nd_state n) (nd_mempool n) tx"
    using n tx by (simp add: admissible_def getPendingNonce_def getPendingBalance_def newMempool_def
        query_accounts sample_state_accounts known_def balance_of_def nonce_of_def)
  moreover have "\<not> contains (nd_mempool n) (tx_hash tx)" using n(2) by (simp add: contains_def newMempool_def)
  moreover have "net_peers (nd_network n) = []" using n(3) by (simp add: freshNetwork_def)
  moreover have "json_plain demo_json (JUint 7)" using plain_uint [of demo_json 7] by simp
  ultimately have "contains (nd_mempool (snd (rpc_call demo_crypto demo_json ''submitTransaction''
       (transaction_params demo_json (transactionToJson demo_json tx)) (JUint 7) n))) (tx_hash tx)"
    by (intro online)
  with program show ?thesis by auto
qed

section \<open>Restarting the program\<close>

text \<open>The life of authority \<open>i\<close>'s node on a directory, with the configuration of a generated network.\<close>

definition authority_life ::
  "crypto_api \<Rightarrow> 'j json_api \<Rightarrow> 'd leveldb_api \<Rightarrow> (nat \<Rightarrow> key_pair) \<Rightarrow> nat \<Rightarrow> string \<Rightarrow> nat \<Rightarrow> ('d, 'j) node \<Rightarrow> bool" where
  "authority_life C J L kp k dir i n \<longleftrightarrow>
     node_life C J L (kp i) (kp 0) (map (\<lambda>i. deriveAddress C (publicKey (kp i))) [0..<k])
       (getAllocations (generated_config C kp k)) dir n"

lemma started_queries:
  "bc_chain (nd_chain (snd (node_start n))) = bc_chain (nd_chain n)"
  "node_getBalance (snd (node_start n)) a = node_getBalance n a"
  "node_getNonce (snd (node_start n)) a = node_getNonce n a"
  by (simp_all add: node_start_run node_getBalance_def node_getNonce_def)

text \<open>C18. The program resumes: after \<open>--generate-keys\<close>, whatever a node of the network went through
  in its life (blocks, messages, submissions, restarts), \<open>--index i\<close> on the database it left
  starts a node with the same chain, the same balances and the same nonces, which goes on with the
  same life, unless the listening port cannot be opened, which ends the program with that error.\<close>

theorem program_resumes:
  fixes L :: "'d leveldb_api" and J :: "'j json_api"
  assumes "crypto_ok C" and "draws_sized C" and "json_ok J" and "files_writable F" and "leveldb_reliable L"
    and "0 < arg_count args" and "k = nat (arg_count args)"
    and "\<forall>i<k. generateKeyPair C (at i) = Some (Inr (kp i))"
  shows "\<exists>f'. runGenerateKeys C J F at unset args f = Some (Inr 0, f') \<and>
    (\<forall>run i dir (n :: ('d, 'j) node) s databases.
       arg_genesisDir run = arg_genesisDir args \<longrightarrow> arg_index run = int i \<longrightarrow> i < k \<longrightarrow> dir = dataPath run i \<longrightarrow>
       authority_life C J L kp k dir i n \<longrightarrow> nd_storage n = Some s \<longrightarrow> databases dir = sto_files s \<longrightarrow>
       length (bc_chain (nd_chain n)) < 2 ^ 64 \<longrightarrow>
       (\<exists>n' f''. runNode C J L F P databases run f' =
            (case P (arg_port run) of None \<Rightarrow> Inr (Running n' (arg_peers run)) | Some reason \<Rightarrow> Inl (RuntimeError reason), f'') \<and>
          bc_chain (nd_chain n') = bc_chain (nd_chain n) \<and>
          (\<forall>a. node_getBalance n' a = node_getBalance n a \<and> node_getNonce n' a = node_getNonce n a) \<and>
          authority_life C J L kp k dir i n'))"
proof -
  have keys: "\<forall>i<k. key_pair_ok C (kp i)" using generated_key_pair [OF assms(2)] assms(8) by blast
  obtain f' where f': "runGenerateKeys C J F at unset args f = Some (Inr 0, f')"
      "\<forall>i<k. loadKeyFile F (keyPath (arg_genesisDir args) i) f' = Inr (privateKey (kp i))"
      "loadGenesisConfig F J (configPath (arg_genesisDir args)) f' = Inr (generated_config C kp k)"
    using runGenerateKeys_run [OF assms(1-4,6) assms(8) [unfolded assms(7)], of unset f] unfolding assms(7) by blast
  have resumes: "\<exists>n' f''. runNode C J L F P databases run f' =
        (case P (arg_port run) of None \<Rightarrow> Inr (Running n' (arg_peers run)) | Some reason \<Rightarrow> Inl (RuntimeError reason), f'') \<and>
      bc_chain (nd_chain n') = bc_chain (nd_chain n) \<and>
      (\<forall>a. node_getBalance n' a = node_getBalance n a \<and> node_getNonce n' a = node_getNonce n a) \<and>
      authority_life C J L kp k dir i n'"
    if run: "arg_genesisDir run = arg_genesisDir args" "arg_index run = int i" "i < k" "dir = dataPath run i"
      and life: "authority_life C J L kp k dir i n" and s: "nd_storage n = Some s" "databases dir = sto_files s"
      and room: "length (bc_chain (nd_chain n)) < 2 ^ 64"
    for run i dir s databases and n :: "('d, 'j) node"
  proof -
    let ?new = "newNode C J L (\<lambda>_. None) (kp i) (kp 0) (map (\<lambda>i. deriveAddress C (publicKey (kp i))) [0..<k])
        (getAllocations (generated_config C kp k)) 0 dir (sto_files s)"
    have valid: "key_pair_ok C (kp i)" "key_pair_ok C (kp 0)" using keys run(3) by auto
    have "dir \<noteq> []" using run(4) dataPath_nonempty by simp
    then obtain n' where n': "?new = Inr n'" "bc_chain (nd_chain n') = bc_chain (nd_chain n)"
        "\<forall>a. node_getBalance n' a = node_getBalance n a \<and> node_getNonce n' a = node_getNonce n a"
      using node_life_restart [OF life [unfolded authority_life_def] assms(1,3,5) valid _ room, of "\<lambda>_. None" 0] s(1) by auto
    have "authority_life C J L kp k dir i (snd (node_start n'))"
      using life_step [OF life_restart [OF life [unfolded authority_life_def] s(1) room n'(1)] step_start]
      by (simp add: authority_life_def)
    moreover have "\<exists>f''. runNode C J L F P databases run f' =
        (case P (arg_port run) of None \<Rightarrow> Inr (Running (snd (node_start n')) (arg_peers run))
         | Some reason \<Rightarrow> Inl (RuntimeError reason), f'')"
      using f'(2,3) run newNode_assembled [OF n'(1)] s(2)
      by (intro runNode_new [where kp = kp and k = k and databases = databases, OF assms(4) keys]) simp_all
    ultimately show ?thesis using n'(2,3) started_queries by metis
  qed
  show ?thesis by (intro exI [of _ f'] conjI allI f'(1)) (intro impI, rule resumes)
qed

theorem program_resumes_witness:
  "\<exists>f' (n :: ((string \<times> string) list, jval) node) s n' f''.
     runGenerateKeys demo_crypto demo_json demo_files Suc [] (defaultArgs\<lparr>arg_count := 2\<rparr>) [] = Some (Inr 0, f') \<and>
     nd_storage n = Some s \<and>
     runNode demo_crypto demo_json demo_leveldb demo_files (\<lambda>_. None) (\<lambda>_. sto_files s) (defaultArgs\<lparr>arg_index := 1\<rparr>) f' =
       (Inr (Running n' []), f'') \<and> bc_chain (nd_chain n') = bc_chain (nd_chain n)"
proof -
  define kp where "kp i = (let sk = replicate 32 (word_of_nat (Suc i) :: byte) in \<lparr>privateKey = sk, publicKey = 2 # sk\<rparr>)" for i
  let ?args = "defaultArgs\<lparr>arg_count := 2\<rparr>" and ?run = "defaultArgs\<lparr>arg_index := 1\<rparr>"
  have "generateKeyPair demo_crypto (Suc i) = Some (Inr (kp i))" if "i < 2" for i
    using that by (auto simp: less_2_cases_iff generateKeyPair_def kp_def demo_crypto_def derivePublicKey_def Let_def)
  then have gen: "\<forall>i<2. generateKeyPair demo_crypto (Suc i) = Some (Inr (kp i))" by blast
  have draws: "draws_sized demo_crypto" by (simp add: draws_sized_def demo_crypto_def)
  have count: "0 < arg_count ?args" "2 = nat (arg_count ?args)" by simp_all
  have empty: "\<forall>key. ldb_get demo_leveldb [] key = NotFound" by (simp add: demo_leveldb_def demo_get_def)
  have valid: "key_pair_ok demo_crypto (kp 0)" by (rule generated_key_pair(1) [OF draws gen [rule_format, of 0]]) simp
  let ?dir = "dataPath ?run 1" and ?allocs = "getAllocations (generated_config demo_crypto kp 2)"
    and ?auths = "map (\<lambda>i. deriveAddress demo_crypto (publicKey (kp i))) [0..<2]"
  obtain n :: "((string \<times> string) list, jval) node" and s c g
    where n: "assembleNode demo_crypto demo_json demo_leveldb (kp 1) (kp 0) ?auths ?allocs ?dir [] = Inr n"
      "n = (blank_node demo_crypto (kp 1) c ?allocs)\<lparr>nd_storage := Some s\<rparr>" "bc_chain c = [g]"
    using assemble_runs [OF demo_crypto_ok valid demo_leveldb_reliable _ dataPath_nonempty empty,
        of ?auths demo_json "kp 1" ?allocs ?run 1] by auto
  have life: "authority_life demo_crypto demo_json demo_leveldb kp 2 ?dir 1 n"
    using life_born [OF empty, where P = "\<lambda>_. None"] n(1) by (simp add: authority_life_def newNode_iff)
  have room: "length (bc_chain (nd_chain n)) < 2 ^ 64" and s: "nd_storage n = Some s"
    using n(2,3) by (simp_all add: blank_node_def)
  have run: "arg_genesisDir ?run = arg_genesisDir ?args" "arg_index ?run = int 1" "(1::nat) < 2" "arg_peers ?run = []"
    by (simp_all add: defaultArgs_def)
  show ?thesis
    using program_resumes [OF demo_crypto_ok draws demo_json_ok demo_files_writable demo_leveldb_reliable count gen,
        of "[]" "[]" "\<lambda>_. None"] run life room s by (simp only: option.case) metis
qed

section \<open>Shutting down\<close>

text \<open>C27. When \<open>stop\<close> of the RPC server comes back: called while the server listens, or when its
  thread has ended or was never started, the thread ends after at most one more move, whatever moves
  it made before; then the join succeeds, the node is stopped, the destructor's second \<open>stop\<close> does
  nothing, and no thread is left. Called between the start of the thread and \<open>listen\<close>, \<open>stop\<close> does
  not reach the server, and once the port is bound the join never returns.\<close>

theorem rpc_stop_ends:
  assumes "server_run s"
  shows "(rs_listener s \<noteq> Spawned \<longrightarrow>
      (\<forall>t. listens\<^sup>*\<^sup>* (rpc_close s) t \<longrightarrow>
         (\<exists>t' s'. listens\<^sup>=\<^sup>= t t' \<and> shut_down t' n = Some (s', snd (node_stop n)) \<and> rs_listener s' = NoThread))) \<and>
    (rs_listener s = Spawned \<longrightarrow>
      (\<exists>t. listens (rpc_close s) t \<and> (\<forall>t'. listens\<^sup>*\<^sup>* t t' \<longrightarrow> shut_down t' n = None)))"
proof (intro conjI impI allI)
  fix t assume alive: "rs_listener s \<noteq> Spawned" and t: "listens\<^sup>*\<^sup>* (rpc_close s) t"
  have ended: "\<exists>s'. shut_down t' n = Some (s', snd (node_stop n)) \<and> rs_listener s' = NoThread"
    if "rs_listener t' = NoThread \<or> rs_listener t' = Returned" for t'
    using that by (auto simp: shut_down_def rpc_join_def rpc_close_def is_running_def)
  show "\<exists>t' s'. listens\<^sup>=\<^sup>= t t' \<and> shut_down t' n = Some (s', snd (node_stop n)) \<and> rs_listener s' = NoThread"
  proof (cases "rs_listener s = Listening")
    case True
    then have closed: "rs_listener (rpc_close s) = Listening" "rs_stopped (rpc_close s)"
      by (simp_all add: rpc_close_def is_running_def)
    let ?t = "rpc_close s\<lparr>rs_listener := Returned\<rparr>"
    have "listens (rpc_close s) ?t" by (rule listen_ends [OF closed])
    then have "listens\<^sup>=\<^sup>= t ?t" using listening_stopped [OF t closed] by auto
    then show ?thesis using ended [of ?t] by auto
  next
    case False
    then have rest: "rs_listener (rpc_close s) = NoThread \<or> rs_listener (rpc_close s) = Returned"
      using alive by (cases "rs_listener s") (simp_all add: rpc_close_def is_running_def)
    then have "t = rpc_close s" by (rule resting_stays [OF t])
    then show ?thesis using ended [OF rest] by auto
  qed
next
  assume spawned: "rs_listener s = Spawned"
  then have s: "rpc_close s = s" "\<not> rs_stopped s"
    using server_run_inv [OF assms] by (simp_all add: rpc_close_def is_running_def)
  let ?t = "s\<lparr>rs_listener := Listening\<rparr>"
  have "shut_down t' n = None" if "listens\<^sup>*\<^sup>* ?t t'" for t'
  proof -
    have "t' = ?t" using that s(2) by (intro listening_stays) simp_all
    then show ?thesis by (simp add: shut_down_def rpc_join_def)
  qed
  moreover have "listens (rpc_close s) ?t" unfolding s(1) by (rule listen_binds [OF spawned])
  ultimately show "\<exists>t. listens (rpc_close s) t \<and> (\<forall>t'. listens\<^sup>*\<^sup>* t t' \<longrightarrow> shut_down t' n = None)" by blast
qed

theorem rpc_stop_ends_witness:
  "\<exists>s (n :: ((string \<times> string) list, jval) node) t t' s'. serve defaultArgs = Some s \<and> listens s t \<and>
     listens\<^sup>=\<^sup>= (rpc_close t) t' \<and> shut_down t' n = Some (s', snd (node_stop n)) \<and>
     (\<exists>u. listens (rpc_close s) u \<and> shut_down u n = None)"
proof -
  obtain n :: "((string \<times> string) list, jval) node" where "nd_mempool n = newMempool" by (rule sample_node)
  obtain s where s: "serve defaultArgs = Some s" "rs_listener s = Spawned"
    by (simp add: serve_def rpc_start_def newRpcServer_def)
  have run: "server_run s"
    using server_start [OF server_new] s(1) unfolding serve_def by blast
  let ?t = "s\<lparr>rs_listener := Listening\<rparr>"
  have t: "listens s ?t" by (rule listen_binds [OF s(2)])
  have "rs_listener ?t \<noteq> Spawned" by simp
  then obtain t' s' where "listens\<^sup>=\<^sup>= (rpc_close ?t) t'" "shut_down t' n = Some (s', snd (node_stop n))"
    using rpc_stop_ends [OF server_listens [OF run t], of n] by blast
  moreover obtain u where "listens (rpc_close s) u" "shut_down u n = None"
    using rpc_stop_ends [OF run, of n] s(2) by blast
  ultimately show ?thesis using s(1) t by blast
qed

end
