(* ===== verification/Gossip_Flood.thy ===== *)
theory Gossip_Flood
  imports Gossip Node_Recovery
begin

text \<open>
  A new block spreads over a network of sessions: every node that takes it announces it to its other
  peers, so a node next to one that has it has it too, or an announcement is on its way.
\<close>

definition announcement :: "'j json_api \<Rightarrow> block \<Rightarrow> 'j message" where
  "announcement J b = \<lparr>msg_type = NEW_BLOCK, msg_payload = blockToJson J b\<rparr>"

definition peers_of :: "('d, 'j) node \<Rightarrow> nat list" where
  "peers_of n = net_peers (nd_network n)"

text \<open>Block \<open>b\<close> comes next after chain \<open>c\<close>; a node waits for it, or has it.\<close>

definition comes_next :: "block list \<Rightarrow> block \<Rightarrow> bool" where
  "comes_next c b \<longleftrightarrow> wf_block b \<and> blk_index b = word_of_nat (length c) \<and> Suc (length c) < 2 ^ 64"

definition waiting ::
  "crypto_api \<Rightarrow> 'j json_api \<Rightarrow> 'd leveldb_api \<Rightarrow> block list \<Rightarrow> block \<Rightarrow> ('d, 'j) node \<Rightarrow> bool" where
  "waiting C J L c b n \<longleftrightarrow> bc_chain (nd_chain n) = c \<and> accepts C J (nd_chain n) b \<and> store_ready L n"

definition having :: "block list \<Rightarrow> block \<Rightarrow> ('d, 'j) node \<Rightarrow> bool" where
  "having c b n \<longleftrightarrow> bc_chain (nd_chain n) = c @ [b]"

section \<open>One announcement\<close>

lemma comes_next_wf: "comes_next c b \<Longrightarrow> wf_block b"
  by (simp add: comes_next_def)

lemma having_ignores:
  assumes J: "json_ok J" and b: "comes_next c b" and n: "having c b n"
  shows "handleMessage C J L (announcement J b) q n = (Inr (), n)"
proof -
  have "unat (blk_index b) = length c" using b by (simp add: comes_next_def unat_of_nat)
  moreover have "unat (getHeight (nd_chain n)) = Suc (length c)"
    using n b by (simp add: comes_next_def having_def getHeight_def unat_of_nat del: of_nat_Suc)
  ultimately have "blk_index b < getHeight (nd_chain n)" "\<not> getHeight (nd_chain n) < blk_index b"
    by (simp_all add: word_less_nat_alt)
  then show ?thesis
    using blockFromJson_toJson [OF J comes_next_wf [OF b]]
    by (simp add: announcement_def handleMessage_def onNewBlock_def bind_eval_p proc_simps Let_def)
qed

lemma waiting_takes:
  fixes q :: nat
  assumes J: "json_ok J" and b: "comes_next c b" and n: "waiting C J L c b n"
    and frame: "serializeMessage J (announcement J b) = Inr frame"
  defines "n' \<equiv> snd (handleMessage C J L (announcement J b) q n)"
  shows "having c b n'" and "peers_of n' = peers_of n"
    and "posted_since n n' = map (\<lambda>p. (p, announcement J b)) (filter (\<lambda>p. p \<noteq> q) (peers_of n))"
proof -
  have acc: "accepts C J (nd_chain n) b" using n by (simp add: waiting_def)
  have idx: "blk_index b = getHeight (nd_chain n)" using acc by (simp add: accepts_def)
  obtain s where run: "acceptBlock C J L b n = (Inr True, (settle C J b n)\<lparr>nd_storage := s\<rparr>)"
    using acceptBlock_ready [OF _ J acc] n by (auto simp: waiting_def)
  have "n' = snd (on_network (broadcast J (announcement J b) (Some q)) ((settle C J b n)\<lparr>nd_storage := s\<rparr>))"
    using blockFromJson_toJson [OF J comes_next_wf [OF b]] idx run
    by (simp add: n'_def announcement_def handleMessage_def onNewBlock_def bind_eval_p proc_simps)
  then have n': "n' = (settle C J b n)\<lparr>nd_storage := s, nd_network := (nd_network n)\<lparr>net_posted :=
      net_posted (nd_network n) @ map (\<lambda>p. (p, announcement J b)) (filter (\<lambda>p. p \<noteq> q) (peers_of n))\<rparr>\<rparr>"
    by (simp add: on_network_snd broadcast_run [OF frame] peers_of_def)
  show "having c b n'" using n by (simp add: n' having_def waiting_def settle_chain [OF acc])
  show "peers_of n' = peers_of n" by (simp add: n' peers_of_def)
  show "posted_since n n' = map (\<lambda>p. (p, announcement J b)) (filter (\<lambda>p. p \<noteq> q) (peers_of n))"
    by (simp add: posted_since_def n')
qed

section \<open>The network\<close>

text \<open>Sessions come in pairs, and node \<open>j\<close> is a peer of node \<open>i\<close>.\<close>

definition paired :: "topology \<Rightarrow> ('d, 'j) node list \<Rightarrow> bool" where
  "paired link ns \<longleftrightarrow>
     (\<forall>i<length ns. \<forall>p\<in>set (peers_of (ns ! i)). \<exists>j q. link i p = Some (j, q) \<and> j < length ns \<and>
        q \<in> set (peers_of (ns ! j)) \<and> link j q = Some (i, p))"

definition neighbour :: "topology \<Rightarrow> ('d, 'j) node list \<Rightarrow> nat \<Rightarrow> nat \<Rightarrow> bool" where
  "neighbour link ns i j \<longleftrightarrow> i < length ns \<and> (\<exists>p\<in>set (peers_of (ns ! i)). \<exists>q. link i p = Some (j, q))"

text \<open>
  While the block spreads: every node waits for it or has it; only announcements of it are in
  flight, each from a node that has it; and every neighbour of a node that has it has it, or an
  announcement is on its way.
\<close>

definition spreading ::
  "crypto_api \<Rightarrow> 'j json_api \<Rightarrow> 'd leveldb_api \<Rightarrow> topology \<Rightarrow> block list \<Rightarrow> block \<Rightarrow> ('d, 'j) gossip \<Rightarrow> bool" where
  "spreading C J L link c b s \<longleftrightarrow>
     paired link (gs_nodes s) \<and>
     (\<forall>n\<in>set (gs_nodes s). waiting C J L c b n \<or> having c b n) \<and>
     (\<forall>(j, q, m)\<in>set (gs_flying s). m = announcement J b \<and> j < length (gs_nodes s) \<and>
        (\<exists>i p. link j q = Some (i, p) \<and> i < length (gs_nodes s) \<and> having c b (gs_nodes s ! i))) \<and>
     (\<forall>i j. neighbour link (gs_nodes s) i j \<longrightarrow> having c b (gs_nodes s ! i) \<longrightarrow>
        having c b (gs_nodes s ! j) \<or> (\<exists>q m. (j, q, m) \<in> set (gs_flying s)))"

lemma same_peers:
  assumes "map peers_of ns' = map peers_of ns"
  shows "paired link ns' = paired link ns" and "neighbour link ns' i j = neighbour link ns i j"
proof -
  have len: "length ns' = length ns" using arg_cong [OF assms, of length] by simp
  have "peers_of (ns' ! i) = peers_of (ns ! i)" if "i < length ns" for i
    using arg_cong [OF assms, of "\<lambda>l. l ! i"] that len by simp
  then show "paired link ns' = paired link ns" and "neighbour link ns' i j = neighbour link ns i j"
    unfolding paired_def neighbour_def len by (auto; metis)+
qed

lemma routed_from: "(i, r, m) \<in> set (routed link k j ps) \<Longrightarrow> \<exists>p. (p, m) \<in> set ps \<and> link j p = Some (i, r)"
  by (auto simp: routed_def split: option.splits if_splits)

lemma routed_to: "(p, m) \<in> set ps \<Longrightarrow> link j p = Some (i, r) \<Longrightarrow> i < k \<Longrightarrow> (i, r, m) \<in> set (routed link k j ps)"
  by (force simp: routed_def)

lemma delivery_spreads:
  assumes J: "json_ok J" and b: "comes_next c b" and frame: "serializeMessage J (announcement J b) = Inr frame"
    and s: "spreading C J L link c b s" and step: "delivery C J L link s t"
  shows "spreading C J L link c b t" and "map peers_of (gs_nodes t) = map peers_of (gs_nodes s)"
    and "\<forall>i<length (gs_nodes s). having c b (gs_nodes s ! i) \<longrightarrow> having c b (gs_nodes t ! i)"
proof -
  obtain xs j q m ys where f: "gs_flying s = xs @ (j, q, m) # ys" and j: "j < length (gs_nodes s)"
      and t: "t = deliver C J L link j q m (xs @ ys) s"
    using step by (auto elim: delivery.cases)
  let ?k = "length (gs_nodes s)" let ?n = "gs_nodes s ! j" let ?n' = "snd (handleMessage C J L m q ?n)"
  have m: "m = announcement J b" and origin: "\<exists>i p. link j q = Some (i, p) \<and> i < ?k \<and> having c b (gs_nodes s ! i)"
    using s f by (auto simp: spreading_def)
  have n: "waiting C J L c b ?n \<or> having c b ?n" using s j by (simp add: spreading_def)
  have has: "having c b ?n'" and peers: "peers_of ?n' = peers_of ?n"
    using having_ignores [OF J b, of ?n C L q] waiting_takes(1,2) [OF J b _ frame, of C L ?n q] n unfolding m by auto
  have nodes: "gs_nodes t = (gs_nodes s)[j := ?n']"
    and flying: "gs_flying t = xs @ ys @ routed link ?k j (posted_since ?n ?n')"
    by (simp_all add: t deliver_def Let_def)
  have have_nth: "having c b (gs_nodes t ! i) \<longleftrightarrow> i = j \<or> having c b (gs_nodes s ! i)" if "i < ?k" for i
    using that has j by (cases "i = j") (simp_all add: nodes)
  show same: "map peers_of (gs_nodes t) = map peers_of (gs_nodes s)"
    using peers j by (simp add: nodes map_update) (metis list_update_id map_update)
  show "\<forall>i<?k. having c b (gs_nodes s ! i) \<longrightarrow> having c b (gs_nodes t ! i)" using have_nth by blast
  have pairs: "paired link (gs_nodes s)" using s by (simp add: spreading_def)
  have posted: "posted_since ?n ?n' = (if having c b ?n then [] else map (\<lambda>p. (p, m)) (filter (\<lambda>p. p \<noteq> q) (peers_of ?n)))"
    using having_ignores [OF J b, of ?n C L q] waiting_takes(3) [OF J b _ frame, of C L ?n q] n
    by (auto simp: m posted_since_def)
  have k: "length (gs_nodes t) = ?k" by (simp add: nodes)
  have routes: "m' = m \<and> i < ?k \<and> link i r = Some (j, p) \<and> p \<in> set (peers_of ?n)"
    if "(p, m') \<in> set (posted_since ?n ?n')" "link j p = Some (i, r)" for i r m' p
    using that pairs j unfolding posted paired_def by (fastforce split: if_splits)
  have news: "m' = announcement J b \<and> i < ?k \<and> (\<exists>p. link i r = Some (j, p))"
    if "(i, r, m') \<in> set (routed link ?k j (posted_since ?n ?n'))" for i r m'
    using routed_from [OF that] routes m by blast
  have "m' = announcement J b \<and> i < ?k \<and> (\<exists>i' p. link i r = Some (i', p) \<and> i' < ?k \<and> having c b (gs_nodes t ! i'))"
    if "(i, r, m') \<in> set (gs_flying t)" for i r m'
  proof (cases "(i, r, m') \<in> set (gs_flying s)")
    case True
    then have "m' = announcement J b \<and> i < ?k \<and>
        (\<exists>i' p. link i r = Some (i', p) \<and> i' < ?k \<and> having c b (gs_nodes s ! i'))"
      using s unfolding spreading_def by blast
    then show ?thesis using have_nth by blast
  next
    case False
    then have "(i, r, m') \<in> set (routed link ?k j (posted_since ?n ?n'))" using that by (auto simp: flying f)
    then show ?thesis using news have_nth j by blast
  qed
  moreover have "having c b (gs_nodes t ! i') \<or> (\<exists>q m. (i', q, m) \<in> set (gs_flying t))"
    if near: "neighbour link (gs_nodes s) i i'" and i: "having c b (gs_nodes t ! i)" for i i'
  proof -
    obtain p r where p: "i < ?k" "p \<in> set (peers_of (gs_nodes s ! i))" "link i p = Some (i', r)"
      using near by (auto simp: neighbour_def)
    then have i': "i' < ?k" using pairs by (fastforce simp: paired_def)
    show ?thesis
    proof (cases "having c b (gs_nodes s ! i)")
      case True
      then have "having c b (gs_nodes s ! i') \<or> (\<exists>q m. (i', q, m) \<in> set (gs_flying s))"
        using s near unfolding spreading_def by blast
      then show ?thesis using have_nth [OF i'] by (auto simp: f flying)
    next
      case False
      then have [simp]: "i = j" using i have_nth p(1) by blast
      show ?thesis
      proof (cases "p = q")
        case True
        then show ?thesis using origin p(3) have_nth [OF i'] by auto
      next
        case other: False
        then have "(p, m) \<in> set (posted_since ?n ?n')" using False p(2) by (simp add: posted)
        then have "(i', r, m) \<in> set (gs_flying t)" using routed_to i' p(3) by (fastforce simp: flying)
        then show ?thesis by blast
      qed
    qed
  qed
  moreover have "waiting C J L c b n \<or> having c b n" if "n \<in> set (gs_nodes t)" for n
    using that s has set_update_subset_insert [of "gs_nodes s" j ?n'] unfolding nodes spreading_def by blast
  ultimately show "spreading C J L link c b t"
    using pairs same_peers [OF same, of link] unfolding spreading_def k by auto
qed

text \<open>When nothing is in flight any more, every node that can be reached from one that has the block has it.\<close>

lemma deliveries_spread:
  assumes J: "json_ok J" and b: "comes_next c b" and frame: "serializeMessage J (announcement J b) = Inr frame"
    and run: "(delivery C J L link)\<^sup>*\<^sup>* s t" and s: "spreading C J L link c b s"
  shows "spreading C J L link c b t \<and> map peers_of (gs_nodes t) = map peers_of (gs_nodes s) \<and>
    (\<forall>i<length (gs_nodes s). having c b (gs_nodes s ! i) \<longrightarrow> having c b (gs_nodes t ! i))"
  using run
proof induction
  case base
  then show ?case using s by simp
next
  case (step t u)
  have "length (gs_nodes t) = length (gs_nodes s)" using step.IH map_eq_imp_length_eq by blast
  then show ?case
    using step.IH delivery_spreads [OF J b frame _ step.hyps(2)] by metis
qed

lemma spread_to_all:
  assumes s: "spreading C J L link c b s" and rest: "gs_flying s = []" and i: "having c b (gs_nodes s ! i)"
    and reach: "(neighbour link (gs_nodes s))\<^sup>*\<^sup>* i j"
  shows "having c b (gs_nodes s ! j)"
  using reach
proof induction
  case (step j k)
  then show ?case using s rest by (force simp: spreading_def)
qed (rule i)

end
