(* ===== verification/Gossip_Properties.thy ===== *)
theory Gossip_Properties
  imports Gossip_Flood Node_Properties
begin

text \<open>
  Nodes joined by sessions, with nobody submitting or producing: the exchange of messages comes to
  rest, and a block announced once by its producer reaches every node that sessions lead to.
\<close>

section \<open>Nodes in use are sound\<close>

lemma consistent_sound:
  assumes "consistent C J n" and "length (bc_chain (nd_chain n)) < 2 ^ 64"
  shows "sound_node n"
proof -
  have "valid_blocks C J (bc_chain (nd_chain n))" and wf: "list_all wf_block (bc_chain (nd_chain n))"
    using consistentD(2,4) [OF assms(1)] by (simp_all add: node_inv_def chain_inv_def wf_node_def)
  then have "numbered b" if "b \<in> set (bc_chain (nd_chain n))" for b
    using that assms(2) valid_blocks_index by (fastforce simp: in_set_conv_nth numbered_def unat_of_nat)
  then show ?thesis using assms(2) wf by (simp add: sound_node_def list_all_iff)
qed

lemma announcement_sound: "json_ok J \<Longrightarrow> wf_block b \<Longrightarrow> numbered b \<Longrightarrow> sound_message J (announcement J b)"
  by (simp add: sound_message_def announcement_def carries_def blockFromJson_toJson)

text \<open>A message can be delivered as long as one is in flight.\<close>

lemma in_flight_moves:
  assumes "sound J s" and "gs_flying s \<noteq> []"
  shows "\<exists>t. delivery C J L link s t"
proof -
  obtain j q m ys where f: "gs_flying s = [] @ (j, q, m) # ys" using assms(2) by (cases "gs_flying s") auto
  have "j < length (gs_nodes s)" using assms(1) f by (simp add: sound_def)
  from deliveryI [OF f this] show ?thesis by blast
qed

lemma deliveries_sound:
  assumes "(delivery C J L link)\<^sup>*\<^sup>* s t" and "json_ok J" and "sound J s"
  shows "sound J t"
  using assms(1)
proof induction
  case (step t u)
  from gossip_step_invariants(1) [OF gossip_deliver [OF step(2)] assms(2) step.IH finite_hashes_in order_refl]
  show ?case .
qed (rule assms(3))

section \<open>A producer announces its block\<close>

lemma producer_announces:
  assumes n: "consistent C J n" and J: "json_ok J" and ready: "store_ready L n"
    and p: "bc_consensus (nd_chain n) = Some p" and turn: "getProducer p (getHeight (nd_chain n)) = nd_addr n"
    and len: "Suc (length (bc_chain (nd_chain n))) < 2 ^ 64"
  obtains b where "accepts C J (nd_chain n) b" and "comes_next (bc_chain (nd_chain n)) b"
    and "having (bc_chain (nd_chain n)) b (snd (produceBlock C J L now n))"
    and "peers_of (snd (produceBlock C J L now n)) = peers_of n"
    and "\<And>frame. serializeMessage J (announcement J b) = Inr frame \<Longrightarrow>
      posted_since n (snd (produceBlock C J L now n)) = map (\<lambda>p. (p, announcement J b)) (peers_of n)"
proof -
  obtain b where b: "accepts C J (nd_chain n) b" "wf_block b"
      "produceBlock C J L now n = bind_p (acceptBlock C J L b) (\<lambda>added.
         if \<not> added then ret False
         else then_p (on_network (broadcast J \<lparr>msg_type = NEW_BLOCK, msg_payload = blockToJson J b\<rparr> None))
            (ret True)) n"
    by (rule produceBlock_succeeds [OF consistentD(1,2,4) [OF n] p turn])
  obtain s where run: "acceptBlock C J L b n = (Inr True, (settle C J b n)\<lparr>nd_storage := s\<rparr>)"
    using acceptBlock_ready [OF ready J b(1)] by blast
  have n': "snd (produceBlock C J L now n) =
      snd (on_network (broadcast J (announcement J b) None) ((settle C J b n)\<lparr>nd_storage := s\<rparr>))"
    using b(3) run by (simp add: bind_p_cases proc_simps announcement_def split: prod.split sum.split)
  show ?thesis
  proof (rule that [OF b(1)])
    show "comes_next (bc_chain (nd_chain n)) b" using b(1,2) len by (simp add: comes_next_def accepts_def getHeight_def)
    show "having (bc_chain (nd_chain n)) b (snd (produceBlock C J L now n))"
      by (simp add: n' on_network_snd having_def settle_chain [OF b(1)])
    show "peers_of (snd (produceBlock C J L now n)) = peers_of n"
      using keepsD [OF keeps_peers(2) refl] by (simp add: n' on_network_snd peers_of_def)
    show "posted_since n (snd (produceBlock C J L now n)) = map (\<lambda>p. (p, announcement J b)) (peers_of n)"
      if "serializeMessage J (announcement J b) = Inr frame" for frame
      by (simp add: n' on_network_snd broadcast_run [OF that] posted_since_def peers_of_def)
  qed
qed

lemma start_spreads:
  assumes pairs: "paired link ns" and i: "i < length ns" and all: "\<forall>n\<in>set ns. waiting C J L c b n"
    and n': "having c b n'" "peers_of n' = peers_of (ns ! i)"
    and c: "comes_next c b"
    and posted: "posted_since (ns ! i) n' = map (\<lambda>p. (p, announcement J b)) (peers_of (ns ! i))"
  shows "spreading C J L link c b
    \<lparr>gs_nodes = ns[i := n'], gs_flying = routed link (length ns) i (posted_since (ns ! i) n')\<rparr>"
proof -
  have same: "map peers_of (ns[i := n']) = map peers_of ns"
    using n'(2) i by (simp add: map_update) (metis list_update_id map_update)
  have own: "having c b (ns[i := n'] ! k) \<longleftrightarrow> k = i" if "k < length ns" for k
    using that all n'(1) i by (cases "k = i") (auto simp: waiting_def having_def)
  have new: "m = announcement J b \<and> j < length ns \<and> (\<exists>k p. link j q = Some (k, p) \<and> k < length ns \<and> having c b (ns[i := n'] ! k))"
    if new: "(j, q, m) \<in> set (routed link (length ns) i (posted_since (ns ! i) n'))" for j q m
  proof -
    obtain p where p: "m = announcement J b" "p \<in> set (peers_of (ns ! i))" "link i p = Some (j, q)"
      using routed_from [OF new] by (auto simp: posted)
    then have "j < length ns" "link j q = Some (i, p)" using pairs i by (fastforce simp: paired_def)+
    then show ?thesis using p(1) own i by blast
  qed
  have near: "\<exists>q m. (k, q, m) \<in> set (routed link (length ns) i (posted_since (ns ! i) n'))"
    if nb: "neighbour link ns j k" "having c b (ns[i := n'] ! j)" for j k
  proof -
    have "j = i" using nb own by (auto simp: neighbour_def)
    then obtain p q where p: "p \<in> set (peers_of (ns ! i))" "link i p = Some (k, q)"
      using nb(1) by (auto simp: neighbour_def)
    then have "k < length ns" using pairs i by (fastforce simp: paired_def)
    moreover have "(p, announcement J b) \<in> set (posted_since (ns ! i) n')" using p(1) by (simp add: posted)
    ultimately show ?thesis using routed_to p(2) by blast
  qed
  have "waiting C J L c b n \<or> having c b n" if "n \<in> set (ns[i := n'])" for n
    using that all n'(1) set_update_subset_insert [of ns i n'] by blast
  then show ?thesis
    using pairs same_peers [OF same, of link] new near unfolding spreading_def by auto
qed

text \<open>The state in which a producer has announced its block: sound, and the block begins to spread.\<close>

lemma production_spreads:
  assumes runs: "list_all (node_run C J L) ns" and J: "json_ok J" and i: "i < length ns"
    and p: "bc_consensus (nd_chain (ns ! i)) = Some p" and turn: "getProducer p (getHeight (nd_chain (ns ! i))) = nd_addr (ns ! i)"
    and all: "\<forall>n\<in>set ns. bc_chain (nd_chain n) = bc_chain (nd_chain (ns ! i)) \<and>
           same_schedule (nd_chain n) (nd_chain (ns ! i)) \<and> store_ready L n"
    and len: "Suc (length (bc_chain (nd_chain (ns ! i)))) < 2 ^ 64" and pairs: "paired link ns"
    and n': "n' = snd (produceBlock C J L now (ns ! i))"
    and frame: "serializeMessage J \<lparr>msg_type = NEW_BLOCK, msg_payload = blockToJson J (getLatestBlock (nd_chain n'))\<rparr> = Inr frame"
  defines "s \<equiv> \<lparr>gs_nodes = ns[i := n'], gs_flying = routed link (length ns) i (posted_since (ns ! i) n')\<rparr>"
    and "c \<equiv> bc_chain (nd_chain (ns ! i))" and "b \<equiv> getLatestBlock (nd_chain n')"
  shows "comes_next c b" and "having c b n'" and "peers_of n' = peers_of (ns ! i)" and "spreading C J L link c b s"
    and "sound J s"
proof -
  have cons: "consistent C J n" if "n \<in> set ns" for n
    using runs that by (auto simp: list_all_iff intro: node_run_consistent)
  have ni: "ns ! i \<in> set ns" using i by simp
  obtain b' where made: "accepts C J (nd_chain (ns ! i)) b'" "comes_next c b'" "having c b' n'" "peers_of n' = peers_of (ns ! i)"
      "\<And>frame. serializeMessage J (announcement J b') = Inr frame \<Longrightarrow>
        posted_since (ns ! i) n' = map (\<lambda>p. (p, announcement J b')) (peers_of (ns ! i))"
    unfolding n' c_def
    by (rule producer_announces [OF cons [OF ni] J _ p turn len]) (use all ni in blast)+
  have b': "b' = b" using made(3) by (simp add: b_def having_def getLatestBlock_def)
  show next_block: "comes_next c b" and "having c b n'" and "peers_of n' = peers_of (ns ! i)" using made b' by simp_all
  have posted: "posted_since (ns ! i) n' = map (\<lambda>p. (p, announcement J b)) (peers_of (ns ! i))"
    using made(5) frame by (simp add: announcement_def b' b_def)
  have "\<forall>n\<in>set ns. waiting C J L c b n"
    using all made(1) b' accepts_cong by (fastforce simp: waiting_def c_def)
  from start_spreads [OF pairs i this made(3,4,2) [unfolded b'] posted]
  show "spreading C J L link c b s" by (simp add: s_def)
  have num: "numbered b" and wf: "wf_block b" using next_block by (simp_all add: comes_next_def numbered_def unat_of_nat)
  have "sound_node n" if n: "n \<in> set (ns[i := n'])" for n
  proof (cases "n = n'")
    case True
    have run: "node_run C J L n'" unfolding n' using runs ni by (auto simp: list_all_iff intro: node_more step_produce)
    show ?thesis
      unfolding True using len made(3)
      by (intro consistent_sound [OF node_run_consistent [OF run]]) (simp add: having_def c_def)
  next
    case False
    then have "n \<in> set ns" using n set_update_subset_insert [of ns i n'] by blast
    then show ?thesis using cons all len by (intro consistent_sound) auto
  qed
  moreover have "j < length ns \<and> sound_message J m" if "(j, q, m) \<in> set (gs_flying s)" for j q m
    using routed_in [OF that [unfolded s_def gossip.simps]] announcement_sound [OF J wf num] by (auto simp: posted)
  ultimately show "sound J s" by (auto simp: sound_def s_def)
qed

text \<open>Where deliveries end, everybody who can be reached has the block.\<close>

lemma spread_ends:
  assumes J: "json_ok J" and c: "comes_next c b" and frame: "serializeMessage J (announcement J b) = Inr frame"
    and s: "spreading C J L link c b s" "sound J s" and i: "i < length (gs_nodes s)" "having c b (gs_nodes s ! i)"
    and run: "(delivery C J L link)\<^sup>*\<^sup>* s t" and rest: "\<not> (\<exists>u. delivery C J L link t u)"
    and reach: "(neighbour link (gs_nodes s))\<^sup>*\<^sup>* i j"
  shows "bc_chain (nd_chain (gs_nodes t ! j)) = c @ [b]"
proof -
  have quiet: "gs_flying t = []" using in_flight_moves deliveries_sound [OF run J s(2)] rest by blast
  note all = deliveries_spread [OF J c frame run s(1)]
  then have "neighbour link (gs_nodes t) = neighbour link (gs_nodes s)" by (intro ext same_peers(2)) simp
  then have "having c b (gs_nodes t ! j)"
    using spread_to_all [of C J L link c b t i j] all quiet reach i by simp
  then show ?thesis by (simp add: having_def)
qed

section \<open>Two sample nodes\<close>

text \<open>Two nodes of the sample network, each connected to the other by its session 7.\<close>

definition sample_link :: topology where
  "sample_link i p = (if p = 7 \<and> i < 2 then Some (1 - i, 7) else None)"

lemma sample_pair:
  obtains n :: "((string \<times> string) list, jval) node" and frame
  where "node_run demo_crypto demo_json demo_leveldb n" and "nd_storage n = None"
    and "\<exists>p. bc_consensus (nd_chain n) = Some p \<and> getProducer p (getHeight (nd_chain n)) = nd_addr n"
    and "length (bc_chain (nd_chain n)) = 1" and "peers_of n = [7]"
    and "serializeMessage demo_json \<lparr>msg_type = NEW_BLOCK, msg_payload = blockToJson demo_json
      (getLatestBlock (nd_chain (snd (produceBlock demo_crypto demo_json demo_leveldb 5 n))))\<rparr> = Inr frame"
proof -
  obtain m :: "((string \<times> string) list, jval) node" where m: "node_run demo_crypto demo_json demo_leveldb m"
      "nd_storage m = None" "\<exists>p. bc_consensus (nd_chain m) = Some p \<and> getProducer p (getHeight (nd_chain m)) = nd_addr m"
      "length (bc_chain (nd_chain m)) = 1" "nd_mempool m = newMempool" "nd_network m = freshNetwork"
    by (metis sample_node)
  let ?n = "snd (node_acceptDone demo_json (Some 7) m)"
  have "keeps (\<lambda>k. \<exists>t. k = m\<lparr>nd_network := t\<rparr>) (on_network f)" for f :: "(jval network, unit) proc"
    unfolding keeps_def by (auto simp: on_network_snd)
  from keepsD [OF keeps_network_handlers(4) [OF this, of demo_json "Some 7"], of m]
  obtain t where t: "?n = m\<lparr>nd_network := t\<rparr>" by (metis same_network)
  let ?t = "addPeer 7 (freshNetwork\<lparr>net_accepting := False\<rparr>) :: jval network"
  obtain r t' where send: "send_to demo_json 7 (getBlocksMessage demo_json (getHeight (nd_chain m))) ?t = (r, t')"
    by fastforce
  then have "net_peers t' = net_peers ?t" by (metis send_to_peers snd_conv)
  then have "net_peers t' = [7]" by (simp add: addPeer_def freshNetwork_def)
  then have peers: "peers_of ?n = [7]"
    using m(6) send by (cases r) (simp_all add: node_acceptDone_def acceptDone_def connected_def onPeerConnected_def
        on_network_def on_part_def bind_p_cases proc_simps peers_of_def startAccepting_def)
  have run: "node_run demo_crypto demo_json demo_leveldb ?n" by (rule node_more [OF m(1) step_accept])
  obtain p where p: "bc_consensus (nd_chain ?n) = Some p" "getProducer p (getHeight (nd_chain ?n)) = nd_addr ?n"
    using m(3) t by auto
  obtain b where b: "accepts demo_crypto demo_json (nd_chain ?n) b" "wf_block b"
      "blk_transactions b = getTransactionsForBlock (nd_mempool ?n) 100"
      "took demo_crypto demo_json b ?n (snd (produceBlock demo_crypto demo_json demo_leveldb 5 ?n))"
    by (rule produceBlock_took [OF node_run_consistent [OF run] p])
  have last: "getLatestBlock (nd_chain (snd (produceBlock demo_crypto demo_json demo_leveldb 5 ?n))) = b"
    using took_chain [OF b(4,1)] by (simp add: getLatestBlock_def)
  have "blk_transactions b = []"
    using b(3) m(5) t by (simp add: newMempool_def pooled_def getTransactionsForBlock_take)
  moreover have "verifyBlock demo_crypto demo_json b" using b(1) by (simp add: accepts_def)
  ultimately have small: "length (enc (blockToJson demo_json b)) < 1000" by (intro demo_block_text_small b(2) demo_signature_length)
  let ?m = "announcement demo_json b"
  have plain: "json_plain demo_json (msg_payload ?m)" by (simp add: announcement_def blockToJson_plain)
  let ?body = "j_text demo_json (envelope demo_json ?m)"
  have "messageBody demo_json ?m = Inr ?body" by (rule messageBody_text [OF demo_json_ok plain])
  moreover have len: "length ?body < 2000"
    using small by (simp add: envelope_def sent_payload_def announcement_def blockToJson_def messageTypeToString_def enc_string_def to_string_nat_step)
  ultimately have "\<exists>frame. serializeMessage demo_json ?m = Inr frame"
    using serializeMessage_frame by fastforce
  then show ?thesis using that [OF run _ _ _ peers] m(2-4) last t by (auto simp: announcement_def)
qed

section \<open>The exchange comes to rest\<close>

text \<open>C11. Forwarding cannot go round in circles: nodes joined by sessions in any way, with any
  messages in flight between them and nobody submitting or producing, exchange messages only
  finitely often, in whatever order they arrive and whichever are lost; and when none is lost they
  come to rest with nothing in flight.\<close>

theorem gossip_settles:
  assumes "json_ok J" and "sound J s"
  shows "\<not> (\<exists>f. f 0 = s \<and> (\<forall>i. gossip_step C J L link (f i) (f (Suc i)))) \<and>
     (\<exists>t. (delivery C J L link)\<^sup>*\<^sup>* s t \<and> gs_flying t = [])"
  using no_endless_gossip [OF assms] deliveries_rest [OF assms finite_hashes_in order_refl] by blast

theorem gossip_settles_witness:
  "\<exists>(n :: ((string \<times> string) list, jval) node) m. msg_type m = GET_BLOCKS \<and> (\<exists>t.
     (delivery demo_crypto demo_json demo_leveldb sample_link)\<^sup>*\<^sup>* \<lparr>gs_nodes = [n, n], gs_flying = [(1, 7, m)]\<rparr> t \<and>
     gs_flying t = [])"
proof -
  obtain n :: "((string \<times> string) list, jval) node" where n: "node_run demo_crypto demo_json demo_leveldb n"
      "length (bc_chain (nd_chain n)) = 1"
    by (metis sample_pair)
  let ?m = "getBlocksMessage demo_json 0"
  have "sound_node n" using n(2) by (intro consistent_sound [OF node_run_consistent [OF n(1)]]) simp
  then have "sound demo_json \<lparr>gs_nodes = [n, n], gs_flying = [(1, 7, ?m)]\<rparr>"
    by (simp add: sound_def sound_message_def carries_def getBlocksMessage_def)
  from gossip_settles [OF demo_json_ok this, of demo_crypto demo_leveldb sample_link] show ?thesis
    by (intro exI [of _ n] exI [of _ ?m]) (simp add: getBlocksMessage_def)
qed

text \<open>C5. A block floods the network: nodes in use hold the same chain under the same schedule, in
  memory or on databases that do not fail; the one whose turn it is produces; its announcement fits
  a message. Then the deliveries end, and wherever they end, whatever the order, every node that
  sessions lead to holds the producer's chain.\<close>

theorem produced_block_floods:
  assumes "list_all (node_run C J L) ns" and "json_ok J" and "i < length ns"
    and "bc_consensus (nd_chain (ns ! i)) = Some p" and "getProducer p (getHeight (nd_chain (ns ! i))) = nd_addr (ns ! i)"
    and "\<forall>n\<in>set ns. bc_chain (nd_chain n) = bc_chain (nd_chain (ns ! i)) \<and>
           same_schedule (nd_chain n) (nd_chain (ns ! i)) \<and> store_ready L n"
    and "Suc (length (bc_chain (nd_chain (ns ! i)))) < 2 ^ 64" and "paired link ns"
    and "n' = snd (produceBlock C J L now (ns ! i))"
    and "serializeMessage J \<lparr>msg_type = NEW_BLOCK, msg_payload = blockToJson J (getLatestBlock (nd_chain n'))\<rparr> = Inr frame"
    and "s = \<lparr>gs_nodes = ns[i := n'], gs_flying = routed link (length ns) i (posted_since (ns ! i) n')\<rparr>"
  shows "length (bc_chain (nd_chain n')) = Suc (length (bc_chain (nd_chain (ns ! i)))) \<and>
     \<not> (\<exists>f. f 0 = s \<and> (\<forall>k. delivery C J L link (f k) (f (Suc k)))) \<and>
     (\<forall>t j. (delivery C J L link)\<^sup>*\<^sup>* s t \<longrightarrow> \<not> (\<exists>u. delivery C J L link t u) \<longrightarrow> (neighbour link ns)\<^sup>*\<^sup>* i j \<longrightarrow>
        bc_chain (nd_chain (gs_nodes t ! j)) = bc_chain (nd_chain n'))"
proof -
  let ?c = "bc_chain (nd_chain (ns ! i))" let ?b = "getLatestBlock (nd_chain n')"
  note start = production_spreads [OF assms(1-10), folded assms(11)]
  have n': "bc_chain (nd_chain n') = ?c @ [?b]" using start(2) by (simp add: having_def)
  have "map peers_of (ns[i := n']) = map peers_of ns"
    using start(3) assms(3) by (simp add: map_update) (metis list_update_id map_update)
  then have near: "neighbour link (gs_nodes s) = neighbour link ns" unfolding assms(11) by (intro ext same_peers(2)) simp
  have origin: "i < length (gs_nodes s)" "having ?c ?b (gs_nodes s ! i)" using assms(3) start(2) by (simp_all add: assms(11))
  note ends = spread_ends [OF assms(2) start(1) assms(10) [folded announcement_def] start(4,5) origin, unfolded near]
  have "\<not> (\<exists>f. f 0 = s \<and> (\<forall>k. delivery C J L link (f k) (f (Suc k))))"
    using no_endless_gossip [OF assms(2) start(5), of C L link] gossip_deliver [of C J L link] by blast
  then show ?thesis using ends n' by simp
qed

theorem produced_block_floods_witness:
  "\<exists>(n :: ((string \<times> string) list, jval) node) n'. length (bc_chain (nd_chain n')) = 2 \<and>
     length (bc_chain (nd_chain n)) = 1 \<and>
     (\<forall>t. (delivery demo_crypto demo_json demo_leveldb sample_link)\<^sup>*\<^sup>*
            \<lparr>gs_nodes = [n', n], gs_flying = routed sample_link 2 0 (posted_since n n')\<rparr> t \<longrightarrow>
          \<not> (\<exists>u. delivery demo_crypto demo_json demo_leveldb sample_link t u) \<longrightarrow>
          bc_chain (nd_chain (gs_nodes t ! 1)) = bc_chain (nd_chain n'))"
proof -
  obtain n :: "((string \<times> string) list, jval) node" and frame p where n: "node_run demo_crypto demo_json demo_leveldb n"
      "nd_storage n = None" "bc_consensus (nd_chain n) = Some p" "getProducer p (getHeight (nd_chain n)) = nd_addr n"
      "length (bc_chain (nd_chain n)) = 1" "peers_of n = [7]"
      "serializeMessage demo_json \<lparr>msg_type = NEW_BLOCK, msg_payload = blockToJson demo_json
        (getLatestBlock (nd_chain (snd (produceBlock demo_crypto demo_json demo_leveldb 5 n))))\<rparr> = Inr frame"
    by (metis sample_pair)
  let ?n' = "snd (produceBlock demo_crypto demo_json demo_leveldb 5 n)"
  have pairs: "paired sample_link [n, n]"
    by (auto simp: paired_def n(6) sample_link_def nth_Cons less_Suc_eq split: nat.splits)
  have near: "(neighbour sample_link [n, n])\<^sup>*\<^sup>* 0 1"
    by (intro r_into_rtranclp) (simp add: neighbour_def n(6) sample_link_def)
  have runs: "list_all (node_run demo_crypto demo_json demo_leveldb) [n, n]" using n(1) by simp
  have same: "\<forall>m\<in>set [n, n]. bc_chain (nd_chain m) = bc_chain (nd_chain ([n, n] ! 0)) \<and>
      same_schedule (nd_chain m) (nd_chain ([n, n] ! 0)) \<and> store_ready demo_leveldb m"
    using n(2) by (simp add: same_schedule_def store_ready_def)
  have len: "Suc (length (bc_chain (nd_chain ([n, n] ! 0)))) < 2 ^ 64" using n(5) by simp
  have "length (bc_chain (nd_chain ?n')) = 2 \<and>
      (\<forall>t. (delivery demo_crypto demo_json demo_leveldb sample_link)\<^sup>*\<^sup>*
            \<lparr>gs_nodes = [?n', n], gs_flying = routed sample_link 2 0 (posted_since n ?n')\<rparr> t \<longrightarrow>
          \<not> (\<exists>u. delivery demo_crypto demo_json demo_leveldb sample_link t u) \<longrightarrow>
          bc_chain (nd_chain (gs_nodes t ! 1)) = bc_chain (nd_chain ?n'))"
    using produced_block_floods [of demo_crypto demo_json demo_leveldb "[n, n]" 0 p sample_link "snd (produceBlock demo_crypto demo_json demo_leveldb 5 ([n, n] ! 0))" 5 frame,
        OF runs demo_json_ok _ _ _ same len pairs refl _ refl] n near by (auto simp: numeral_2_eq_2)
  then show ?thesis using n(5) by blast
qed

end
