(* ===== verification/Node_Threads.thy ===== *)
theory Node_Threads
  imports Node_Facts
begin

text \<open>
  The node below the level of whole operations: its threads (the main thread that produces, the RPC
  thread, the network thread) interleave between the sections under the node's mutex. A block or a
  transaction is announced after the mutex has been given back, so announcements can be overtaken.
  \<open>calls_match\<close> shows that every interleaving decides what the calls one after the other, in
  the order in which they got the mutex, decide.
\<close>

section \<open>Sections under the mutex\<close>

text \<open>What is left to announce when the mutex is given back: a message, and the session it came from.\<close>

type_synonym 'j notice = "('j message \<times> nat option) option"

definition announce :: "'j json_api \<Rightarrow> 'a \<times> 'j notice \<Rightarrow> (('d, 'j) node, 'a) proc" where
  "announce J = (\<lambda>(x, a). case a of None \<Rightarrow> ret x
     | Some (m, except) \<Rightarrow> then_p (on_network (broadcast J m except)) (ret x))"

definition submit_locked ::
  "crypto_api \<Rightarrow> 'j json_api \<Rightarrow> transaction \<Rightarrow> (('d, 'j) node, bool \<times> 'j notice) proc" where
  "submit_locked C J tx =
     bind_p (pool_add C J tx) (\<lambda>added.
       if \<not> added
       then then_p (modify_p (\<lambda>n. n\<lparr>nd_lastError := mp_lastError (nd_mempool n)\<rparr>)) (ret (False, None))
       else ret (True, Some (\<lparr>msg_type = NEW_TX, msg_payload = transactionToJson J tx\<rparr>, None)))"

definition produce_locked ::
  "crypto_api \<Rightarrow> 'j json_api \<Rightarrow> 'd leveldb_api \<Rightarrow> u64 \<Rightarrow> (('d, 'j) node, bool \<times> 'j notice) proc" where
  "produce_locked C J L now =
     (\<lambda>n. case bc_consensus (nd_chain n) of
            None \<Rightarrow> throw (BadAccess ''null consensus'') n
          | Some consensus \<Rightarrow>
              if getProducer consensus (getHeight (nd_chain n)) \<noteq> nd_addr n then ret (False, None) n
              else
                let txs = getTransactionsForBlock (nd_mempool n) 100
                in bind_p (eval_p (\<lambda>n. createBlock C J now (nd_keys n) (getLatestBlock (nd_chain n)) txs)) (\<lambda>b.
                   bind_p (acceptBlock C J L b) (\<lambda>added.
                     if \<not> added then ret (False, None)
                     else ret (True, Some (\<lparr>msg_type = NEW_BLOCK, msg_payload = blockToJson J b\<rparr>, None)))) n)"

definition newTx_locked ::
  "crypto_api \<Rightarrow> 'j json_api \<Rightarrow> 'j \<Rightarrow> nat \<Rightarrow> (('d, 'j) node, unit \<times> 'j notice) proc" where
  "newTx_locked C J payload sender =
     bind_p (eval_p (\<lambda>_. transactionFromJson J payload)) (\<lambda>tx n.
       if contains (nd_mempool n) (tx_hash tx) then ret ((), None) n
       else bind_p (pool_add C J tx) (\<lambda>accepted.
              ret ((), if accepted then Some (\<lparr>msg_type = NEW_TX, msg_payload = payload\<rparr>, Some sender) else None)) n)"

definition newBlock_locked ::
  "crypto_api \<Rightarrow> 'j json_api \<Rightarrow> 'd leveldb_api \<Rightarrow> 'j \<Rightarrow> nat \<Rightarrow> (('d, 'j) node, unit \<times> 'j notice) proc" where
  "newBlock_locked C J L payload sender =
     bind_p (eval_p (\<lambda>_. blockFromJson J payload)) (\<lambda>b n.
       let ourHeight = getHeight (nd_chain n)
       in if ourHeight < blk_index b
          then then_p (on_network (send_to J sender (getBlocksMessage J ourHeight))) (ret ((), None)) n
          else if blk_index b < ourHeight then ret ((), None) n
          else bind_p (acceptBlock C J L b) (\<lambda>accepted.
                 ret ((), if accepted then Some (\<lparr>msg_type = NEW_BLOCK, msg_payload = payload\<rparr>, Some sender) else None)) n)"

text \<open>The other handlers announce nothing: they hold the mutex to their end, or do not need it.\<close>

definition handle_locked ::
  "crypto_api \<Rightarrow> 'j json_api \<Rightarrow> 'd leveldb_api \<Rightarrow> 'j message \<Rightarrow> nat \<Rightarrow> (('d, 'j) node, unit \<times> 'j notice) proc" where
  "handle_locked C J L msg sender =
     (case msg_type msg of
        NEW_BLOCK \<Rightarrow> newBlock_locked C J L (msg_payload msg) sender
      | NEW_TX \<Rightarrow> newTx_locked C J (msg_payload msg) sender
      | _ \<Rightarrow> then_p (handleMessage C J L msg sender) (ret ((), None)))"

text \<open>Each operation is its section followed by the announcement.\<close>

lemma bind_ext: "(\<And>x s. f x s = g x s) \<Longrightarrow> bind_p m f = bind_p m g"
  by (simp add: bind_p_def fun_eq_iff split: sum.split prod.split)

lemma bind_assoc: "bind_p (bind_p m f) g = bind_p m (\<lambda>x. bind_p (f x) g)"
  by (auto simp: bind_p_def fun_eq_iff split: sum.split prod.split)

lemma bind_ret: "bind_p (ret x) f = f x"
  by (simp add: bind_p_def ret_def fun_eq_iff)

lemma announce_simps:
  "announce J (x, None) = ret x"
  "announce J (x, Some (m, except)) = then_p (on_network (broadcast J m except)) (ret x)"
  by (simp_all add: announce_def)

lemma submitTransaction_sections: "submitTransaction C J tx = bind_p (submit_locked C J tx) (announce J)"
  unfolding submitTransaction_def submit_locked_def bind_assoc
  by (intro bind_ext) (simp add: bind_assoc then_p_def bind_ret announce_simps)

lemma produceBlock_sections:
  fixes J :: "'j json_api" and L :: "'d leveldb_api"
  shows "produceBlock C J L now = bind_p (produce_locked C J L now) (announce J)"
proof
  fix n
  show "produceBlock C J L now n = bind_p (produce_locked C J L now) (announce J) n"
  proof (cases "bc_consensus (nd_chain n)")
    case None
    then show ?thesis by (simp add: produceBlock_def produce_locked_def bind_p_cases proc_simps)
  next
    case (Some p)
    let ?make = "eval_p (\<lambda>n. createBlock C J now (nd_keys n) (getLatestBlock (nd_chain n))
      (getTransactionsForBlock (nd_mempool n) 100)) :: (('d, 'j) node, block) proc"
    have "bind_p ?make (\<lambda>b. bind_p (acceptBlock C J L b) (\<lambda>added. if \<not> added then ret False
          else then_p (on_network (broadcast J \<lparr>msg_type = NEW_BLOCK, msg_payload = blockToJson J b\<rparr> None)) (ret True))) =
        bind_p (bind_p ?make (\<lambda>b. bind_p (acceptBlock C J L b) (\<lambda>added. if \<not> added then ret (False, None)
          else ret (True, Some (\<lparr>msg_type = NEW_BLOCK, msg_payload = blockToJson J b\<rparr>, None))))) (announce J)"
      unfolding bind_assoc by (intro bind_ext) (simp add: bind_p_cases proc_simps announce_simps split: sum.split prod.split)
    then show ?thesis
      using Some by (simp add: produceBlock_def produce_locked_def bind_p_cases proc_simps announce_simps Let_def fun_eq_iff)
  qed
qed

lemma onNewTx_sections: "onNewTx C J payload sender = bind_p (newTx_locked C J payload sender) (announce J)"
  unfolding onNewTx_def newTx_locked_def bind_assoc
  by (intro bind_ext) (auto simp: bind_p_cases proc_simps announce_simps split: sum.split prod.split)

lemma onNewBlock_sections: "onNewBlock C J L payload sender = bind_p (newBlock_locked C J L payload sender) (announce J)"
  unfolding onNewBlock_def newBlock_locked_def bind_assoc
  by (intro bind_ext) (auto simp: bind_p_cases proc_simps announce_simps Let_def split: sum.split prod.split)

lemma handleMessage_sections:
  fixes J :: "'j json_api" and L :: "'d leveldb_api"
  shows "handleMessage C J L msg sender = bind_p (handle_locked C J L msg sender) (announce J)"
proof -
  have "m = bind_p (then_p m (ret ((), None))) (announce J)" for m :: "(('d, 'j) node, unit) proc"
    by (auto simp: bind_p_cases proc_simps announce_simps fun_eq_iff split: sum.split prod.split)
  from this [of "handleMessage C J L msg sender"] show ?thesis
    by (cases "msg_type msg") (simp_all add: handle_locked_def handleMessage_def onNewTx_sections onNewBlock_sections)
qed

section \<open>Sections do not look at the network\<close>

text \<open>A procedure whose outcome, and whose effect beside the network, the network does not decide.\<close>

definition blind :: "(('d, 'j) node, 'a) proc \<Rightarrow> bool" where
  "blind m \<longleftrightarrow> (\<forall>n t. \<exists>t'. m (n\<lparr>nd_network := t\<rparr>) = (fst (m n), (snd (m n))\<lparr>nd_network := t'\<rparr>))"

lemma blindI:
  "(\<And>n t. fst (m (n\<lparr>nd_network := t\<rparr>)) = fst (m n)) \<Longrightarrow>
   (\<And>n t. \<exists>t'. snd (m (n\<lparr>nd_network := t\<rparr>)) = (snd (m n))\<lparr>nd_network := t'\<rparr>) \<Longrightarrow> blind m"
  unfolding blind_def by (metis prod.collapse)

named_theorems blind_intros \<open>procedures that do not look at the network\<close>

lemma blind_ret [blind_intros]: "blind (ret x)" and blind_throw [blind_intros]: "blind (throw e)"
  by (auto simp: blind_def proc_simps)

lemma blind_eval [blind_intros]: "(\<And>n t. f (n\<lparr>nd_network := t\<rparr>) = f n) \<Longrightarrow> blind (eval_p f)"
  by (auto simp: blind_def proc_simps)

lemma blind_bind [blind_intros]:
  assumes "blind m" and "\<And>x. blind (f x)"
  shows "blind (bind_p m f)"
  unfolding blind_def
proof (intro allI)
  fix n t
  obtain t' where t': "m (n\<lparr>nd_network := t\<rparr>) = (fst (m n), (snd (m n))\<lparr>nd_network := t'\<rparr>)"
    using assms(1) unfolding blind_def by blast
  show "\<exists>t'. bind_p m f (n\<lparr>nd_network := t\<rparr>) = (fst (bind_p m f n), (snd (bind_p m f n))\<lparr>nd_network := t'\<rparr>)"
  proof (cases "m n")
    case (Pair r k)
    show ?thesis
    proof (cases r)
      case (Inl e)
      then show ?thesis using Pair t' by (auto simp: bind_p_def)
    next
      case (Inr x)
      obtain t'' where "f x (k\<lparr>nd_network := t'\<rparr>) = (fst (f x k), (snd (f x k))\<lparr>nd_network := t''\<rparr>)"
        using assms(2) unfolding blind_def by blast
      then show ?thesis using Pair Inr t' by (auto simp: bind_p_def)
    qed
  qed
qed

lemma blind_then [blind_intros]: "blind m \<Longrightarrow> blind k \<Longrightarrow> blind (then_p m k)"
  unfolding then_p_def by (rule blind_bind)

lemma blind_for [blind_intros]: "(\<And>x. blind (body x)) \<Longrightarrow> blind (for_p xs body)"
  by (induction xs) (simp_all add: blind_ret blind_then)

lemma blind_if [blind_intros]: "(b \<Longrightarrow> blind m) \<Longrightarrow> (\<not> b \<Longrightarrow> blind k) \<Longrightarrow> blind (if b then m else k)"
  by simp

lemma blind_here:
  assumes "\<And>n. blind (F n)" and "\<And>n t. F (n\<lparr>nd_network := t\<rparr>) = F n"
  shows "blind (\<lambda>n. F n n)"
  using assms(1) unfolding blind_def assms(2) by blast

lemma blind_modify [blind_intros]:
  "(\<And>n t. h (n\<lparr>nd_network := t\<rparr>) = (h n)\<lparr>nd_network := t\<rparr>) \<Longrightarrow> blind (modify_p h)"
  by (auto simp: blind_def proc_simps)

lemma blind_send [blind_intros]: "blind (on_network (send_to J p m))"
proof (rule blindI)
  fix n t
  show "fst (on_network (send_to J p m) (n\<lparr>nd_network := t\<rparr>)) = fst (on_network (send_to J p m) n)"
    by (cases "serializeMessage J m")
      (simp_all add: on_network_def on_part_def send_to_def bind_p_cases proc_simps)
  show "\<exists>t'. snd (on_network (send_to J p m) (n\<lparr>nd_network := t\<rparr>)) = (snd (on_network (send_to J p m) n))\<lparr>nd_network := t'\<rparr>"
    by (auto simp: on_network_def on_part_def split: prod.split)
qed

lemma blind_when [blind_intros]:
  "(\<And>n t. P (n\<lparr>nd_network := t\<rparr>) = P n) \<Longrightarrow> blind m \<Longrightarrow> blind k \<Longrightarrow> blind (\<lambda>n. if P n then m n else k n)"
  by (simp add: blind_def)

lemma blind_option [blind_intros]:
  "(\<And>n t. g (n\<lparr>nd_network := t\<rparr>) = g n) \<Longrightarrow> blind m \<Longrightarrow> (\<And>x. blind (k x)) \<Longrightarrow>
     blind (\<lambda>n. case g n of None \<Rightarrow> m n | Some x \<Rightarrow> k x n)"
  by (simp add: blind_def split: option.split)

lemma blind_same_network:
  "(\<And>n t. m (n\<lparr>nd_network := t\<rparr>) = (fst (m n), (snd (m n))\<lparr>nd_network := t\<rparr>)) \<Longrightarrow> blind m"
  unfolding blind_def by blast

lemma blind_chain_add [blind_intros]: "blind (chain_add C J b)"
  by (rule blind_same_network) (simp add: chain_add_def case_prod_unfold)

lemma blind_state_apply [blind_intros]: "blind (state_apply b)"
  by (rule blind_same_network) (simp add: state_apply_def case_prod_unfold)

lemma blind_pool_add [blind_intros]: "blind (pool_add C J tx)"
  by (rule blind_same_network) (simp add: pool_add_def case_prod_unfold)

lemma blind_on_storage [blind_intros]: "blind (on_storage m)"
  by (rule blind_same_network) (simp add: on_storage_def case_prod_unfold split: option.split)

lemma blind_clean [blind_intros]: "blind (clean_pool C J b)"
  unfolding clean_pool_def by (intro blind_intros) simp

lemma blind_save_account [blind_intros]: "blind (save_account L J a)"
proof -
  have "blind (\<lambda>n. on_storage (saveAccountState L J a \<lparr>acc_balance = getBalance (nd_state n) a, acc_nonce = getNonce (nd_state n) a\<rparr>) n)"
    by (rule blind_here) (simp_all add: blind_on_storage)
  then show ?thesis unfolding save_account_def by (intro blind_intros) simp_all
qed

lemma blind_persist [blind_intros]: "blind (persist C J L b)"
proof -
  have "blind (\<lambda>n. on_storage (saveChainHeight L (getHeight (nd_chain n))) n)"
    by (rule blind_here) (simp_all add: blind_on_storage)
  then show ?thesis unfolding persist_def by (intro blind_intros)
qed

lemma blind_acceptBlock [blind_intros]: "blind (acceptBlock C J L b)"
  unfolding acceptBlock_def afterBlockAccepted_def by (intro blind_intros) simp

section \<open>Calls\<close>

text \<open>
  What threads ask of the node: the calls of the main thread and of the RPC server, two of the
  queries, and the arrival of a message. What a section decides is its answer, an exception
  included; an announcement that fails changes none of it.
\<close>

datatype 'j call =
    Submit transaction
  | Produce u64
  | Deliver "'j message" nat
  | Last_error
  | Balance_of address

datatype answer =
    Done
  | Verdict bool
  | Reason string
  | Amount u64

definition section_of ::
  "crypto_api \<Rightarrow> 'j json_api \<Rightarrow> 'd leveldb_api \<Rightarrow> 'j call \<Rightarrow> (('d, 'j) node, answer \<times> 'j notice) proc" where
  "section_of C J L c =
     (case c of
        Submit tx \<Rightarrow> bind_p (submit_locked C J tx) (\<lambda>(ok, a). ret (Verdict ok, a))
      | Produce now \<Rightarrow> bind_p (produce_locked C J L now) (\<lambda>(ok, a). ret (Verdict ok, a))
      | Deliver msg sender \<Rightarrow> bind_p (handle_locked C J L msg sender) (\<lambda>(u, a). ret (Done, a))
      | Last_error \<Rightarrow> read_p (\<lambda>n. (Reason (node_getLastError n), None))
      | Balance_of a \<Rightarrow> read_p (\<lambda>n. (Amount (node_getBalance n a), None)))"

definition run_call ::
  "crypto_api \<Rightarrow> 'j json_api \<Rightarrow> 'd leveldb_api \<Rightarrow> 'j call \<Rightarrow> (('d, 'j) node, answer) proc" where
  "run_call C J L c =
     (case c of
        Submit tx \<Rightarrow> bind_p (submitTransaction C J tx) (\<lambda>ok. ret (Verdict ok))
      | Produce now \<Rightarrow> bind_p (produceBlock C J L now) (\<lambda>ok. ret (Verdict ok))
      | Deliver msg sender \<Rightarrow> then_p (handleMessage C J L msg sender) (ret Done)
      | Last_error \<Rightarrow> read_p (\<lambda>n. Reason (node_getLastError n))
      | Balance_of a \<Rightarrow> read_p (\<lambda>n. Amount (node_getBalance n a)))"

lemma announce_map: "bind_p (announce J p) (\<lambda>x. ret (f x)) = announce J (f (fst p), snd p)"
  by (cases p; cases "snd p")
    (auto simp: announce_simps bind_p_cases proc_simps fun_eq_iff split: sum.split prod.split)

lemma announce_after: "bind_p (bind_p m (announce J)) (\<lambda>x. ret (f x)) = bind_p (bind_p m (\<lambda>(x, a). ret (f x, a))) (announce J)"
  unfolding bind_assoc by (intro bind_ext) (simp add: announce_map bind_ret split: prod.split)

lemma run_call_sections: "run_call C J L c = bind_p (section_of C J L c) (announce J)"
proof (cases c)
  case (Submit tx)
  then show ?thesis by (simp add: run_call_def section_of_def submitTransaction_sections announce_after)
next
  case (Produce now)
  then show ?thesis by (simp add: run_call_def section_of_def produceBlock_sections announce_after)
next
  case (Deliver msg sender)
  then show ?thesis
    by (simp add: run_call_def section_of_def handleMessage_sections then_p_def announce_after [of _ J "\<lambda>_. Done", simplified])
qed (simp_all add: run_call_def section_of_def announce_simps bind_p_cases proc_simps fun_eq_iff)

lemma blind_read [blind_intros]: "(\<And>n t. f (n\<lparr>nd_network := t\<rparr>) = f n) \<Longrightarrow> blind (read_p f)"
  by (auto simp: blind_def proc_simps)

lemma blind_submit [blind_intros]: "blind (submit_locked C J tx)"
  unfolding submit_locked_def by (intro blind_intros) simp

lemma blind_produce [blind_intros]: "blind (produce_locked C J L now)"
proof -
  have "blind (\<lambda>n. let txs = getTransactionsForBlock (nd_mempool n) 100
      in bind_p (eval_p (\<lambda>n. createBlock C J now (nd_keys n) (getLatestBlock (nd_chain n)) txs)) (\<lambda>b.
         bind_p (acceptBlock C J L b) (\<lambda>added.
           if \<not> added then ret (False, None)
           else ret (True, Some (\<lparr>msg_type = NEW_BLOCK, msg_payload = blockToJson J b\<rparr>, None)))) n)"
    unfolding Let_def by (rule blind_here) (auto intro!: blind_intros)
  then show ?thesis unfolding produce_locked_def by (intro blind_intros) simp_all
qed

lemma blind_newTx [blind_intros]: "blind (newTx_locked C J payload sender)"
  unfolding newTx_locked_def by (intro blind_intros) simp_all

lemma blind_newBlock [blind_intros]: "blind (newBlock_locked C J L payload sender)"
proof -
  have "blind (\<lambda>n. then_p (on_network (send_to J sender (getBlocksMessage J (getHeight (nd_chain n))))) (ret ((), None)) n)"
    by (rule blind_here) (simp_all add: blind_intros)
  then show ?thesis unfolding newBlock_locked_def Let_def by (intro blind_intros) simp_all
qed

lemma blind_sync [blind_intros]: "blind (sync_blocks C J L js)"
proof (induction js)
  case (Cons j js)
  then show ?case unfolding sync_blocks.simps by (intro blind_intros) simp_all
qed (simp add: blind_ret)

lemma blind_getBlocks [blind_intros]: "blind (onGetBlocks J payload sender)"
proof -
  have "blind (\<lambda>n. bind_p (eval_p (\<lambda>m. map_e (\<lambda>i. bind_e (getBlock (nd_chain m) (word_of_nat i)) (\<lambda>b. Inr (blockToJson J b)))
      [unat i..<unat (getHeight (nd_chain n))])) (\<lambda>blocks. on_network (send_to J sender (blocksMessage J blocks))) n)" for i
    by (rule blind_here) (auto intro!: blind_intros)
  then show ?thesis unfolding onGetBlocks_def Let_def by (intro blind_intros) simp_all
qed

lemma blind_handle [blind_intros]: "blind (handle_locked C J L msg sender)"
  by (cases "msg_type msg") (auto simp: handle_locked_def handleMessage_def onBlocks_def intro!: blind_intros)

lemma blind_section: "blind (section_of C J L c)"
  by (cases c) (auto simp: section_of_def node_getLastError_def node_getBalance_def split: prod.split intro!: blind_intros)

section \<open>Threads\<close>

text \<open>
  The node, the announcements whose sections are over but which have not been made, and the sections
  in the order of the mutex, with their answers. Announcements are made in any order, and the network
  changes at any time: peers come and go, sessions write.
\<close>

record ('d, 'j) threads =
  th_node :: "('d, 'j) node"
  th_notices :: "('j message \<times> nat option) list"
  th_log :: "('j call \<times> answer result) list"

definition notices :: "(answer \<times> 'j notice) result \<Rightarrow> ('j message \<times> nat option) list" where
  "notices r = (case r of Inr (x, Some a) \<Rightarrow> [a] | _ \<Rightarrow> [])"

inductive thread_step ::
  "crypto_api \<Rightarrow> 'j json_api \<Rightarrow> 'd leveldb_api \<Rightarrow> ('d, 'j) threads \<Rightarrow> ('d, 'j) threads \<Rightarrow> bool"
  for C J L where
  thread_section: "section_of C J L c (th_node s) = (r, n) \<Longrightarrow>
     thread_step C J L s (s\<lparr>th_node := n, th_notices := th_notices s @ notices r, th_log := th_log s @ [(c, map_sum id fst r)]\<rparr>)"
| thread_announce: "th_notices s = xs @ (m, except) # ys \<Longrightarrow>
     thread_step C J L s (s\<lparr>th_node := snd (on_network (broadcast J m except) (th_node s)), th_notices := xs @ ys\<rparr>)"
| thread_network: "thread_step C J L s (s\<lparr>th_node := (th_node s)\<lparr>nd_network := t\<rparr>\<rparr>)"

definition threads_run ::
  "crypto_api \<Rightarrow> 'j json_api \<Rightarrow> 'd leveldb_api \<Rightarrow> ('d, 'j) node \<Rightarrow> ('d, 'j) threads \<Rightarrow> bool" where
  "threads_run C J L n s \<longleftrightarrow> (thread_step C J L)\<^sup>*\<^sup>* \<lparr>th_node = n, th_notices = [], th_log = []\<rparr> s"

text \<open>The same calls, one after the other, each with its announcement.\<close>

fun one_by_one ::
  "crypto_api \<Rightarrow> 'j json_api \<Rightarrow> 'd leveldb_api \<Rightarrow> 'j call list \<Rightarrow> ('d, 'j) node \<Rightarrow> answer result list \<times> ('d, 'j) node" where
  "one_by_one C J L [] n = ([], n)"
| "one_by_one C J L (c # cs) n =
     (let (answers, n') = one_by_one C J L cs (snd (run_call C J L c n))
      in (map_sum id fst (fst (section_of C J L c n)) # answers, n'))"

lemma one_by_one_snoc:
  "one_by_one C J L (cs @ [c]) n =
     (fst (one_by_one C J L cs n) @ [map_sum id fst (fst (section_of C J L c (snd (one_by_one C J L cs n))))],
      snd (run_call C J L c (snd (one_by_one C J L cs n))))"
  by (induction cs arbitrary: n) (simp_all add: case_prod_unfold Let_def)

text \<open>Nodes that differ at most in their network.\<close>

definition alike :: "('d, 'j) node \<Rightarrow> ('d, 'j) node \<Rightarrow> bool" where
  "alike n m \<longleftrightarrow> n\<lparr>nd_network := freshNetwork\<rparr> = m\<lparr>nd_network := freshNetwork\<rparr>"

lemma alike_refl: "alike n n"
  by (simp add: alike_def)

lemma alike_network [simp]: "alike (n\<lparr>nd_network := t\<rparr>) m = alike n m" "alike n (m\<lparr>nd_network := t\<rparr>) = alike n m"
  by (simp_all add: alike_def)

lemma alike_swap: "alike n m \<Longrightarrow> n = m\<lparr>nd_network := nd_network n\<rparr>"
  by (cases n, cases m) (simp add: alike_def)

lemma alike_announce [simp]:
  fixes n m :: "('d, 'j) node" and p :: "'c \<times> 'j notice"
  shows "alike n (snd (announce J p m)) = alike n m"
proof -
  have "\<exists>t. snd (announce J p m) = m\<lparr>nd_network := t\<rparr>"
  proof (cases "snd p")
    case None
    then have "snd (announce J p m) = m\<lparr>nd_network := nd_network m\<rparr>"
      by (cases p) (simp add: announce_simps proc_simps)
    then show ?thesis by blast
  next
    case (Some a)
    have "snd (then_p k (ret x) m) = snd (k m)" for k :: "(('d, 'j) node, unit) proc" and x :: 'c
      by (simp add: bind_p_cases proc_simps split: sum.split prod.split)
    then have "snd (announce J p m) = snd (on_network (broadcast J (fst a) (snd a)) m)"
      using Some by (cases p; cases a) (simp add: announce_simps)
    then show ?thesis unfolding on_network_snd by blast
  qed
  then obtain t where "snd (announce J p m) = m\<lparr>nd_network := t\<rparr>" by blast
  then show ?thesis by simp
qed

lemma section_alike:
  assumes "alike n m"
  shows "fst (section_of C J L c n) = fst (section_of C J L c m)"
    and "alike (snd (section_of C J L c n)) (snd (run_call C J L c m))"
proof -
  obtain t' where t': "section_of C J L c n = (fst (section_of C J L c m), (snd (section_of C J L c m))\<lparr>nd_network := t'\<rparr>)"
    using alike_swap [OF assms] blind_section [of C J L c] unfolding blind_def by metis
  then show "fst (section_of C J L c n) = fst (section_of C J L c m)" by simp
  have "alike (snd (section_of C J L c m)) (snd (run_call C J L c m))"
    by (simp add: run_call_sections bind_p_cases alike_refl split: sum.split prod.split)
  then show "alike (snd (section_of C J L c n)) (snd (run_call C J L c m))" using t' by simp
qed

text \<open>What an interleaving has decided is what the calls one by one decide.\<close>

lemma calls_match:
  assumes "threads_run C J L n s"
  defines "m \<equiv> one_by_one C J L (map fst (th_log s)) n"
  shows "fst m = map snd (th_log s)" and "alike (th_node s) (snd m)"
proof -
  have "fst (one_by_one C J L (map fst (th_log s)) n) = map snd (th_log s) \<and>
      alike (th_node s) (snd (one_by_one C J L (map fst (th_log s)) n))"
    using assms(1) unfolding threads_run_def
  proof (induction rule: rtranclp_induct)
    case base
    then show ?case by (simp add: alike_refl)
  next
    case (step s t)
    from step.hyps(2) show ?case
    proof cases
      case (thread_section c r k)
      then show ?thesis using step.IH section_alike [of "th_node s"] by (simp add: one_by_one_snoc) (metis fst_conv snd_conv)
    next
      case (thread_announce xs m except ys)
      then show ?thesis using step.IH by (simp add: on_network_snd)
    next
      case (thread_network u)
      then show ?thesis using step.IH by simp
    qed
  qed
  then show "fst m = map snd (th_log s)" and "alike (th_node s) (snd m)" by (simp_all add: m_def)
qed

section \<open>The reason of a rejection\<close>

text \<open>Of what threads ask of the node only a rejected submission changes what \<open>getLastError\<close> reads.\<close>

definition rejection :: "'j call \<times> answer result \<Rightarrow> bool" where
  "rejection e \<longleftrightarrow> (\<exists>tx. fst e = Submit tx) \<and> snd e = Inr (Verdict False)"

lemma keeps_lastError:
  "keeps (\<lambda>n. nd_lastError n = e) (on_network m)" "keeps (\<lambda>n. nd_lastError n = e) (pool_add C J tx)"
proof -
  show "keeps (\<lambda>n. nd_lastError n = e) (on_network m)" by (simp add: keeps_def on_network_snd)
  show "keeps (\<lambda>n. nd_lastError n = e) (pool_add C J tx)" by (simp add: keeps_def pool_add_def case_prod_unfold)
qed

lemma keeps_lastError_accept: "keeps (\<lambda>n. nd_lastError n = e) (acceptBlock C J L b)"
  unfolding keeps_def
proof (intro allI impI)
  fix n :: "('a, 'b) node" assume "nd_lastError n = e"
  then show "nd_lastError (snd (acceptBlock C J L b n)) = e"
    by (cases rule: acceptBlock_cases [of C J n b L]) (simp_all add: settle_def)
qed

lemma keeps_if: "keeps I m \<Longrightarrow> keeps I k \<Longrightarrow> keeps I (\<lambda>n. if P n then m n else k n)"
  by (simp add: keeps_def)

lemmas keeps_reason = keeps_if keeps_lastError keeps_lastError_accept keeps_bind keeps_then keeps_ret keeps_eval

lemma sync_lastError: "keeps (\<lambda>n. nd_lastError n = e) (sync_blocks C J L js)"
proof (induction js)
  case (Cons j js)
  have "keeps (\<lambda>n. nd_lastError n = e) (if added then sync_blocks C J L js else ret ())" for added
    using Cons.IH by (auto intro: keeps_ret)
  then show ?case unfolding sync_blocks.simps by (intro keeps_reason Cons.IH)
qed (simp add: keeps_ret)

lemma bind_ret_snd: "snd (bind_p m (\<lambda>x. ret (f x)) n) = snd (m n)" "snd (then_p m (ret y) n) = snd (m n)"
  by (simp_all add: bind_p_cases proc_simps split: sum.split prod.split)

lemma produce_lastError: "nd_lastError (snd (produceBlock C J L now n)) = nd_lastError n"
proof -
  have "keeps (\<lambda>m. nd_lastError m = nd_lastError n) (bind_p (eval_p f) (\<lambda>b. bind_p (acceptBlock C J L b) (\<lambda>added.
      if \<not> added then ret False
      else then_p (on_network (broadcast J \<lparr>msg_type = NEW_BLOCK, msg_payload = blockToJson J b\<rparr> None)) (ret True))))" for f
    by (intro keeps_reason) (simp add: keeps_reason)
  note run = keepsD [OF this refl]
  show ?thesis by (auto simp: produceBlock_def proc_simps Let_def run split: option.split)
qed

lemma newTx_lastError: "keeps (\<lambda>n. nd_lastError n = e) (onNewTx C J payload sender)"
  unfolding onNewTx_def by (intro keeps_reason) (simp add: keeps_reason)

lemma newBlock_lastError: "keeps (\<lambda>n. nd_lastError n = e) (onNewBlock C J L payload sender)"
proof -
  have "keeps (\<lambda>n. nd_lastError n = e) (\<lambda>n. on_network (send_to J sender (getBlocksMessage J (getHeight (nd_chain n)))) n)"
    by (rule keeps_here) (rule keeps_lastError)
  then show ?thesis unfolding onNewBlock_def Let_def by (intro keeps_reason) (simp_all add: keeps_reason)
qed

lemma getBlocks_lastError: "keeps (\<lambda>n. nd_lastError n = e) (onGetBlocks J payload sender)"
proof -
  have "keeps (\<lambda>n. nd_lastError n = e) (\<lambda>n. bind_p (eval_p (\<lambda>m. map_e (\<lambda>i. bind_e (getBlock (nd_chain m) (word_of_nat i)) (\<lambda>b. Inr (blockToJson J b)))
      [unat i..<unat (getHeight (nd_chain n))])) (\<lambda>blocks. on_network (send_to J sender (blocksMessage J blocks))) n)" for i
    by (rule keeps_here) (intro keeps_reason)
  then show ?thesis unfolding onGetBlocks_def Let_def by (intro keeps_reason)
qed

lemma message_lastError: "nd_lastError (snd (handleMessage C J L msg sender n)) = nd_lastError n"
proof -
  have "keeps (\<lambda>m. nd_lastError m = nd_lastError n) (handleMessage C J L msg sender)"
    by (cases "msg_type msg")
      (auto simp: handleMessage_def onBlocks_def intro: keeps_reason sync_lastError newTx_lastError newBlock_lastError getBlocks_lastError)
  from keepsD [OF this] show ?thesis by simp
qed

text \<open>A submission, by what the pool says to it.\<close>

lemma addTransaction_forgets: "addTransaction C J s (p\<lparr>mp_lastError := e\<rparr>) tx = addTransaction C J s p tx"
  by (simp add: addTransaction_def Let_def)

lemma submit_verdict:
  "fst (section_of C J L (Submit tx) n) =
     (if fst (addTransaction C J (nd_state n) (nd_mempool n) tx)
      then Inr (Verdict True, Some (\<lparr>msg_type = NEW_TX, msg_payload = transactionToJson J tx\<rparr>, None))
      else Inr (Verdict False, None))"
  "nd_lastError (snd (run_call C J L (Submit tx) n)) =
     (if fst (addTransaction C J (nd_state n) (nd_mempool n) tx) then nd_lastError n
      else mp_lastError (snd (addTransaction C J (nd_state n) (nd_mempool n) tx)))"
proof -
  obtain ok p where add: "addTransaction C J (nd_state n) (nd_mempool n) tx = (ok, p)" by fastforce
  show "fst (section_of C J L (Submit tx) n) =
     (if fst (addTransaction C J (nd_state n) (nd_mempool n) tx)
      then Inr (Verdict True, Some (\<lparr>msg_type = NEW_TX, msg_payload = transactionToJson J tx\<rparr>, None))
      else Inr (Verdict False, None))"
    by (cases ok) (simp_all add: section_of_def submit_locked_def pool_add_def add bind_p_cases proc_simps)
  show "nd_lastError (snd (run_call C J L (Submit tx) n)) =
     (if fst (addTransaction C J (nd_state n) (nd_mempool n) tx) then nd_lastError n
      else mp_lastError (snd (addTransaction C J (nd_state n) (nd_mempool n) tx)))"
    unfolding run_call_def call.simps bind_ret_snd
    by (cases ok) (simp_all add: submitTransaction_def pool_add_def add bind_p_Inr bind_ret_snd on_network_snd,
        simp add: proc_simps)
qed

lemma submit_rejected:
  assumes "\<not> fst (addTransaction C J (nd_state n) (nd_mempool n) tx)"
  defines "e \<equiv> mp_lastError (snd (addTransaction C J (nd_state n) (nd_mempool n) tx))"
  shows "section_of C J L (Submit tx) n =
    (Inr (Verdict False, None), n\<lparr>nd_mempool := (nd_mempool n)\<lparr>mp_lastError := e\<rparr>, nd_lastError := e\<rparr>)"
proof -
  have "addTransaction C J (nd_state n) (nd_mempool n) tx = (False, (nd_mempool n)\<lparr>mp_lastError := e\<rparr>)"
    using addTransaction_reject [OF assms(1)] by (auto simp: e_def)
  then show ?thesis by (simp add: section_of_def submit_locked_def pool_add_def bind_p_cases proc_simps)
qed

lemma call_lastError:
  assumes "\<not> rejection (c, map_sum id fst (fst (section_of C J L c n)))"
  shows "nd_lastError (snd (run_call C J L c n)) = nd_lastError n"
proof (cases c)
  case (Submit tx)
  then show ?thesis using assms by (auto simp: submit_verdict rejection_def)
next
  case (Produce now)
  then show ?thesis
    by (simp add: run_call_def bind_ret_snd produce_lastError)
next
  case (Deliver msg sender)
  then show ?thesis
    by (simp add: run_call_def bind_ret_snd message_lastError)
qed (simp_all add: run_call_def proc_simps)

lemma calls_lastError:
  "\<forall>e\<in>set (zip cs (fst (one_by_one C J L cs n))). \<not> rejection e \<Longrightarrow>
     nd_lastError (snd (one_by_one C J L cs n)) = nd_lastError n"
  by (induction cs arbitrary: n) (simp_all add: case_prod_unfold Let_def call_lastError)

end
