(* ===== verification/Thread_Properties.thy ===== *)
theory Thread_Properties
  imports Node_Threads Node_Properties
begin

text \<open>
  The node's threads: every interleaving decides what the calls one after the other decide, and
  leaves the node consistent; but the reason a client is told for a rejection can be another's.
\<close>

text \<open>Calls whose transactions have the sizes of their types and do not wrap the nonce round.\<close>

definition fit_call :: "'j json_api \<Rightarrow> 'j call \<Rightarrow> bool" where
  "fit_call J c =
     (case c of
        Submit tx \<Rightarrow> wf_transaction tx \<and> tx_nonce tx \<noteq> - 1
      | Deliver msg sender \<Rightarrow> fit_message J msg
      | _ \<Rightarrow> True)"

lemma run_call_node:
  "snd (run_call C J L (Submit tx) n) = snd (submitTransaction C J tx n)"
  "snd (run_call C J L (Produce now) n) = snd (produceBlock C J L now n)"
  "snd (run_call C J L (Deliver msg sender) n) = snd (handleMessage C J L msg sender n)"
  "snd (run_call C J L Last_error n) = n"
  "snd (run_call C J L (Balance_of a) n) = n"
  by (simp_all add: run_call_def proc_simps bind_p_cases split: sum.split prod.split)

lemma run_call_runs:
  assumes "node_run C J L n" and "fit_call J c"
  shows "node_run C J L (snd (run_call C J L c n))"
  using assms by (cases c) (auto simp: fit_call_def run_call_node intro: node_more step_submit step_produce step_message)

lemma one_by_one_runs:
  "node_run C J L n \<Longrightarrow> list_all (fit_call J) cs \<Longrightarrow> node_run C J L (snd (one_by_one C J L cs n))"
  by (induction cs arbitrary: n) (auto simp: case_prod_unfold Let_def intro: run_call_runs)

section \<open>Interleavings\<close>

text \<open>C6. Calls on a node are atomic although they announce outside the mutex: however the threads
  interleave, announcements and the network's own changes in between, the answers decided are those
  of the same calls made one after the other in the order in which they got the mutex, each with its
  announcement, and the node that results is the same but for its network; so a node in use stays
  consistent.\<close>

theorem calls_serialised:
  assumes "threads_run C J L n s"
  shows "\<exists>m. one_by_one C J L (map fst (th_log s)) n = (map snd (th_log s), m) \<and>
     th_node s = m\<lparr>nd_network := nd_network (th_node s)\<rparr> \<and>
     (node_run C J L n \<longrightarrow> list_all (fit_call J) (map fst (th_log s)) \<longrightarrow>
        node_run C J L m \<and> node_isChainValid C J (th_node s) \<and>
        st_accounts (nd_state (th_node s)) = replay (genesis_accounts (th_node s)) (tl (bc_chain (nd_chain (th_node s)))))"
proof -
  let ?m = "snd (one_by_one C J L (map fst (th_log s)) n)"
  note match = calls_match [OF assms]
  have same: "th_node s = ?m\<lparr>nd_network := nd_network (th_node s)\<rparr>" by (rule alike_swap [OF match(2)])
  have "consistent C J (th_node s)" if "node_run C J L ?m"
    using keepsD [OF consistency.network node_run_consistent [OF that]]
    by (subst same) (use node_run_consistent [OF that] in \<open>simp add: consistent_def\<close>)
  then have "node_isChainValid C J (th_node s)"
      "st_accounts (nd_state (th_node s)) = replay (genesis_accounts (th_node s)) (tl (bc_chain (nd_chain (th_node s))))"
    if "node_run C J L ?m"
    using that consistentD(3,5) by (auto simp: node_isChainValid_def validateChain_valid_blocks chain_inv_def)
  moreover have "one_by_one C J L (map fst (th_log s)) n = (map snd (th_log s), ?m)"
    using match(1) by (metis prod.collapse)
  ultimately show ?thesis using same one_by_one_runs by (intro exI [of _ ?m]) blast
qed

text \<open>A submission, a block and a question, whose announcements nobody has made yet.\<close>

theorem calls_serialised_witness:
  "\<exists>(n :: ((string \<times> string) list, jval) node) s. threads_run demo_crypto demo_json demo_leveldb n s \<and>
     map fst (th_log s) = [Submit (sample_tx 1 0), Produce 5, Last_error] \<and>
     fst (one_by_one demo_crypto demo_json demo_leveldb [Submit (sample_tx 1 0), Produce 5, Last_error] n) = map snd (th_log s) \<and>
     node_isChainValid demo_crypto demo_json (th_node s)"
proof -
  let ?section = "section_of demo_crypto demo_json demo_leveldb"
  obtain n :: "((string \<times> string) list, jval) node" where n: "node_run demo_crypto demo_json demo_leveldb n"
    by (rule sample_node)
  have "\<exists>s'. thread_step demo_crypto demo_json demo_leveldb s s' \<and> map fst (th_log s') = map fst (th_log s) @ [c]"
    for s :: "((string \<times> string) list, jval) threads" and c
  proof -
    obtain r k where "?section c (th_node s) = (r, k)" by fastforce
    from thread_section [OF this] show ?thesis by fastforce
  qed
  note more = this
  let ?s = "\<lparr>th_node = n, th_notices = [], th_log = []\<rparr>"
  obtain a where a: "thread_step demo_crypto demo_json demo_leveldb ?s a" "map fst (th_log a) = [Submit (sample_tx 1 0)]"
    using more [of ?s "Submit (sample_tx 1 0)"] by auto
  obtain b where b: "thread_step demo_crypto demo_json demo_leveldb a b" "map fst (th_log b) = [Submit (sample_tx 1 0), Produce 5]"
    using more [of a "Produce 5"] a(2) by auto
  obtain c where c: "thread_step demo_crypto demo_json demo_leveldb b c"
      "map fst (th_log c) = [Submit (sample_tx 1 0), Produce 5, Last_error]"
    using more [of b Last_error] b(2) by auto
  have run: "threads_run demo_crypto demo_json demo_leveldb n c"
    unfolding threads_run_def using a(1) b(1) c(1) by (auto intro: rtranclp.rtrancl_into_rtrancl)
  have fit: "list_all (fit_call demo_json) (map fst (th_log c))"
    unfolding c(2) by (simp add: fit_call_def sample_tx_def wf_transaction_def sized_def sample_bob_def sample_keys_def)
  obtain m where m: "one_by_one demo_crypto demo_json demo_leveldb (map fst (th_log c)) n = (map snd (th_log c), m)"
      "node_isChainValid demo_crypto demo_json (th_node c)"
    using calls_serialised [OF run] n fit by blast
  have "fst (one_by_one demo_crypto demo_json demo_leveldb [Submit (sample_tx 1 0), Produce 5, Last_error] n) = map snd (th_log c)"
    using m(1) unfolding c(2) by simp
  then show ?thesis using run c(2) m(2) by (intro exI [of _ n] exI [of _ c]) simp
qed

text \<open>C26. The reason a client is told: asking after its submission was rejected tells it the
  pool's own reason, whatever else threads did in between, as long as no other submission was rejected
  there; but a submission and the question are two calls, and when another thread's rejected
  submission comes in between, the first client is told the other's reason.\<close>

theorem rejection_reason_crosses:
  assumes "\<not> fst (addTransaction C J (nd_state n) (nd_mempool n) tx)"
    and "\<not> fst (addTransaction C J (nd_state n) (nd_mempool n) tx')"
  shows "(\<forall>s between told. threads_run C J L n s \<longrightarrow>
       th_log s = (Submit tx, Inr (Verdict False)) # between @ [(Last_error, told)] \<longrightarrow>
       (\<forall>e\<in>set between. \<not> rejection e) \<longrightarrow>
       told = Inr (Reason (mp_lastError (snd (addTransaction C J (nd_state n) (nd_mempool n) tx))))) \<and>
     (\<exists>s. threads_run C J L n s \<and>
       th_log s = [(Submit tx, Inr (Verdict False)), (Submit tx', Inr (Verdict False)),
         (Last_error, Inr (Reason (mp_lastError (snd (addTransaction C J (nd_state n) (nd_mempool n) tx')))))])"
proof (intro conjI allI impI)
  let ?reason = "\<lambda>t. mp_lastError (snd (addTransaction C J (nd_state n) (nd_mempool n) t))"
  fix s between told
  assume run: "threads_run C J L n s" and no: "\<forall>e\<in>set between. \<not> rejection e"
    and log: "th_log s = (Submit tx, Inr (Verdict False)) # between @ [(Last_error, told)]"
  let ?m = "snd (run_call C J L (Submit tx) n)"
  have "fst (one_by_one C J L (map fst between @ [Last_error]) ?m) = map snd between @ [told]"
    using calls_match(1) [OF run] by (simp add: log case_prod_unfold Let_def)
  then have "fst (one_by_one C J L (map fst between) ?m) = map snd between"
    and told: "told = Inr (Reason (nd_lastError (snd (one_by_one C J L (map fst between) ?m))))"
    by (simp_all add: one_by_one_snoc section_of_def proc_simps node_getLastError_def)
  then have "nd_lastError (snd (one_by_one C J L (map fst between) ?m)) = nd_lastError ?m"
    using no by (intro calls_lastError) (simp add: zip_map_fst_snd)
  then show "told = Inr (Reason (?reason tx))" using assms(1) told by (simp add: submit_verdict)
next
  let ?reason = "\<lambda>t. mp_lastError (snd (addTransaction C J (nd_state n) (nd_mempool n) t))"
  let ?refused = "\<lambda>e. n\<lparr>nd_mempool := (nd_mempool n)\<lparr>mp_lastError := e\<rparr>, nd_lastError := e\<rparr>"
  let ?s = "\<lambda>k log. \<lparr>th_node = k, th_notices = [], th_log = log\<rparr>"
  have step: "thread_step C J L (?s k log) (?s k' (log @ [(c, Inr r)]))"
    if "section_of C J L c k = (Inr (r, None), k')" for c k r k' log
    using thread_section [of C J L c "?s k log" "Inr (r, None)" k'] that by (simp add: notices_def)
  have first: "section_of C J L (Submit tx) n = (Inr (Verdict False, None), ?refused (?reason tx))"
    by (rule submit_rejected [OF assms(1)])
  have second: "section_of C J L (Submit tx') (?refused (?reason tx)) = (Inr (Verdict False, None), ?refused (?reason tx'))"
    using submit_rejected [of C J "?refused (?reason tx)" tx' L] assms(2) by (simp add: addTransaction_forgets)
  have third: "section_of C J L Last_error (?refused e) = (Inr (Reason e, None), ?refused e)" for e
    by (simp add: section_of_def proc_simps node_getLastError_def)
  let ?log = "[(Submit tx, Inr (Verdict False)), (Submit tx', Inr (Verdict False)), (Last_error, Inr (Reason (?reason tx')))]"
  have "threads_run C J L n (?s (?refused (?reason tx')) ?log)"
    using step [OF first, of "[]"] step [OF second, of "take 1 ?log"] step [OF third, of "?reason tx'" "take 2 ?log"]
    unfolding threads_run_def by (simp add: numeral_2_eq_2 rtranclp.rtrancl_into_rtrancl)
  then show "\<exists>s. threads_run C J L n s \<and> th_log s = ?log" by (rule exI [where x = "?s _ _", OF conjI]) simp
qed

text \<open>A transaction without a signature, then one that comes too late.\<close>

theorem rejection_reason_crosses_witness:
  "\<exists>(n :: ((string \<times> string) list, jval) node) tx tx'.
     (\<forall>s told. threads_run demo_crypto demo_json demo_leveldb n s \<longrightarrow>
       th_log s = [(Submit tx, Inr (Verdict False)), (Last_error, told)] \<longrightarrow>
       told = Inr (Reason ''Invalid transaction signature'')) \<and>
     (\<exists>s. threads_run demo_crypto demo_json demo_leveldb n s \<and>
       th_log s = [(Submit tx, Inr (Verdict False)), (Submit tx', Inr (Verdict False)),
         (Last_error, Inr (Reason ''Wrong nonce: expected 0, got 7''))])"
proof -
  obtain n :: "((string \<times> string) list, jval) node" where n: "nd_mempool n = newMempool"
      "st_accounts (nd_state n) = st_accounts sample_state"
    by (rule sample_node)
  obtain tx' where tx': "createTransaction demo_crypto demo_json 5 sample_keys sample_bob 30 7 = Inr tx'"
    using createTransaction_total [OF demo_crypto_ok sample_keys_ok] by blast
  have good: "verifyTransaction demo_crypto demo_json tx'" "tx_sender tx' = sample_alice" "tx_nonce tx' = 7"
    using createTransaction_verifies [OF demo_crypto_ok sample_keys_ok tx'] createTransaction_Inr(1) [OF tx']
    by (simp_all add: signable_def sample_alice_def)
  let ?tx = "sample_tx 1 0"
  have bad: "\<not> verifyTransaction demo_crypto demo_json ?tx"
    by (auto simp: verifyTransaction_def sample_tx_def dest: verify_length)
  let ?add = "addTransaction demo_crypto demo_json (nd_state n) (nd_mempool n)"
  have first: "\<not> fst (?add ?tx)" "mp_lastError (snd (?add ?tx)) = ''Invalid transaction signature''"
    using bad by (simp_all add: addTransaction_def)
  have digits: "digit_char 0 = CHR ''0''" "digit_char 7 = CHR ''7''" by code_simp+
  have "?add tx' = (False, newMempool\<lparr>mp_lastError := ''Wrong nonce: expected 0, got 7''\<rparr>)"
    using good n by (simp add: addTransaction_def newMempool_def accountExists_def getNonce_def sample_state_accounts
        Let_def to_string_def to_string_nat_step digits)
  then have second: "\<not> fst (?add tx')" "mp_lastError (snd (?add tx')) = ''Wrong nonce: expected 0, got 7''" by simp_all
  note crosses = rejection_reason_crosses [OF first(1) second(1), of demo_leveldb, unfolded first(2) second(2)]
  have "told = Inr (Reason ''Invalid transaction signature'')"
    if "threads_run demo_crypto demo_json demo_leveldb n s"
      and "th_log s = [(Submit ?tx, Inr (Verdict False)), (Last_error, told)]" for s told
    using crosses [THEN conjunct1, rule_format, OF that(1), of "[]" told] that(2) by simp
  then show ?thesis using crosses [THEN conjunct2] by blast
qed

end
