(* ===== verification/Recovery_Properties.thy ===== *)
theory Recovery_Properties
  imports Node_Properties
begin

text \<open>
  Recovery from any database, whole or damaged: what \<open>recoverFromStorage\<close> takes over, where it
  stops, and which reads make the construction of a node fail.
\<close>

section \<open>The replay loop\<close>

text \<open>The stored record of a height does not continue a chain: it is missing, or the chain rejects it.\<close>

definition breaks_off :: "crypto_api \<Rightarrow> 'j json_api \<Rightarrow> 'd leveldb_api \<Rightarrow> 'd storage \<Rightarrow> nat \<Rightarrow> blockchain \<Rightarrow> bool" where
  "breaks_off C J L s i c \<longleftrightarrow>
     (case loadBlock L J (word_of_nat i) s of
        Inl e \<Rightarrow> False
      | Inr None \<Rightarrow> True
      | Inr (Some b) \<Rightarrow> \<not> fst (addBlock C J c b))"

lemma load_at:
  "nd_storage n = Some s \<Longrightarrow> on_storage (eval_p (loadBlock L J i)) n = (loadBlock L J i s, n)"
  by (cases "loadBlock L J i s") (simp_all add: on_storage_def proc_simps)

lemma rejected_same:
  "\<not> accepts C J c b \<Longrightarrow> bc_chain (snd (addBlock C J c b)) = bc_chain c"
  "fst (addBlock C J (snd (addBlock C J c b)) b') = accepts C J (snd (addBlock C J c b)) b'"
  "same_schedule (snd (addBlock C J c b)) c"
  by (simp_all add: addBlock_chain addBlock_fst same_schedule_def addBlock_authorities)

lemma replay_outcome:
  assumes "nd_storage n = Some s" and "replay_stored C J L [length (bc_chain (nd_chain n))..<h] n = (r, n')"
  shows "\<exists>rest. bc_chain (nd_chain n') = bc_chain (nd_chain n) @ rest \<and> nd_storage n' = Some s \<and>
    (\<forall>i<length rest. loadBlock L J (word_of_nat (length (bc_chain (nd_chain n)) + i)) s = Inr (Some (rest ! i))) \<and>
    (case r of
       Inl e \<Rightarrow> length (bc_chain (nd_chain n')) < h \<and> loadBlock L J (word_of_nat (length (bc_chain (nd_chain n')))) s = Inl e
     | Inr u \<Rightarrow> length (bc_chain (nd_chain n')) \<le> max (length (bc_chain (nd_chain n))) h \<and>
         (length (bc_chain (nd_chain n')) < h \<longrightarrow> breaks_off C J L s (length (bc_chain (nd_chain n'))) (nd_chain n')))"
  using assms
proof (induction "h - length (bc_chain (nd_chain n))" arbitrary: n)
  case 0
  then show ?case by (auto simp: proc_simps)
next
  case (Suc d)
  let ?k = "length (bc_chain (nd_chain n))"
  have less: "?k < h" and upt: "[?k..<h] = ?k # [Suc ?k..<h]" using Suc.hyps(2) by (simp_all add: upt_conv_Cons)
  note run = Suc.prems(2) [unfolded upt replay_stored.simps bind_p_cases load_at [OF Suc.prems(1)]]
  show ?case
  proof (cases "loadBlock L J (word_of_nat ?k) s")
    case (Inl e)
    then show ?thesis using run Suc.prems(1) less by auto
  next
    case (Inr found)
    show ?thesis
    proof (cases found)
      case None
      then show ?thesis using run Inr Suc.prems(1) less by (auto simp: proc_simps breaks_off_def)
    next
      case (Some b)
      have run': "bind_p (chain_add C J b) (\<lambda>added. if \<not> added then ret () else then_p (state_apply b)
          (replay_stored C J L [Suc ?k..<h])) n = (r, n')"
        using run Inr Some by (simp add: bind_p_cases)
      show ?thesis
      proof (cases "accepts C J (nd_chain n) b")
        case False
        let ?c = "snd (addBlock C J (nd_chain n) b)"
        have n': "n' = n\<lparr>nd_chain := ?c\<rparr>" "r = Inr ()" using run' False by (simp_all add: replay_block_run)
        have "\<not> fst (addBlock C J ?c b)"
          using False accepts_cong [OF rejected_same(3) rejected_same(1) [OF False], of C J b] by (simp add: rejected_same(2))
        then show ?thesis
          using Suc.prems(1) Inr Some less by (simp add: n' rejected_same(1) [OF False] breaks_off_def)
      next
        case True
        let ?n = "replay_step C J b n"
        have chain: "bc_chain (nd_chain ?n) = bc_chain (nd_chain n) @ [b]" using True by (simp add: replay_step_def addBlock_chain)
        have "d = h - length (bc_chain (nd_chain ?n))" using Suc.hyps(2) by (simp add: chain)
        moreover have "nd_storage ?n = Some s" using Suc.prems(1) by (simp add: replay_step_def)
        moreover have "replay_stored C J L [length (bc_chain (nd_chain ?n))..<h] ?n = (r, n')"
          using run' True by (simp add: replay_block_run chain del: upt_Suc)
        ultimately obtain rest where rest: "bc_chain (nd_chain n') = bc_chain (nd_chain ?n) @ rest" "nd_storage n' = Some s"
            "\<forall>i<length rest. loadBlock L J (word_of_nat (length (bc_chain (nd_chain ?n)) + i)) s = Inr (Some (rest ! i))"
            "case r of
               Inl e \<Rightarrow> length (bc_chain (nd_chain n')) < h \<and> loadBlock L J (word_of_nat (length (bc_chain (nd_chain n')))) s = Inl e
             | Inr u \<Rightarrow> length (bc_chain (nd_chain n')) \<le> max (length (bc_chain (nd_chain ?n))) h \<and>
                 (length (bc_chain (nd_chain n')) < h \<longrightarrow> breaks_off C J L s (length (bc_chain (nd_chain n'))) (nd_chain n'))"
          using Suc.hyps(1) by blast
        have "loadBlock L J (word_of_nat (?k + i)) s = Inr (Some ((b # rest) ! i))" if "i < length (b # rest)" for i
          using that rest(3) Inr Some by (cases i) (simp_all add: chain)
        then show ?thesis
          using rest(1,2,4) less by (intro exI [of _ "b # rest"]) (auto simp: chain split: sum.splits)
      qed
    qed
  qed
qed

section \<open>Construction on any database\<close>

lemma recover_outcome:
  assumes "nd_storage n = Some s" and "length (bc_chain (nd_chain n)) = 1" and "recoverFromStorage C J L n = (r, n')"
  shows "(r = Inl e \<longrightarrow> loadChainHeight L s = Inl e \<or>
       (\<exists>h i. loadChainHeight L s = Inr h \<and> 0 < i \<and> i < unat h \<and> loadBlock L J (word_of_nat i) s = Inl e \<and>
          (\<forall>j. 0 < j \<and> j < i \<longrightarrow> (\<exists>b. loadBlock L J (word_of_nat j) s = Inr (Some b))))) \<and>
    (r = Inr u \<longrightarrow> (\<exists>h. loadChainHeight L s = Inr h \<and>
       (\<forall>i. 0 < i \<and> i < length (bc_chain (nd_chain n')) \<longrightarrow>
          loadBlock L J (word_of_nat i) s = Inr (Some (bc_chain (nd_chain n') ! i))) \<and>
       length (bc_chain (nd_chain n')) \<le> max 1 (unat h) \<and>
       (length (bc_chain (nd_chain n')) < unat h \<longrightarrow>
          breaks_off C J L s (length (bc_chain (nd_chain n'))) (nd_chain n'))))"
proof (cases "loadChainHeight L s")
  case (Inl x)
  then show ?thesis using assms by (auto simp: recoverFromStorage_def bind_p_cases on_storage_def proc_simps)
next
  case (Inr h)
  have same: "n\<lparr>nd_storage := Some s\<rparr> = n" using assms(1) by (cases n) simp
  have run: "(if h \<le> 1 then ret () else replay_stored C J L [1..<unat h]) n = (r, n')"
    using assms(1,3) Inr by (simp add: recoverFromStorage_def bind_p_cases on_storage_def proc_simps same)
  show ?thesis
  proof (cases "h \<le> 1")
    case True
    then have "unat h \<le> 1" using word_le_nat_alt [of h 1] by simp
    then show ?thesis using True run assms(1,2) Inr by (auto simp: proc_simps)
  next
    case False
    then have more: "1 < unat h" using word_less_nat_alt [of 1 h] by (simp add: not_le)
    obtain g where g: "bc_chain (nd_chain n) = [g]" using assms(2) by (cases "bc_chain (nd_chain n)") auto
    have "replay_stored C J L [length (bc_chain (nd_chain n))..<unat h] n = (r, n')" using run False assms(2) by simp
    from replay_outcome [OF assms(1) this, unfolded g]
    obtain rest where rest: "bc_chain (nd_chain n') = g # rest" "nd_storage n' = Some s"
        "\<forall>i<length rest. loadBlock L J (word_of_nat (Suc i)) s = Inr (Some (rest ! i))"
        "case r of
           Inl e \<Rightarrow> length (bc_chain (nd_chain n')) < unat h \<and> loadBlock L J (word_of_nat (length (bc_chain (nd_chain n')))) s = Inl e
         | Inr u \<Rightarrow> length (bc_chain (nd_chain n')) \<le> max 1 (unat h) \<and>
             (length (bc_chain (nd_chain n')) < unat h \<longrightarrow> breaks_off C J L s (length (bc_chain (nd_chain n'))) (nd_chain n'))"
      by (auto split: sum.splits)
    have loaded: "loadBlock L J (word_of_nat i) s = Inr (Some (bc_chain (nd_chain n') ! i))"
      if i: "0 < i" "i < length (bc_chain (nd_chain n'))" for i
      using i rest(3) by (cases i) (simp_all add: rest(1))
    show ?thesis
    proof (cases r)
      case failed: (Inl e')
      then have "0 < length (bc_chain (nd_chain n')) \<and> length (bc_chain (nd_chain n')) < unat h \<and>
          loadBlock L J (word_of_nat (length (bc_chain (nd_chain n')))) s = Inl e'"
        using rest(1,4) by simp
      then show ?thesis using failed Inr loaded by blast
    next
      case ok: (Inr v)
      then show ?thesis using rest(2,4) Inr loaded by auto
    qed
  qed
qed

text \<open>C10. Recovery from any database, whole or damaged: whatever the files hold, a node whose database
  opens either is refused because its listening port cannot be opened, or because the height or a block below it cannot be read, all blocks before it
  being there; or it starts with a consistent chain made of the genesis block and the stored blocks
  1, 2, \dots, stopping before the stored height only where the next block is missing or is not one
  the chain accepts.\<close>

theorem recovery_of_any_store:
  assumes "crypto_ok C" and "key_pair_ok C keys" and "key_pair_ok C gkeys" and "auths \<noteq> []" and "dataDir \<noteq> []"
    and "newStorage L dataDir files = Inr s"
  shows "case newNode C J L P keys gkeys auths allocs port dataDir files of
       Inl e \<Rightarrow> (\<exists>reason. P port = Some reason \<and> e = RuntimeError reason) \<or> loadChainHeight L s = Inl e \<or>
         (\<exists>h i. loadChainHeight L s = Inr h \<and> 0 < i \<and> i < unat h \<and> loadBlock L J (word_of_nat i) s = Inl e \<and>
            (\<forall>j. 0 < j \<and> j < i \<longrightarrow> (\<exists>b. loadBlock L J (word_of_nat j) s = Inr (Some b))))
     | Inr n \<Rightarrow> P port = None \<and> node_isChainValid C J n \<and>
         st_accounts (nd_state n) = replay (genesis_accounts n) (tl (bc_chain (nd_chain n))) \<and>
         (\<exists>h. loadChainHeight L s = Inr h \<and>
            (\<forall>i. 0 < i \<and> i < length (bc_chain (nd_chain n)) \<longrightarrow>
               loadBlock L J (word_of_nat i) s = Inr (Some (bc_chain (nd_chain n) ! i))) \<and>
            length (bc_chain (nd_chain n)) \<le> max 1 (unat h) \<and>
            (length (bc_chain (nd_chain n)) < unat h \<longrightarrow>
               breaks_off C J L s (length (bc_chain (nd_chain n))) (nd_chain n)))"
proof -
  obtain p where p: "newPoAConsensus auths = Inr p" using assms(4) by (simp add: newPoAConsensus_def)
  obtain c where c: "newBlockchainPoA C J gkeys p = Inr c"
    using newBlockchainPoA_total [OF assms(1,3)] by blast
  obtain g where g: "bc_chain c = [g]" using newBlockchainPoA_chain [OF c] by blast
  let ?n = "(blank_node C keys c allocs)\<lparr>nd_storage := Some s\<rparr>"
  obtain r n' where run: "recoverFromStorage C J L ?n = (r, n')" by fastforce
  have new: "assembleNode C J L keys gkeys auths allocs dataDir files = (case r of Inl e \<Rightarrow> Inl e | Inr u \<Rightarrow> Inr n')"
    using assms(5,6) run by (simp add: assemble_run [OF p c] split: sum.split)
  have one: "length (bc_chain (nd_chain ?n)) = 1" "nd_storage ?n = Some s" using g by (simp_all add: blank_node_def)
  note out = recover_outcome [OF one(2,1) run]
  show ?thesis
  proof (cases r)
    case (Inl e)
    then show ?thesis using out by (simp add: newNode_outcome new)
  next
    case (Inr u)
    then have n': "assembleNode C J L keys gkeys auths allocs dataDir files = Inr n'" by (simp add: new)
    then have cons: "consistent C J n'" by (rule assemble_consistent [OF assms(1-3)])
    have "node_isChainValid C J n'" using consistentD(5) [OF cons] by (simp add: node_isChainValid_def validateChain_valid_blocks)
    moreover have "st_accounts (nd_state n') = replay (genesis_accounts n') (tl (bc_chain (nd_chain n')))"
      using consistentD(3) [OF cons] by (simp add: chain_inv_def)
    ultimately show ?thesis using out Inr by (simp add: newNode_outcome n' split: option.split)
  qed
qed

text \<open>A database that claims three blocks and holds none: the node starts on its genesis block.\<close>

theorem recovery_of_any_store_witness:
  "\<exists>n :: ((string \<times> string) list, jval) node.
     newNode demo_crypto demo_json demo_leveldb (\<lambda>_. None) sample_keys sample_keys [sample_alice] [(sample_alice, 100)] 9000 sample_dir
       [(heightKey, ''3'')] = Inr n \<and>
     node_isChainValid demo_crypto demo_json n \<and> length (bc_chain (nd_chain n)) = 1"
proof -
  let ?files = "[(heightKey, ''3'')]"
  let ?s = "\<lparr>sto_path = sample_dir, sto_files = ?files, sto_open = True\<rparr> :: (string \<times> string) list storage"
  have opened: "newStorage demo_leveldb sample_dir ?files = Inr ?s" by (simp add: newStorage_def demo_leveldb_def)
  have height: "loadChainHeight demo_leveldb ?s = Inr 3"
    by (simp add: loadChainHeight_def with_db_def demo_leveldb_def demo_get_def heightKey_def stoull_def to_unsigned_def strto_def is_space_def is_digit_def digit_value_def code_of_def
        digits_value_def digit_or_0_def)
  have none: "loadBlock demo_leveldb demo_json i ?s = Inr None" for i
    by (simp add: loadBlock_def with_db_def demo_leveldb_def demo_get_def heightKey_def blockKey_def)
  have given: "[sample_alice] \<noteq> []" "sample_dir \<noteq> []" by (simp_all add: sample_dir_def)
  note out = recovery_of_any_store [OF demo_crypto_ok sample_keys_ok sample_keys_ok given opened, where J = demo_json
      and allocs = "[(sample_alice, 100)]" and P = "\<lambda>_. None" and port = 9000]
  obtain n where n: "newNode demo_crypto demo_json demo_leveldb (\<lambda>_. None) sample_keys sample_keys [sample_alice] [(sample_alice, 100)]
      9000 sample_dir ?files = Inr n"
    using out height none by (auto split: sum.splits)
  have facts: "node_isChainValid demo_crypto demo_json n"
      "\<not> (0 < (1::nat) \<and> 1 < length (bc_chain (nd_chain n)))"
    using out unfolding n by (auto simp: none)
  moreover have "bc_chain (nd_chain n) \<noteq> []"
    using facts(1) valid_blocks_nonempty by (auto simp: node_isChainValid_def validateChain_valid_blocks)
  ultimately have "length (bc_chain (nd_chain n)) = 1" by (cases "bc_chain (nd_chain n)") auto
  then show ?thesis using n facts(1) by blast
qed

end
