(* ===== verification/Spec2Isabelle.thy ===== *)
theory Spec2Isabelle
  imports Core_Properties Storage_Properties Wire_Properties Node_Properties Rpc_Properties Cli_Properties
    Cluster_Properties Entry_Properties Gossip_Properties Thread_Properties Recovery_Properties
begin

text \<open>
  TitanCore, a proof-of-authority blockchain node in C++17 (\<open>src/src\<close>, \<open>src/include/titancore\<close>).

  The program. Authorities take turns in producing blocks (\<open>core/consensus\<close>). A node
  (\<open>net/node\<close>) owns the chain of blocks (\<open>core/blockchain\<close>), the account state it induces
  (\<open>core/state\<close>), the pool of pending transactions (\<open>core/mempool\<close>), a LevelDB store
  (\<open>storage/storage\<close>) and the network (\<open>net/network_manager\<close>, one \<open>net/peer_session\<close> per
  connection, messages framed by \<open>net/message\<close>). Transactions and blocks are hashed and signed
  with \<open>crypto/hash\<close> and \<open>crypto/keys\<close>. \<open>rpc/rpc_server\<close> answers clients over the node's
  queries, \<open>main.cpp\<close> writes the keys and the genesis file (\<open>crypto/key_io\<close>,
  \<open>net/genesis_config\<close>), starts a node from them and drives its block production, or signs a
  transaction offline. A block a node accepts is added to the chain, applied to the state,
  removed from the pool, stored and announced; a node that sees a block ahead of its tip asks the
  sender for the blocks in between.

  Theories and sources.
  \<^item> \<open>Prelude\<close>: machine types of \<open>common/types.hpp\<close>, exceptions as values, the codec interface.
  \<^item> \<open>Strconv\<close>: the number parsing and printing of the standard library the sources use.
  \<^item> \<open>Crypto_Api\<close>, \<open>Json_Api\<close>, \<open>Leveldb_Api\<close>, \<open>Files\<close>: the libraries and the disk, as records
    of their calls with the documented behaviour as a predicate, and a concrete instance of each
    (\<open>Json_Demo\<close> for JSON) with which the witnesses compute.
  \<^item> \<open>Hashing\<close>: \<open>crypto/hash\<close>; \<open>Keys\<close>: \<open>crypto/keys\<close> and the text of key files; \<open>Key_Files\<close>:
    \<open>crypto/key_io\<close>.
  \<^item> \<open>Transaction\<close>, \<open>Block\<close>, \<open>Consensus\<close>, \<open>Blockchain\<close>, \<open>State_Manager\<close>, \<open>Mempool\<close>: the classes
    of \<open>core/\<close> of these names; their objects are the records \<open>transaction\<close>, \<open>block\<close>,
    \<open>poa_consensus\<close>, \<open>blockchain\<close>, \<open>state_manager\<close> and \<open>mempool\<close>. A hash map is an association
    list; where iteration order could matter it is shown not to.
  \<^item> \<open>Effects\<close>: procedures that change a state and may throw; a throw keeps the state reached.
  \<^item> \<open>Storage\<close>: \<open>storage/storage\<close>; \<open>Message\<close>: \<open>net/message\<close>; \<open>Peer_Session\<close>: \<open>net/peer_session\<close>,
    one function per completion handler and posted closure, with the requests to asio as effects;
    \<open>Network\<close>: \<open>net/network_manager\<close>.
  \<^item> \<open>Node\<close>: \<open>net/node\<close>; each operation and message handler is one procedure on the record
    \<open>node\<close>, the unit its mutex makes atomic. \<open>Node_Steps\<close>, \<open>Node_Facts\<close>, \<open>Node_Recovery\<close>: the
    step relation over all operations, runs and lives (with restarts), and the invariants.
    \<open>Node_Threads\<close>: the sections of these operations under the mutex, the announcements after it,
    and the interleavings of threads.
  \<^item> \<open>Cluster\<close>, \<open>Cluster_Log\<close>, \<open>Cluster_Progress\<close>, \<open>Cluster_Rounds\<close>: several nodes under an
    adversarial network, as a step relation over operations of one node, restarts and signatures,
    with the signed blocks as a ghost; the log they form, the abstract journal, and a round of honest
    behaviour, in which the nodes' own handlers connect, ask and answer and their messages are
    serialised, framed and read by a session. \<open>created\<close> is the block \<open>produceBlock\<close> signs.
  \<^item> \<open>Gossip\<close>, \<open>Gossip_Flood\<close>: nodes joined by sessions and the messages in flight between them, as a
    step relation on deliveries in any order, with the measure that decreases and the invariant of a
    block that spreads.
  \<^item> \<open>Genesis_Config\<close>: \<open>net/genesis_config\<close>; \<open>Rpc\<close>, \<open>Rpc_Server\<close>: requests and life cycle of
    \<open>rpc/rpc_server\<close>; \<open>Cli\<close>: the arguments and modes of \<open>main.cpp\<close>; \<open>Entry_Point\<close>: \<open>main\<close> itself,
    its texts, the shutdown, and \<open>common/version.hpp\<close>.
  \<^item> \<open>Core_Properties\<close>, \<open>Storage_Properties\<close>, \<open>Wire_Properties\<close>, \<open>Node_Properties\<close>,
    \<open>Rpc_Properties\<close>, \<open>Cli_Properties\<close>, \<open>Cluster_Properties\<close>, \<open>Entry_Properties\<close>,
    \<open>Gossip_Properties\<close>, \<open>Thread_Properties\<close>, \<open>Recovery_Properties\<close>: the properties,
    numbered C1 to C40 in order of importance over all theories, with a few more left unnumbered;
    \<open>Samples\<close> and \<open>Cluster_Samples\<close> hold the values their witnesses share.

  What is shown.
  \<^item> Cluster: whatever the network drops, repeats, reorders or invents, and through restarts, the
    blocks signed by the authorities form one append-only journal, of which every node holds a
    prefix; no node drops a block; nodes at the same height report the same accounts; and an honest
    round extends the journal and brings everybody up to it, as long as requests and answers fit a
    frame. This assumes that an authority's
    key signs on one node only, on a database that does not fail, that there are fewer than 2^64
    blocks, and it holds up to a digest collision between texts hashed in the run, which the
    statements name.
  \<^item> Gossip: a produced block reaches every node that sessions lead to, and forwarding never goes
    round in circles: the exchange of messages ends.
  \<^item> Threads: whatever the interleaving, the calls on a node decide what they would decide one after
    the other in the order of the mutex, although announcements come after it; a client
    that asks why it was rejected is told the pool's reason, unless another client's rejection comes
    in between: then it is told that one's, which is a defect.
  \<^item> Ledger: a block applies all or nothing, as a ledger over unbounded numbers would; supply is
    conserved; nothing applies twice. The pool keeps an invariant from which its selection always
    applies, and a block made of it evicts nobody else.
  \<^item> Chain: what the constructors and \<open>addBlock\<close> build validates and follows the schedule; its tip
    hash fixes the whole history, unless SHA-256 collides.
  \<^item> Wire and disk: text forms decode to what they encode; two sessions deliver a prefix of what
    was sent, in order; bad frames are contained; the store implements four maps.
  \<^item> Node: in every run chain, accounts and pool agree with each other, and nobody loses coins but by
    transfers signed with the key of the address; a produced block is
    followed by nodes in the same position; a node that lags behind catches up; a restart gives
    back chain and accounts; recovery from any database, whole or damaged, takes over the stored
    blocks up to the first that is missing or does not fit, or names the read that failed; and a block that cannot be paid is kept, which is a defect.
  \<^item> Interfaces: what each RPC method answers, the error codes, and that only a submission changes
    the node; the files of \<open>--generate-keys\<close> start the network they describe, and started again on
    its database the program resumes; what \<open>--sign-tx\<close> prints is accepted over RPC; a command line
    parses back to the arguments it was written from; and stopping the RPC server ends, except in
    the moment before it listens, which is a defect.
  The interfaces between components are locales (\<open>codec\<close>, the invariants of \<open>Node_Steps\<close> and
  those of the core theories), each interpreted on the model's definitions where they are provided.

  Bounds and partiality. Amounts, nonces, heights and lengths are words of the C++ width with
  their wrap-around. The supply must fit 64 bits for the ledger theorems; a nonce of 2^64 - 1,
  which would wrap the pool's counter, is excluded from submissions; chains of 2^64 blocks are
  excluded where heights are compared. Gossip is followed until it rests, with no new submission or
  block and with block numbers below 2^64 - 1. A frame holds at most 16 MB, so synchronisation and
  progress assume that the missing blocks fit one frame (\<open>sendable\<close>, \<open>answers_fit\<close>); a node whose
  missing blocks do not is shown to stay where it is (\<open>fill_stuck\<close>). Key generation loops until a draw is valid and is a
  partial function, shown to return as soon as one is. No other loop needs fuel.

  Failures of construction. A node is built when its database can be read and the operating system
  opens its listening port, a parameter \<open>P\<close> of \<open>newNetwork\<close>, \<open>newNode\<close> and \<open>runNode\<close>; what they throw
  otherwise is their \<open>Inl\<close> result, which nobody catches. That OpenSSL's digest calls fail is an
  exception of \<open>sha256\<close> only: the components above use the value it returns (\<open>digest\<close>), and their
  theorems assume that it returns one.

  Not modelled. The libraries themselves (OpenSSL, libsecp256k1, nlohmann::json, LevelDB, asio,
  cpp-httplib, spdlog): asio's sockets, resolver, acceptor and threads appear through the
  completion handlers they call, the HTTP server through \<open>handleRpc\<close> and the moves of its thread,
  of which binding and running are one and listening ends only when it is stopped.
  The lines logged outside \<open>main\<close> and \<open>parseArgs\<close>; sleeping and the clock (a parameter \<open>now\<close>);
  signal handlers, which are the end of the main loop's list of clock readings. Interleavings are
  those of whole sections under the node's mutex; the two unlocked reads of \<open>Node::start\<close>, which are
  logged only, are not modelled.
\<close>

end
